(* ===== verification/Go_Prelude.thy ===== *)
theory Go_Prelude
  imports Main "HOL-Library.Word" "HOL-Library.Monad_Syntax"
begin

text \<open>
  The part of the Go language the modelled sources rely on.

  \<^item> A \<^verbatim>\<open>byte\<close> is an 8-bit word; a Go \<^verbatim>\<open>string\<close> is a list of bytes and is modelled by
    \<open>string\<close> (a \<open>char\<close> is one byte); \<open>string_bytes\<close> and \<open>bytes_string\<close> are the two conversions
    \<^verbatim>\<open>[]byte(s)\<close> and \<^verbatim>\<open>string(b)\<close>.
  \<^item> A Go \<^verbatim>\<open>int\<close> used as a position or a length is an \<open>int\<close>. Every declared length the parsers
    add to a position is at most \<^verbatim>\<open>math.MaxInt32\<close> (lemma \<open>parseLength_safe\<close> of Snmp_Ber), so on
    the 64-bit targets the program builds for no such sum wraps.
  \<^item> A run-time panic is the value \<open>None\<close>: \<open>at\<close> is the checked index expression
    \<^verbatim>\<open>b[i]\<close> and \<open>slice\<close> the checked slice expression \<^verbatim>\<open>b[i:j]\<close>. \<open>slice\<close> refuses an upper bound
    beyond the length, where Go refuses one beyond the capacity, so absence of \<open>None\<close> here is
    the stronger statement.
  \<^item> \<open>safe m P\<close> says that the computation \<open>m\<close> returns, without a panic, a value with property
    \<open>P\<close>; its rules, collected in \<open>safe_intros\<close>, are a small calculus of total correctness for
    the parsers.
\<close>

type_synonym byte = "8 word"

named_theorems safe_intros

section \<open>Checked indexing and slicing\<close>

definition at :: "'a list \<Rightarrow> int \<Rightarrow> 'a option" where
  "at xs i = (if 0 \<le> i \<and> i < int (length xs) then Some (xs ! nat i) else None)"

definition slice :: "'a list \<Rightarrow> int \<Rightarrow> int \<Rightarrow> 'a list option" where
  "slice xs lo hi =
     (if 0 \<le> lo \<and> lo \<le> hi \<and> hi \<le> int (length xs)
      then Some (take (nat (hi - lo)) (drop (nat lo) xs)) else None)"

text \<open>\<open>tag_at b i t\<close> is the guard \<^verbatim>\<open>i < len(b) && b[i] == t\<close>, whose second half is evaluated
  only when the first holds.\<close>

definition tag_at :: "byte list \<Rightarrow> int \<Rightarrow> byte \<Rightarrow> bool option" where
  "tag_at b i t =
     (if int (length b) \<le> i then Some False else map_option (\<lambda>x. x = t) (at b i))"

definition string_bytes :: "string \<Rightarrow> byte list" where
  "string_bytes s = map of_char s"

definition bytes_string :: "byte list \<Rightarrow> string" where
  "bytes_string b = map (\<lambda>x. char_of (unat x)) b"

section \<open>Returning without a panic\<close>

definition safe :: "'a option \<Rightarrow> ('a \<Rightarrow> bool) \<Rightarrow> bool" where
  "safe m P \<longleftrightarrow> (\<exists>x. m = Some x \<and> P x)"

lemma safeI: "m = Some x \<Longrightarrow> P x \<Longrightarrow> safe m P"
  by (simp add: safe_def)

lemma safeE:
  assumes "safe m P"
  obtains x where "m = Some x" and "P x"
  using assms by (auto simp: safe_def)

lemma safe_mono: "safe m Q \<Longrightarrow> (\<And>x. Q x \<Longrightarrow> P x) \<Longrightarrow> safe m P"
  by (auto simp: safe_def)

lemma safe_not_None: "safe m P \<Longrightarrow> m \<noteq> None"
  by (auto simp: safe_def)

lemma safe_Some [simp]: "safe (Some x) P = P x"
  by (simp add: safe_def)

lemma safe_Some_intro [safe_intros]: "P x \<Longrightarrow> safe (Some x) P"
  by simp

lemma safe_bind [safe_intros]: "safe m (\<lambda>x. safe (f x) P) \<Longrightarrow> safe (Option.bind m f) P"
  by (auto simp: safe_def)

lemma safe_if [safe_intros]:
  "(b \<Longrightarrow> safe m P) \<Longrightarrow> (\<not> b \<Longrightarrow> safe m' P) \<Longrightarrow> safe (if b then m else m') P"
  by simp

lemma safe_case_prod [safe_intros]:
  "(\<And>a b. x = (a, b) \<Longrightarrow> safe (f a b) P) \<Longrightarrow> safe (case x of (a, b) \<Rightarrow> f a b) P"
  by (cases x) simp

lemma safe_let [safe_intros]: "(\<And>x. x = e \<Longrightarrow> safe (f x) P) \<Longrightarrow> safe (Let e f) P"
  by simp

lemma safe_at [safe_intros]:
  "0 \<le> i \<Longrightarrow> i < int (length xs) \<Longrightarrow> P (xs ! nat i) \<Longrightarrow> safe (at xs i) P"
  by (simp add: at_def)

lemma safe_slice [safe_intros]:
  "0 \<le> lo \<Longrightarrow> lo \<le> hi \<Longrightarrow> hi \<le> int (length xs) \<Longrightarrow> P (take (nat (hi - lo)) (drop (nat lo) xs))
   \<Longrightarrow> safe (slice xs lo hi) P"
  by (simp add: slice_def)

lemma safe_tag_at [safe_intros]:
  "0 \<le> i \<Longrightarrow> (\<And>b. b \<longleftrightarrow> i < int (length xs) \<and> xs ! nat i = t \<Longrightarrow> P b) \<Longrightarrow> safe (tag_at xs i t) P"
  by (auto simp: tag_at_def at_def)

section \<open>Reading a buffer that has a known part at a position\<close>

lemma at_append [simp]:
  "i = int (length pre) \<Longrightarrow> at (pre @ x # rest) i = Some x"
  by (simp add: at_def)

lemma tag_at_append [simp]:
  "i = int (length pre) \<Longrightarrow> tag_at (pre @ x # rest) i t = Some (x = t)"
  by (simp add: tag_at_def)

lemma tag_at_end [simp]: "int (length b) \<le> i \<Longrightarrow> tag_at b i t = Some False"
  by (simp add: tag_at_def)

lemma slice_append [simp]:
  "lo = int (length pre) \<Longrightarrow> hi = int (length pre) + int (length mid)
   \<Longrightarrow> slice (pre @ mid @ rest) lo hi = Some mid"
  by (simp add: slice_def)

lemma slice_length: "slice xs lo hi = Some ys \<Longrightarrow> int (length ys) = hi - lo"
  by (auto simp: slice_def split: if_splits)

section \<open>Bytes and characters\<close>

lemma length_string_bytes [simp]: "length (string_bytes s) = length s"
  by (simp add: string_bytes_def)

lemma length_bytes_string [simp]: "length (bytes_string b) = length b"
  by (simp add: bytes_string_def)

lemma unat_of_char_byte [simp]: "unat (of_char c :: byte) = of_char c"
proof -
  have "(of_char c :: byte) = word_of_nat (of_char c)"
    by (simp only: of_nat_of_char)
  then have "unat (of_char c :: byte) = of_char c mod 2 ^ 8"
    by (simp add: unat_of_nat)
  then show ?thesis
    using nat_of_char_less_256 [of c] by simp
qed

lemma bytes_string_of_string [simp]: "bytes_string (string_bytes s) = s"
  by (simp add: bytes_string_def string_bytes_def comp_def)

lemma string_bytes_of_bytes [simp]: "string_bytes (bytes_string b) = b"
proof -
  have "(of_char (char_of (unat x)) :: byte) = x" for x :: byte
  proof -
    have "unat x < 256"
      using unsigned_less [of x, where ?'a = nat] by simp
    then have "(of_char (char_of (unat x)) :: nat) = unat x"
      by simp
    then show ?thesis
      by (metis of_nat_of_char of_nat_unat ucast_id)
  qed
  then show ?thesis
    by (simp add: bytes_string_def string_bytes_def comp_def map_idI)
qed

lemma string_bytes_append [simp]: "string_bytes (s @ t) = string_bytes s @ string_bytes t"
  by (simp add: string_bytes_def)

lemma string_bytes_inject [simp]: "string_bytes s = string_bytes t \<longleftrightarrow> s = t"
  by (metis bytes_string_of_string)

end
