(* ===== verification/Go_Strconv.thy ===== *)
theory Go_Strconv
  imports Go_Prelude
begin

text \<open>
  What the modelled sources use of the standard packages \<^verbatim>\<open>strings\<close>, \<^verbatim>\<open>strconv\<close> and
  \<^verbatim>\<open>net\<close>: prefixes, splitting and joining at dots, decimal formatting and the range-checked
  decimal readers, and the textual IP address reader with its IPv4-in-IPv6 form. An error of the
  package is \<open>None\<close>; the error text is not modelled.
\<close>

section \<open>Package strings\<close>

definition HasPrefix :: "string \<Rightarrow> string \<Rightarrow> bool" where
  "HasPrefix s p \<longleftrightarrow> length p \<le> length s \<and> take (length p) s = p"

definition TrimPrefix :: "string \<Rightarrow> string \<Rightarrow> string" where
  "TrimPrefix s p = (if HasPrefix s p then drop (length p) s else s)"

definition dot :: char where
  "dot = CHR ''.''"

text \<open>\<^verbatim>\<open>strings.Split(s, ".")\<close>: never empty, and the empty string has one empty component.\<close>

fun Split :: "string \<Rightarrow> string list" where
  "Split [] = [[]]"
| "Split (c # s) = (if c = dot then [] # Split s
                    else (case Split s of [] \<Rightarrow> [[c]] | p # ps \<Rightarrow> (c # p) # ps))"

text \<open>\<^verbatim>\<open>strings.Join(ps, ".")\<close>.\<close>

fun Join :: "string list \<Rightarrow> string" where
  "Join [] = []"
| "Join [p] = p"
| "Join (p # ps) = p @ dot # Join ps"

section \<open>Package strconv\<close>

definition is_digit :: "char \<Rightarrow> bool" where
  "is_digit c \<longleftrightarrow> 48 \<le> (of_char c :: nat) \<and> (of_char c :: nat) \<le> 57"

definition digit_val :: "char \<Rightarrow> nat" where
  "digit_val c = of_char c - 48"

fun digits_val :: "nat \<Rightarrow> string \<Rightarrow> nat option" where
  "digits_val acc [] = Some acc"
| "digits_val acc (c # s) =
     (if is_digit c then digits_val (acc * 10 + digit_val c) s else None)"

text \<open>\<^verbatim>\<open>strconv.ParseUint(s, 10, bits)\<close>: one or more digits, no sign, within range.\<close>

definition ParseUint :: "string \<Rightarrow> nat \<Rightarrow> nat option" where
  "ParseUint s bits =
     (if s = [] then None
      else case digits_val 0 s of
             None \<Rightarrow> None
           | Some n \<Rightarrow> if n < 2 ^ bits then Some n else None)"

text \<open>\<^verbatim>\<open>strconv.ParseInt(s, 10, bits)\<close>: an optional sign, then as above.\<close>

definition ParseInt :: "string \<Rightarrow> nat \<Rightarrow> int option" where
  "ParseInt s bits =
     (case s of
        [] \<Rightarrow> None
      | c # r \<Rightarrow>
          let neg = (c = CHR ''-''); body = (if c = CHR ''-'' \<or> c = CHR ''+'' then r else s)
          in if body = [] then None
             else case digits_val 0 body of
                    None \<Rightarrow> None
                  | Some n \<Rightarrow> if neg then (if n \<le> 2 ^ (bits - 1) then Some (- int n) else None)
                             else (if n < 2 ^ (bits - 1) then Some (int n) else None))"

definition Atoi :: "string \<Rightarrow> int option" where
  "Atoi s = ParseInt s 64"

definition digit_char :: "nat \<Rightarrow> char" where
  "digit_char n = char_of (48 + n)"

text \<open>\<^verbatim>\<open>strconv.FormatUint(n, 10)\<close> and \<^verbatim>\<open>strconv.Itoa\<close>.\<close>

fun FormatUint :: "nat \<Rightarrow> string" where
  "FormatUint n = (if n < 10 then [digit_char n] else FormatUint (n div 10) @ [digit_char (n mod 10)])"

declare FormatUint.simps [simp del]

definition Itoa :: "int \<Rightarrow> string" where
  "Itoa i = (if i < 0 then CHR ''-'' # FormatUint (nat (- i)) else FormatUint (nat i))"

section \<open>Lemmas on prefixes, Split and Join\<close>

definition dotless :: "string \<Rightarrow> bool" where
  "dotless s \<longleftrightarrow> dot \<notin> set s"

lemma HasPrefix_append [simp]: "HasPrefix (p @ s) p"
  by (simp add: HasPrefix_def)

lemma HasPrefix_iff: "HasPrefix s p \<longleftrightarrow> (\<exists>t. s = p @ t)"
  by (metis HasPrefix_append HasPrefix_def append_take_drop_id)

lemma TrimPrefix_append [simp]: "TrimPrefix (p @ s) p = s"
  by (simp add: TrimPrefix_def)

lemma TrimPrefix_dot [simp]: "TrimPrefix (dot # s) [dot] = s"
  using TrimPrefix_append [of "[dot]" s] by simp

lemma TrimPrefix_no_dot: "s = [] \<or> hd s \<noteq> dot \<Longrightarrow> TrimPrefix s [dot] = s"
  by (cases s) (auto simp: TrimPrefix_def HasPrefix_def)

lemma Split_not_Nil [simp]: "Split s \<noteq> []"
  by (induction s) (auto split: list.splits)

lemma Split_dotless: "dotless s \<Longrightarrow> Split s = [s]"
  by (induction s) (auto simp: dotless_def)

lemma Split_append_dot: "dotless p \<Longrightarrow> Split (p @ dot # s) = p # Split s"
  by (induction p) (auto simp: dotless_def)

lemma Split_Join: "ps \<noteq> [] \<Longrightarrow> (\<forall>p\<in>set ps. dotless p) \<Longrightarrow> Split (Join ps) = ps"
  by (induction ps rule: Join.induct) (simp_all add: Split_dotless Split_append_dot)

lemma Split_dotless_parts: "\<forall>p\<in>set (Split s). dotless p"
proof (induction s)
  case Nil
  then show ?case by (simp add: dotless_def)
next
  case (Cons c s)
  then show ?case by (cases "Split s") (auto simp: dotless_def)
qed

lemma Join_Split: "Join (Split s) = s"
proof (induction s)
  case Nil
  then show ?case by simp
next
  case (Cons c s)
  obtain p ps where sp: "Split s = p # ps"
    using Split_not_Nil by (cases "Split s") auto
  with Cons show ?case by (cases ps) auto
qed

lemma Split_inject: "Split s = Split t \<Longrightarrow> s = t"
  by (metis Join_Split)

section \<open>Lemmas on decimals\<close>

lemma digit_char_props [simp]:
  assumes "n < 10"
  shows "is_digit (digit_char n)" and "digit_val (digit_char n) = n" and "digit_char n \<noteq> dot"
    and "digit_char n \<noteq> CHR ''-''" and "digit_char n \<noteq> CHR ''+''"
proof -
  have n: "(of_char (digit_char n) :: nat) = 48 + n"
    using assms by (simp add: digit_char_def)
  show "is_digit (digit_char n)" and "digit_val (digit_char n) = n"
    using assms by (simp_all add: is_digit_def digit_val_def n)
  show "digit_char n \<noteq> dot" and "digit_char n \<noteq> CHR ''-''" and "digit_char n \<noteq> CHR ''+''"
    using n assms by (auto simp: dot_def)
qed

lemma digits_val_append:
  "digits_val acc (s @ t) = Option.bind (digits_val acc s) (\<lambda>a. digits_val a t)"
  by (induction s arbitrary: acc) auto

lemma digits_val_FormatUint: "digits_val 0 (FormatUint n) = Some n"
proof (induction n rule: FormatUint.induct)
  case (1 n)
  show ?case
  proof (cases "n < 10")
    case True
    then show ?thesis by (simp add: FormatUint.simps [of n])
  next
    case False
    with 1 show ?thesis by (simp add: FormatUint.simps [of n] digits_val_append)
  qed
qed

lemma FormatUint_digits: "\<forall>c\<in>set (FormatUint n). is_digit c"
proof (induction n rule: FormatUint.induct)
  case (1 n)
  then show ?case by (simp add: FormatUint.simps [of n])
qed

lemma FormatUint_not_Nil [simp]: "FormatUint n \<noteq> []"
  by (simp add: FormatUint.simps)

lemma is_digit_not_dot: "is_digit c \<Longrightarrow> c \<noteq> dot"
  by (auto simp: is_digit_def dot_def)

lemma FormatUint_dotless [simp]: "dotless (FormatUint n)"
  using FormatUint_digits is_digit_not_dot by (auto simp: dotless_def)

lemma ParseUint_FormatUint [simp]: "n < 2 ^ bits \<Longrightarrow> ParseUint (FormatUint n) bits = Some n"
  by (simp add: ParseUint_def digits_val_FormatUint)

lemma FormatUint_inject [simp]: "FormatUint m = FormatUint n \<longleftrightarrow> m = n"
  by (metis digits_val_FormatUint option.inject)

lemma hd_FormatUint: "is_digit (hd (FormatUint n))"
  by (metis FormatUint_digits FormatUint_not_Nil hd_in_set)

lemma ParseInt_digits:
  assumes "s \<noteq> []" and "is_digit (hd s)"
  shows "ParseInt s bits =
    (case digits_val 0 s of None \<Rightarrow> None
     | Some n \<Rightarrow> if n < 2 ^ (bits - 1) then Some (int n) else None)"
proof -
  obtain c r where s: "s = c # r" using assms(1) by (cases s) auto
  have "c \<noteq> CHR ''-''" and "c \<noteq> CHR ''+''"
    using assms(2) s by (auto simp: is_digit_def)
  then show ?thesis by (simp add: ParseInt_def s split: option.split)
qed

lemma ParseInt_FormatUint: "n < 2 ^ (bits - 1) \<Longrightarrow> ParseInt (FormatUint n) bits = Some (int n)"
  by (simp add: ParseInt_digits hd_FormatUint digits_val_FormatUint)

lemma Atoi_FormatUint: "n < 2 ^ 63 \<Longrightarrow> Atoi (FormatUint n) = Some (int n)"
  using ParseInt_FormatUint [of n 64] by (simp add: Atoi_def)

lemma Atoi_empty [simp]: "Atoi [] = None"
  by (simp add: Atoi_def ParseInt_def)

lemma Atoi_range:
  assumes "Atoi s = Some i"
  shows "- (2 ^ 63) \<le> i \<and> i < 2 ^ 63"
  using assms
  by (auto simp: Atoi_def ParseInt_def Let_def split: list.splits option.splits if_splits)

end
