(* ===== verification/Go_Netip.thy ===== *)
theory Go_Netip
  imports Go_Strconv
begin

text \<open>
  The textual IP address reader of the standard library as \<^verbatim>\<open>net.ParseIP\<close> uses it
  (\<^verbatim>\<open>net/netip.ParseAddr\<close>, with zoned addresses refused), and \<^verbatim>\<open>net.IP.To4\<close>. An address is its
  16 bytes, an IPv4 address in the IPv4-mapped form, as \<^verbatim>\<open>net.ParseIP\<close> returns it; \<open>None\<close> is the nil
  \<^verbatim>\<open>net.IP\<close>.
\<close>

section \<open>IPv4 text\<close>

text \<open>\<open>ipv4_fields s first digLen val fields\<close>: the loop of \<^verbatim>\<open>parseIPv4Fields\<close>, with \<open>first\<close> true at
  the start of the text or right after a dot.\<close>

fun ipv4_fields :: "string \<Rightarrow> bool \<Rightarrow> nat \<Rightarrow> nat \<Rightarrow> byte list \<Rightarrow> byte list option" where
  "ipv4_fields [] first digLen val fields =
     (if length fields < 3 then None else Some (fields @ [of_nat val]))"
| "ipv4_fields (c # s) first digLen val fields =
     (if is_digit c then
        (if digLen = 1 \<and> val = 0 then None
         else let v = val * 10 + digit_val c
              in if 255 < v then None else ipv4_fields s False (Suc digLen) v fields)
      else if c = dot then
        (if first \<or> s = [] then None
         else if length fields = 3 then None
         else ipv4_fields s True 0 0 (fields @ [of_nat val]))
      else None)"

definition parseIPv4Fields :: "string \<Rightarrow> byte list option" where
  "parseIPv4Fields s = ipv4_fields s True 0 0 []"

section \<open>IPv6 text\<close>

definition hex_val :: "char \<Rightarrow> nat option" where
  "hex_val c =
     (let n = of_char c :: nat
      in if 48 \<le> n \<and> n \<le> 57 then Some (n - 48)
         else if 97 \<le> n \<and> n \<le> 102 then Some (n - 87)
         else if 65 \<le> n \<and> n \<le> 70 then Some (n - 55)
         else None)"

text \<open>The hexadecimal group at the front of the text: the number of digits, the value and the rest;
  \<open>None\<close> for a group of more than four digits.\<close>

fun hex_group :: "nat \<Rightarrow> nat \<Rightarrow> string \<Rightarrow> (nat \<times> nat \<times> string) option" where
  "hex_group off acc [] = Some (off, acc, [])"
| "hex_group off acc (c # s) =
     (case hex_val c of
        None \<Rightarrow> Some (off, acc, c # s)
      | Some h \<Rightarrow> if 3 < off then None else hex_group (Suc off) (acc * 16 + h) s)"

text \<open>\<open>ipv6_groups n s ip ellipsis\<close>: the loop of \<^verbatim>\<open>parseIPv6\<close> with \<open>n\<close> rounds left (at most eight:
  each round adds two bytes and the loop stops at sixteen); the result is the bytes read, the
  ellipsis position and the text left over.\<close>

fun ipv6_groups :: "nat \<Rightarrow> string \<Rightarrow> byte list \<Rightarrow> nat option
    \<Rightarrow> (byte list \<times> nat option \<times> string) option" where
  "ipv6_groups 0 s ip ellipsis = Some (ip, ellipsis, s)"
| "ipv6_groups (Suc n) s ip ellipsis =
     (case hex_group 0 0 s of
        None \<Rightarrow> None
      | Some (off, acc, rest) \<Rightarrow>
          if off = 0 then None
          else if rest \<noteq> [] \<and> hd rest = dot then
            (if ellipsis = None \<and> length ip \<noteq> 12 then None
             else if 16 < length ip + 4 then None
             else case parseIPv4Fields s of
                    None \<Rightarrow> None
                  | Some v4 \<Rightarrow> Some (ip @ v4, ellipsis, []))
          else
            let ip' = ip @ [of_nat (acc div 256), of_nat acc]
            in (case rest of
                  [] \<Rightarrow> Some (ip', ellipsis, [])
                | c # r \<Rightarrow>
                    if c \<noteq> CHR '':'' \<or> r = [] then None
                    else if hd r = CHR '':'' then
                      (if ellipsis \<noteq> None then None
                       else if tl r = [] then Some (ip', Some (length ip'), [])
                       else ipv6_groups n (tl r) ip' (Some (length ip')))
                    else ipv6_groups n r ip' ellipsis))"

definition ipv6_expand :: "byte list \<times> nat option \<times> string \<Rightarrow> byte list option" where
  "ipv6_expand r =
     (case r of (ip, ellipsis, s) \<Rightarrow>
        if s \<noteq> [] then None
        else if length ip < 16 then
          (case ellipsis of
             None \<Rightarrow> None
           | Some e \<Rightarrow> Some (take e ip @ replicate (16 - length ip) 0 @ drop e ip))
        else if ellipsis \<noteq> None then None
        else Some ip)"

definition parseIPv6 :: "string \<Rightarrow> byte list option" where
  "parseIPv6 s =
     (if CHR ''%'' \<in> set s then None
      else if take 2 s = ''::'' then
        (if drop 2 s = [] then Some (replicate 16 0)
         else Option.bind (ipv6_groups 8 (drop 2 s) [] (Some 0)) ipv6_expand)
      else Option.bind (ipv6_groups 8 s [] None) ipv6_expand)"

section \<open>ParseIP and To4\<close>

definition v4InV6Prefix :: "byte list" where
  "v4InV6Prefix = replicate 10 0 @ [0xff, 0xff]"

text \<open>The first dot, colon or percent sign decides which form is read.\<close>

fun first_mark :: "string \<Rightarrow> char option" where
  "first_mark [] = None"
| "first_mark (c # s) =
     (if c = dot \<or> c = CHR '':'' \<or> c = CHR ''%'' then Some c else first_mark s)"

definition ParseIP :: "string \<Rightarrow> byte list option" where
  "ParseIP s =
     (case first_mark s of
        None \<Rightarrow> None
      | Some c \<Rightarrow>
          if c = dot then map_option (\<lambda>v4. v4InV6Prefix @ v4) (parseIPv4Fields s)
          else if c = CHR '':'' then parseIPv6 s
          else None)"

text \<open>\<^verbatim>\<open>ip.To4()\<close>, defined on a nil address too.\<close>

definition To4 :: "byte list option \<Rightarrow> byte list option" where
  "To4 ip =
     (case ip of
        None \<Rightarrow> None
      | Some b \<Rightarrow> if length b = 4 then Some b
                  else if length b = 16 \<and> take 12 b = v4InV6Prefix then Some (drop 12 b)
                  else None)"

lemma To4_length: "To4 ip = Some b \<Longrightarrow> length b = 4"
  by (auto simp: To4_def split: option.splits if_splits)

end
