(* ===== verification/Snmp_Ber.thy ===== *)
theory Snmp_Ber
  imports Go_Netip
begin

text \<open>
  The ASN.1 BER primitives of \<^verbatim>\<open>go/nl6/snmp_encoding.go\<close> and the INTEGER reader of
  \<^verbatim>\<open>go/nl6/snmp_handlers.go\<close>: definite lengths (\<^verbatim>\<open>parseLength\<close>, \<^verbatim>\<open>encodeLength\<close>), INTEGER
  (\<^verbatim>\<open>encodeInteger\<close>, \<^verbatim>\<open>parseBERInt\<close>), the unsigned application types, OCTET STRING, SEQUENCE, NULL
  and IpAddress. The locale \<open>length_code\<close> is the contract a length encoder owes the length reader;
  what a reader finds in a TLV is proved there once and used for every framing of the program.
\<close>

unbundle bit_operations_syntax

abbreviation ASN1_SEQUENCE :: byte where "ASN1_SEQUENCE \<equiv> 0x30"
abbreviation ASN1_INTEGER :: byte where "ASN1_INTEGER \<equiv> 0x02"
abbreviation ASN1_OCTET_STRING :: byte where "ASN1_OCTET_STRING \<equiv> 0x04"
abbreviation ASN1_NULL :: byte where "ASN1_NULL \<equiv> 0x05"
abbreviation ASN1_OBJECT_ID :: byte where "ASN1_OBJECT_ID \<equiv> 0x06"
abbreviation ASN1_OID :: byte where "ASN1_OID \<equiv> 0x06"
abbreviation ASN1_GET_REQUEST :: byte where "ASN1_GET_REQUEST \<equiv> 0xA0"
abbreviation ASN1_GET_NEXT :: byte where "ASN1_GET_NEXT \<equiv> 0xA1"
abbreviation ASN1_GET_RESPONSE :: byte where "ASN1_GET_RESPONSE \<equiv> 0xA2"
abbreviation SNMP_GET_RESPONSE :: byte where "SNMP_GET_RESPONSE \<equiv> 0xA2"
abbreviation ASN1_SET_REQUEST :: byte where "ASN1_SET_REQUEST \<equiv> 0xA3"
abbreviation ASN1_GET_BULK :: byte where "ASN1_GET_BULK \<equiv> 0xA5"
abbreviation ASN1_INFORM_REQUEST :: byte where "ASN1_INFORM_REQUEST \<equiv> 0xA6"
abbreviation ASN1_TRAP_V2C :: byte where "ASN1_TRAP_V2C \<equiv> 0xA7"
abbreviation ASN1_IPADDRESS :: byte where "ASN1_IPADDRESS \<equiv> 0x40"
abbreviation ASN1_COUNTER32 :: byte where "ASN1_COUNTER32 \<equiv> 0x41"
abbreviation ASN1_GAUGE32 :: byte where "ASN1_GAUGE32 \<equiv> 0x42"
abbreviation ASN1_TIMETICKS :: byte where "ASN1_TIMETICKS \<equiv> 0x43"
abbreviation ASN1_COUNTER64 :: byte where "ASN1_COUNTER64 \<equiv> 0x46"

section \<open>Lengths\<close>

text \<open>The accumulation loop of the long form, on the \<^verbatim>\<open>uint32\<close> accumulator.\<close>

fun length_acc :: "byte list \<Rightarrow> int \<Rightarrow> nat \<Rightarrow> 32 word \<Rightarrow> 32 word option" where
  "length_acc data pos 0 acc = Some acc"
| "length_acc data pos (Suc n) acc =
     Option.bind (at data pos) (\<lambda>b. length_acc data (pos + 1) n (push_bit 8 acc OR ucast b))"

definition parseLength :: "byte list \<Rightarrow> int \<Rightarrow> (int \<times> int) option" where
  "parseLength data pos =
     (if int (length data) \<le> pos then Some (-1, pos)
      else do {
        first \<leftarrow> at data pos;
        let pos = pos + 1;
        if first < 0x80 then Some (uint first, pos)
        else do {
          let lengthBytes = uint (first AND 0x7F);
          if lengthBytes = 0 \<or> lengthBytes > 4 \<or> pos + lengthBytes > int (length data)
          then Some (-1, pos)
          else do {
            acc \<leftarrow> length_acc data pos (nat lengthBytes) 0;
            let pos = pos + lengthBytes;
            if acc > 0x7FFFFFFF then Some (-1, pos) else Some (uint acc, pos)
          }
        }
      })"

text \<open>The loop of \<^verbatim>\<open>encodeLength\<close> and of the positive branch of \<^verbatim>\<open>encodeInteger\<close>: prepend the low octet,
  shift, until nothing is left.\<close>

function octets_loop :: "int \<Rightarrow> byte list \<Rightarrow> byte list" where
  "octets_loop temp bytes =
     (if 0 < temp then octets_loop (drop_bit 8 temp) (word_of_int (temp AND 0xff) # bytes) else bytes)"
  by pat_completeness auto
termination
  by (relation "measure (\<lambda>(temp, bytes). nat temp)") (auto simp: drop_bit_eq_div)

declare octets_loop.simps [simp del]

definition encodeLength :: "int \<Rightarrow> byte list" where
  "encodeLength n =
     (if n < 0x80 then [word_of_int n]
      else let bytes = octets_loop n []
           in (0x80 OR word_of_int (int (length bytes))) # bytes)"

definition lenBytesFor :: "int \<Rightarrow> int" where
  "lenBytesFor n = (if n < 128 then 1 else if n < 256 then 2 else 3)"

section \<open>INTEGER\<close>

definition negative_octets :: "int \<Rightarrow> byte list" where
  "negative_octets value =
     (let temp = (word_of_int value :: 64 word)
      in if -128 \<le> value then [ucast temp]
         else if -32768 \<le> value then [ucast (drop_bit 8 temp), ucast temp]
         else if -8388608 \<le> value then [ucast (drop_bit 16 temp), ucast (drop_bit 8 temp), ucast temp]
         else [ucast (drop_bit 24 temp), ucast (drop_bit 16 temp), ucast (drop_bit 8 temp), ucast temp])"

definition integer_octets :: "int \<Rightarrow> byte list" where
  "integer_octets value =
     (if value = 0 then [0]
      else if 0 < value then
        (let bytes = octets_loop value []
         in if bytes \<noteq> [] \<and> hd bytes AND 0x80 \<noteq> 0 then 0 # bytes else bytes)
      else
        (let bytes = negative_octets value
         in if bytes \<noteq> [] \<and> hd bytes AND 0x80 = 0 then 0xFF # bytes else bytes))"

definition encodeInteger :: "int \<Rightarrow> byte list" where
  "encodeInteger value =
     (let bytes = integer_octets value
      in [ASN1_INTEGER] @ encodeLength (int (length bytes)) @ bytes)"

function skip_padding :: "byte list \<Rightarrow> int \<Rightarrow> int \<Rightarrow> int option" where
  "skip_padding data start end =
     (if start < end - 1 then
        Option.bind (at data start) (\<lambda>b.
          if b = 0 then
            Option.bind (at data (start + 1)) (\<lambda>b'.
              if b' AND 0x80 = 0 then skip_padding data (start + 1) end else Some start)
          else Some start)
      else Some start)"
  by pat_completeness auto
termination
  by (relation "measure (\<lambda>(data, start, end). nat (end - start))") auto

declare skip_padding.simps [simp del]

fun int_acc :: "byte list \<Rightarrow> int \<Rightarrow> nat \<Rightarrow> 64 word \<Rightarrow> 64 word option" where
  "int_acc data pos 0 v = Some v"
| "int_acc data pos (Suc n) v =
     Option.bind (at data pos) (\<lambda>b. int_acc data (pos + 1) n (push_bit 8 v OR ucast b))"

definition parseBERInt :: "byte list \<Rightarrow> int \<Rightarrow> int \<Rightarrow> (int \<times> bool) option" where
  "parseBERInt data pos len =
     (if len \<le> 0 \<or> pos + len > int (length data) then Some (0, False)
      else do {
        let end = pos + len;
        start \<leftarrow> skip_padding data pos end;
        if end - start > 8 then Some (0, False)
        else do {
          b \<leftarrow> at data start;
          v \<leftarrow> int_acc data (start + 1) (nat (end - (start + 1))) (scast b);
          Some (sint v, True)
        }
      })"

section \<open>The other types\<close>

definition encodeOctetString :: "string \<Rightarrow> byte list" where
  "encodeOctetString value =
     (let data = string_bytes value
      in [ASN1_OCTET_STRING] @ encodeLength (int (length data)) @ data)"

definition encodeSequence :: "byte list \<Rightarrow> byte list" where
  "encodeSequence contents =
     [ASN1_SEQUENCE] @ encodeLength (int (length contents)) @ contents"

definition encodeNull :: "byte list" where
  "encodeNull = [ASN1_NULL, 0x00]"

text \<open>\<open>strip_zeros n b\<close>: drop at most \<open>n\<close> leading zero octets, the loop
  \<^verbatim>\<open>for start < n && b[start] == 0\<close>.\<close>

fun strip_zeros :: "nat \<Rightarrow> byte list \<Rightarrow> byte list" where
  "strip_zeros (Suc n) (b # bs) = (if b = 0 then strip_zeros n bs else b # bs)"
| "strip_zeros _ bs = bs"

definition encodeUnsigned32 :: "byte \<Rightarrow> 32 word \<Rightarrow> byte list" where
  "encodeUnsigned32 tag value =
     (let b = [ucast (drop_bit 24 value), ucast (drop_bit 16 value), ucast (drop_bit 8 value),
               ucast value];
          body = strip_zeros 3 b
      in [tag] @ encodeLength (int (length body)) @ body)"

definition encodeCounter64 :: "64 word \<Rightarrow> byte list" where
  "encodeCounter64 value =
     (let b = map (\<lambda>i. ucast (drop_bit (8 * (7 - i)) value AND 0xff)) [0..<8];
          body = strip_zeros 7 b
      in [ASN1_COUNTER64] @ encodeLength (int (length body)) @ body)"

definition encodeIPAddress :: "string \<Rightarrow> byte list" where
  "encodeIPAddress ipStr =
     (case To4 (ParseIP ipStr) of
        Some ip4 \<Rightarrow> [ASN1_IPADDRESS, 0x04] @ ip4
      | None \<Rightarrow> encodeOctetString ipStr)"

section \<open>Big-endian octet strings\<close>

definition be_val :: "byte list \<Rightarrow> nat" where
  "be_val bs = foldl (\<lambda>a b. a * 256 + unat b) 0 bs"

lemma be_foldl: "foldl (\<lambda>a b. a * 256 + unat b) x bs = x * 256 ^ length bs + be_val (bs :: byte list)"
proof (induction bs arbitrary: x)
  case Nil
  then show ?case by (simp add: be_val_def)
next
  case (Cons b bs)
  show ?case
    using Cons [of "x * 256 + unat b"] Cons [of "unat b"]
    by (simp add: be_val_def algebra_simps)
qed

lemma be_val_Nil [simp]: "be_val [] = 0"
  by (simp add: be_val_def)

lemma be_val_Cons [simp]: "be_val (b # bs) = unat b * 256 ^ length bs + be_val bs"
  using be_foldl [of "unat b" bs] by (simp add: be_val_def)

lemma unat_byte [simp]: "unat (b :: byte) < 256"
  using unsigned_less [of b, where ?'a = nat] by simp

lemma be_val_less: "be_val bs < 256 ^ length bs"
proof (induction bs)
  case Nil
  then show ?case by simp
next
  case (Cons b bs)
  have "unat b * 256 ^ length bs + be_val bs < (unat b + 1) * 256 ^ length bs"
    using Cons by (simp add: algebra_simps)
  also have "\<dots> \<le> 256 * 256 ^ length bs"
    by (rule mult_right_mono) (use unat_byte [of b] in linarith, simp)
  finally show ?case by simp
qed

lemma be_val_append: "be_val (xs @ ys) = be_val xs * 256 ^ length ys + be_val ys"
  by (induction xs) (simp_all add: algebra_simps power_add)

lemma push_or_32: "push_bit 8 (a :: 32 word) OR ucast (b :: byte) = a * 256 + ucast b"
proof -
  have "push_bit 8 a + ucast b = push_bit 8 a OR (ucast b :: 32 word)"
    by (rule disjunctive_add) (auto simp: bit_simps dest: bit_imp_le_length)
  then show ?thesis
    by (simp add: push_bit_eq_mult)
qed

lemma push_or_64: "push_bit 8 (a :: 64 word) OR ucast (b :: byte) = a * 256 + ucast b"
proof -
  have "push_bit 8 a + ucast b = push_bit 8 a OR (ucast b :: 64 word)"
    by (rule disjunctive_add) (auto simp: bit_simps dest: bit_imp_le_length)
  then show ?thesis
    by (simp add: push_bit_eq_mult)
qed

lemma length_acc_append:
  "pos = int (length pre) \<Longrightarrow> n = length bs \<Longrightarrow>
   length_acc (pre @ bs @ rest) pos n acc
     = Some (acc * 256 ^ length bs + word_of_nat (be_val bs))"
proof (induction bs arbitrary: pre pos n acc)
  case Nil
  then show ?case by simp
next
  case (Cons b bs)
  have step: "at (pre @ (b # bs) @ rest) pos = Some b"
    using Cons.prems by simp
  have "length_acc ((pre @ [b]) @ bs @ rest) (pos + 1) (length bs) (acc * 256 + ucast b)
     = Some ((acc * 256 + ucast b) * 256 ^ length bs + word_of_nat (be_val bs))"
    using Cons.prems by (intro Cons.IH) simp_all
  moreover have "(ucast b :: 32 word) = word_of_nat (unat b)"
    by simp
  ultimately show ?case
    using Cons.prems(2) step by (simp add: push_or_32 algebra_simps del: of_nat_unat)
qed

section \<open>The octet loop\<close>

lemma octets_loop_append: "octets_loop t (bs @ cs) = octets_loop t bs @ cs"
proof (induction t bs rule: octets_loop.induct)
  case (1 t bs)
  then show ?case
    by (cases "0 < t") (simp_all add: octets_loop.simps [of t])
qed

lemma octets_loop_acc: "octets_loop t bs = octets_loop t [] @ bs"
  using octets_loop_append [of t "[]" bs] by simp

lemma octets_loop_0 [simp]: "octets_loop 0 bs = bs"
  by (simp add: octets_loop.simps)

lemma octets_loop_snoc:
  "0 < t \<Longrightarrow> octets_loop t [] = octets_loop (t div 256) [] @ [word_of_int (t mod 256)]"
proof -
  assume "0 < t"
  then have "octets_loop t [] = octets_loop (drop_bit 8 t) [word_of_int (t AND 255)]"
    by (simp add: octets_loop.simps [of t "[]"])
  moreover have "t AND 255 = t mod 256"
    using take_bit_eq_mask [of 8 t] by (simp add: take_bit_eq_mod mask_eq_exp_minus_1)
  ultimately show ?thesis
    by (simp add: octets_loop_acc [of _ "[_]"] drop_bit_eq_div)
qed

lemma octets_loop_induct [consumes 1, case_names zero step]:
  assumes "0 \<le> (t :: int)" and "P 0" and "\<And>t. 0 < t \<Longrightarrow> P (t div 256) \<Longrightarrow> P t"
  shows "P t"
  using assms(1)
proof (induction "nat t" arbitrary: t rule: less_induct)
  case less
  show ?case
  proof (cases "t = 0")
    case False
    then have "0 < t" using less.prems by simp
    moreover have "P (t div 256)"
      using \<open>0 < t\<close> by (intro less.hyps) auto
    ultimately show ?thesis by (rule assms(3))
  qed (use assms(2) in simp)
qed

lemma unat_byte_of_int: "0 \<le> x \<Longrightarrow> x < 256 \<Longrightarrow> unat (word_of_int x :: byte) = nat x"
  by (simp add: unsigned_of_int take_bit_eq_mod)

lemma be_val_octets: "0 \<le> t \<Longrightarrow> be_val (octets_loop t []) = nat t"
proof (induction t rule: octets_loop_induct)
  case (step t)
  have "be_val (octets_loop t []) = nat (t div 256) * 256 + nat (t mod 256)"
    using step by (simp add: octets_loop_snoc be_val_append unat_byte_of_int)
  also have "\<dots> = nat t"
    using step(1) by (simp add: nat_div_distrib nat_mod_distrib)
  finally show ?case .
qed simp_all

lemma length_octets_le: "0 \<le> t \<Longrightarrow> t < 256 ^ k \<Longrightarrow> length (octets_loop t []) \<le> k"
proof (induction k arbitrary: t)
  case 0
  then have "t = 0" by simp
  then show ?case by simp
next
  case (Suc k)
  show ?case
  proof (cases "t = 0")
    case False
    then have "0 < t" using Suc.prems by simp
    moreover have "t div 256 < 256 ^ k"
    proof -
      define x :: int where "x = 256 ^ k"
      have "t < 256 * x" using Suc.prems by (simp add: x_def)
      then have "t div 256 < x" by presburger
      then show ?thesis by (simp add: x_def)
    qed
    ultimately show ?thesis
      using Suc.IH [of "t div 256"] by (simp add: octets_loop_snoc)
  qed simp
qed

lemma octets_hd:
  "0 \<le> t \<Longrightarrow> t \<noteq> 0 \<longrightarrow> octets_loop t [] \<noteq> [] \<and> hd (octets_loop t []) \<noteq> 0"
proof (induction t rule: octets_loop_induct)
  case (step t)
  show ?case
  proof (cases "t div 256 = 0")
    case True
    then have "t < 256" and "t mod 256 = t"
      using step(1) by simp_all
    moreover have "unat (word_of_int t :: byte) \<noteq> 0"
      using \<open>t < 256\<close> step(1) by (simp add: unat_byte_of_int)
    ultimately show ?thesis
      using True step(1) by (auto simp: octets_loop_snoc)
  next
    case False
    then have "octets_loop (t div 256) [] \<noteq> [] \<and> hd (octets_loop (t div 256) []) \<noteq> 0"
      using step(2) by simp
    then show ?thesis
      using octets_loop_snoc [OF step(1)] by simp
  qed
qed simp

lemmas octets_not_Nil = octets_hd [THEN mp, THEN conjunct1]
  and octets_hd_nonzero = octets_hd [THEN mp, THEN conjunct2]

section \<open>Length round trip\<close>

lemma parseLength_short:
  assumes "b < 0x80" and "pos = int (length pre)"
  shows "parseLength (pre @ b # rest) pos = Some (uint b, pos + 1)"
  using assms by (simp add: parseLength_def)

lemma parseLength_long:
  assumes "first = 0x80 OR word_of_int (int (length bs))" and "bs \<noteq> []" and "length bs \<le> 4"
    and "be_val bs \<le> 0x7FFFFFFF" and "pos = int (length pre)"
  shows "parseLength (pre @ first # bs @ rest) pos = Some (int (be_val bs), pos + 1 + int (length bs))"
proof -
  have len: "length bs \<in> {1, 2, 3, 4}"
    using assms(2,3) by (cases "length bs") auto
  then have hi: "\<not> first < 0x80" and lo: "uint (first AND 0x7F) = int (length bs)"
    by (auto simp: assms(1))
  have acc: "length_acc ((pre @ [first]) @ bs @ rest) (pos + 1) (length bs) 0
      = Some (word_of_nat (be_val bs))"
    using length_acc_append [of "pos + 1" "pre @ [first]" "length bs" bs rest 0] assms(5) by simp
  have n: "unat (word_of_nat (be_val bs) :: 32 word) = be_val bs"
    using assms(4) by (simp add: unat_of_nat take_bit_eq_mod)
  then have u: "uint (word_of_nat (be_val bs) :: 32 word) = int (be_val bs)"
    by (metis of_nat_unat)
  have le: "\<not> 0x7FFFFFFF < (word_of_nat (be_val bs) :: 32 word)"
    unfolding word_less_nat_alt n using assms(4) by simp
  show ?thesis
    using hi lo acc u le assms(2,3,5)
    by (simp add: parseLength_def)
qed

lemma encodeLength_read_back:
  assumes "0 \<le> n" and "n \<le> 0x7FFFFFFF"
  shows "parseLength (pre @ encodeLength n @ rest) (int (length pre))
    = Some (n, int (length pre) + int (length (encodeLength n)))"
proof (cases "n < 0x80")
  case True
  then have u: "uint (word_of_int n :: byte) = n"
    using assms(1) by (simp add: uint_word_of_int take_bit_eq_mod)
  then have "(word_of_int n :: byte) < 0x80"
    using True by (simp add: word_less_def)
  then show ?thesis
    using True u by (simp add: encodeLength_def parseLength_short)
next
  case False
  define bs where "bs = octets_loop n []"
  have "n < 256 ^ 4"
    using assms(2) by simp
  then have "length bs \<le> 4"
    unfolding bs_def by (rule length_octets_le [OF assms(1)])
  moreover have "int (be_val bs) = n"
    unfolding bs_def using assms(1) by (simp add: be_val_octets)
  moreover have "bs \<noteq> []"
    unfolding bs_def using octets_not_Nil [OF assms(1)] False by simp
  ultimately show ?thesis
    using False assms(2)
      parseLength_long [of "0x80 OR word_of_int (int (length bs))" bs "int (length pre)" pre rest]
    by (simp add: encodeLength_def flip: bs_def)
qed

lemma length_acc_safe:
  "0 \<le> pos \<Longrightarrow> pos + int n \<le> int (length data) \<Longrightarrow> safe (length_acc data pos n acc) (\<lambda>_. True)"
proof (induction n arbitrary: pos acc)
  case (Suc n)
  then show ?case
    by (auto intro!: safe_intros)
qed simp

lemma parseLength_safe [safe_intros]:
  assumes "0 \<le> pos"
    and "\<And>n p. -1 \<le> n \<Longrightarrow> n \<le> 0x7FFFFFFF \<Longrightarrow> pos \<le> p \<Longrightarrow> p = pos \<or> p \<le> int (length data)
      \<Longrightarrow> (0 \<le> n \<Longrightarrow> pos < p \<and> p \<le> int (length data)) \<Longrightarrow> P (n, p)"
  shows "safe (parseLength data pos) P"
proof -
  have u: "0 \<le> uint (w :: byte)" "uint w < 256" for w
    using unsigned_less [of w, where ?'a = int] by simp_all
  have acc: "uint (w :: 32 word) \<le> 0x7FFFFFFF" if "\<not> 0x7FFFFFFF < w" for w
    using that by (simp add: word_less_def)
  have acc0: "0 \<le> uint (w :: 32 word)" for w
    by simp
  have neg: "(-1 :: int) \<le> x" if "0 \<le> x" for x
    using that by simp
  have small: "uint w \<le> 0x7FFFFFFF" for w :: byte
    using u [of w] by simp
  show ?thesis
    unfolding parseLength_def Let_def
    apply (intro safe_if safe_bind safe_at safe_Some_intro length_acc_safe [THEN safe_mono] assms(2))
    apply (use assms(1) in \<open>auto simp: acc acc0 neg small add_pos_nonneg\<close>)
    done
qed

section \<open>INTEGER round trip\<close>

text \<open>The value of a two's complement octet string.\<close>

definition twos_val :: "byte list \<Rightarrow> int" where
  "twos_val bs =
     (case bs of [] \<Rightarrow> 0
      | b # r \<Rightarrow> sint b * 256 ^ length r + int (be_val r))"

lemma sint_byte_range: "-128 \<le> sint (b :: byte)" "sint b < 128"
  using sint_greater_eq [of b] sint_less [of b] by simp_all

lemma sint_byte: "sint (b :: byte) = (if b AND 0x80 = 0 then int (unat b) else int (unat b) - 256)"
proof -
  have "b AND 2 ^ 7 = 0 \<longleftrightarrow> \<not> bit b 7"
    by (rule and_exp_eq_0_iff_not_bit)
  then have m: "b AND 0x80 = 0 \<longleftrightarrow> \<not> bit b 7"
    by simp
  have n: "bit b 7 \<longleftrightarrow> sint b < 0"
    using bit_last_iff [of b] by simp
  have "uint b = sint b mod 256"
    using uint_sint [of b] by (simp add: take_bit_eq_mod)
  moreover have "sint b mod 256 = (if sint b < 0 then sint b + 256 else sint b)"
    using sint_byte_range [of b] by presburger
  ultimately show ?thesis
    by (auto simp: m n)
qed

lemma int_acc_append:
  "pos = int (length pre) \<Longrightarrow> n = length bs \<Longrightarrow>
   int_acc (pre @ bs @ rest) pos n acc
     = Some (acc * 256 ^ length bs + word_of_nat (be_val bs))"
proof (induction bs arbitrary: pre pos n acc)
  case Nil
  then show ?case by simp
next
  case (Cons b bs)
  have step: "at (pre @ (b # bs) @ rest) pos = Some b"
    using Cons.prems by simp
  have "int_acc ((pre @ [b]) @ bs @ rest) (pos + 1) (length bs) (acc * 256 + ucast b)
     = Some ((acc * 256 + ucast b) * 256 ^ length bs + word_of_nat (be_val bs))"
    using Cons.prems by (intro Cons.IH) simp_all
  moreover have "(ucast b :: 64 word) = word_of_nat (unat b)"
    by simp
  ultimately show ?case
    using Cons.prems(2) step by (simp add: push_or_64 algebra_simps del: of_nat_unat)
qed

fun minimal :: "byte list \<Rightarrow> bool" where
  "minimal (b # b' # bs) \<longleftrightarrow> \<not> (b = 0 \<and> b' AND 0x80 = 0)"
| "minimal _ \<longleftrightarrow> True"

lemma skip_padding_minimal:
  assumes "minimal bs" and "bs \<noteq> []" and "pos = int (length pre)"
  shows "skip_padding (pre @ bs @ rest) pos (pos + int (length bs)) = Some pos"
proof (cases bs rule: minimal.cases)
  case (1 b b' bs')
  have "at (pre @ bs @ rest) (pos + 1) = Some b'"
    using at_append [of "pos + 1" "pre @ [b]" b' "bs' @ rest"] assms(3) 1 by simp
  then show ?thesis
    using assms 1 by (subst skip_padding.simps) auto
qed (use assms in \<open>auto simp: skip_padding.simps\<close>)

lemma twos_val_range:
  assumes "bs \<noteq> []"
  shows "- (128 * 256 ^ (length bs - 1)) \<le> twos_val bs" and "twos_val bs < 128 * 256 ^ (length bs - 1)"
proof -
  obtain b r where bs: "bs = b # r"
    using assms by (cases bs) auto
  define p :: int where "p = 256 ^ length r"
  have "int (be_val r) < int (256 ^ length r)"
    unfolding of_nat_less_iff by (rule be_val_less)
  then have p: "0 < p" "int (be_val r) < p"
    by (simp_all add: p_def)
  have "sint b * p \<le> 127 * p" "-128 * p \<le> sint b * p"
    by (intro mult_right_mono; use sint_byte_range [of b] p(1) in simp)+
  with p have "- (128 * p) \<le> sint b * p + int (be_val r)" "sint b * p + int (be_val r) < 128 * p"
    by linarith+
  then show "- (128 * 256 ^ (length bs - 1)) \<le> twos_val bs" "twos_val bs < 128 * 256 ^ (length bs - 1)"
    by (simp_all add: bs twos_val_def flip: p_def)
qed

lemma parseBERInt_minimal:
  assumes "minimal bs" and "bs \<noteq> []" and "length bs \<le> 8" and "pos = int (length pre)"
  shows "parseBERInt (pre @ bs @ rest) pos (int (length bs)) = Some (twos_val bs, True)"
proof -
  obtain b r where bs: "bs = b # r"
    using assms(2) by (cases bs) auto
  have acc: "int_acc (pre @ b # r @ rest) (pos + 1) (length r) (scast b)
      = Some (scast b * 256 ^ length r + word_of_nat (be_val r))"
    using int_acc_append [of "pos + 1" "pre @ [b]" "length r" r rest "scast b"] assms(4) by simp
  have "scast b * 256 ^ length r + word_of_nat (be_val r) = (word_of_int (twos_val bs) :: 64 word)"
    by (simp add: bs twos_val_def word_of_int_power_hom)
  moreover have "sint (word_of_int (twos_val bs) :: 64 word) = twos_val bs"
  proof -
    have "(256 :: int) ^ (length bs - 1) \<le> 256 ^ 7"
      by (rule power_increasing) (use assms(3) in auto)
    then have "- (2 ^ 63) \<le> twos_val bs" "twos_val bs < 2 ^ 63"
      using twos_val_range [OF assms(2)] by simp_all
    then show ?thesis
      using signed_take_bit_int_eq_self [of 63 "twos_val bs"] by (simp add: signed_of_int)
  qed
  moreover have "skip_padding (pre @ b # r @ rest) pos (pos + (1 + int (length r))) = Some pos"
    using skip_padding_minimal [OF assms(1,2,4), of rest] by (simp add: bs algebra_simps)
  moreover have "nat (pos + (1 + int (length r)) - (pos + 1)) = length r"
    by simp
  ultimately show ?thesis
    using acc assms(3,4) by (simp add: parseBERInt_def bs)
qed

lemma hi_bit_iff: "(b :: byte) AND 0x80 = 0 \<longleftrightarrow> unat b < 128"
  using sint_byte [of b] sint_byte_range [of b] unat_byte [of b]
  by (auto split: if_splits simp del: of_nat_unat unat_byte)

lemma twos_val_pos:
  "bs \<noteq> [] \<Longrightarrow> twos_val (if hd bs AND 0x80 \<noteq> 0 then 0 # bs else bs) = int (be_val bs)"
  by (cases bs) (auto simp: twos_val_def sint_byte)

lemma twos_val_neg:
  "bs \<noteq> [] \<Longrightarrow>
   twos_val (if hd bs AND 0x80 = 0 then 0xFF # bs else bs) = int (be_val bs) - 256 ^ length bs"
  using sint_byte [of "hd bs"] by (cases bs) (auto simp: twos_val_def algebra_simps)

lemma positive_octets_length:
  assumes "0 < v" and "v < 2 ^ 63"
  shows "length (if hd (octets_loop v []) AND 0x80 \<noteq> 0 then 0 # octets_loop v [] else octets_loop v []) \<le> 8"
proof -
  define bs where "bs = octets_loop v []"
  have len: "length bs \<le> 8"
    unfolding bs_def by (rule length_octets_le) (use assms in simp_all)
  have "length bs \<le> 7" if "hd bs AND 0x80 \<noteq> 0"
  proof (rule ccontr)
    assume "\<not> length bs \<le> 7"
    then have "length bs = 8"
      using len by simp
    then obtain b r where "bs = b # r" and "length r = 7"
      by (cases bs) auto
    moreover have "be_val bs = nat v"
      unfolding bs_def using assms(1) by (simp add: be_val_octets)
    ultimately have "unat b * 72057594037927936 + be_val r = nat v" and "128 \<le> unat b"
      using that by (simp_all add: hi_bit_iff)
    moreover have "v < 9223372036854775808"
      using assms(2) by simp
    ultimately show False
      by linarith
  qed
  then show ?thesis
    using len by (simp flip: bs_def)
qed

lemma unat_ucast_byte: "unat (ucast (w :: 64 word) :: byte) = unat w mod 256"
  by (simp add: unsigned_ucast_eq take_bit_eq_mod flip: unsigned_take_bit_eq)

lemma unat_drop_bit_64: "unat (drop_bit k (w :: 64 word)) = unat w div 2 ^ k"
proof -
  have "take_bit 64 (unat w) = unat w"
    by (rule take_bit_nat_eq_self) (use unsigned_less [of w, where ?'a = nat] in simp)
  then show ?thesis
    unfolding unsigned_drop_bit_eq by (simp add: drop_bit_eq_div)
qed

lemma nat_octets:
  "x div 256 mod 256 * 256 + x mod 256 = (x :: nat) mod 65536"
  "x div 65536 mod 256 * 65536 + x mod 65536 = x mod 16777216"
  "x div 16777216 mod 256 * 16777216 + x mod 16777216 = x mod 4294967296"
  using mod_mult2_eq [of x 256 256] mod_mult2_eq [of x 65536 256] mod_mult2_eq [of x 16777216 256]
  by (simp_all add: mult.commute)

lemma unat_int_word: "int (unat (word_of_int v :: 64 word) mod 2 ^ k) = v mod 2 ^ k" if "k \<le> 64"
proof -
  have "int (unat (word_of_int v :: 64 word)) = v mod 2 ^ 64"
    by (simp add: uint_word_of_int take_bit_eq_mod)
  then have "int (unat (word_of_int v :: 64 word) mod 2 ^ k) = v mod 2 ^ 64 mod 2 ^ k"
    by (simp only: zmod_int of_nat_power of_nat_numeral)
  also have "\<dots> = v mod 2 ^ k"
    by (rule mod_mod_cancel) (rule le_imp_power_dvd [OF that])
  finally show ?thesis .
qed

lemma int_mod_neg: "- m \<le> v \<Longrightarrow> v < 0 \<Longrightarrow> v mod m = v + (m :: int)"
  using mod_add_self2 [of v m] mod_pos_pos_trivial [of "v + m" m] by simp

lemma negative_octets_val:
  assumes "v < 0"
  shows "int (be_val (negative_octets v)) = v mod 256 ^ length (negative_octets v)"
    and "negative_octets v \<noteq> []" and "length (negative_octets v) \<le> 4"
    and "- (2 ^ 32) \<le> v \<Longrightarrow> - (256 ^ length (negative_octets v)) \<le> v"
    and "v < - (2 ^ 32) \<Longrightarrow> length (negative_octets v) = 4"
proof -
  have "be_val (negative_octets v) = unat (word_of_int v :: 64 word) mod 256 ^ length (negative_octets v)"
    by (simp add: negative_octets_def Let_def unat_drop_bit_64 unat_ucast_byte nat_octets)
  moreover have "(256 :: nat) ^ n = 2 ^ (8 * n)" "(256 :: int) ^ n = 2 ^ (8 * n)" for n
    by (simp_all add: power_mult)
  moreover have len: "length (negative_octets v) \<le> 4"
    by (simp add: negative_octets_def Let_def)
  ultimately show "int (be_val (negative_octets v)) = v mod 256 ^ length (negative_octets v)"
    using unat_int_word [of "8 * length (negative_octets v)" v] by simp
qed (use assms in \<open>simp_all add: negative_octets_def Let_def\<close>)

lemma parseBERInt_integer_octets:
  assumes "- (2 ^ 63) \<le> v" and "v < 2 ^ 63"
  shows "parseBERInt (pre @ integer_octets v @ rest) (int (length pre)) (int (length (integer_octets v)))
    = Some (if - (2 ^ 32) \<le> v then v else v mod 2 ^ 32 - 2 ^ 32, True)"
proof -
  define bs where "bs = integer_octets v"
  consider "v = 0" | "0 < v" | "v < 0"
    by linarith
  then have "minimal bs \<and> bs \<noteq> [] \<and> length bs \<le> 8
    \<and> twos_val bs = (if - (2 ^ 32) \<le> v then v else v mod 2 ^ 32 - 2 ^ 32)"
  proof cases
    case 1
    then show ?thesis
      by (simp add: bs_def integer_octets_def twos_val_def)
  next
    case 2
    define os where "os = octets_loop v []"
    have os: "os \<noteq> []" "hd os \<noteq> 0" "be_val os = nat v"
      unfolding os_def using octets_not_Nil octets_hd_nonzero 2 be_val_octets by auto
    have bs: "bs = (if hd os AND 0x80 \<noteq> 0 then 0 # os else os)"
      using 2 os by (simp add: bs_def integer_octets_def flip: os_def)
    have "length bs \<le> 8"
      unfolding bs os_def by (rule positive_octets_length) (use 2 assms(2) in auto)
    moreover have "minimal bs"
      unfolding bs using os by (cases os rule: minimal.cases) auto
    ultimately show ?thesis
      using twos_val_pos [of os] os 2 by (auto simp: bs)
  next
    case 3
    define os where "os = negative_octets v"
    note os = negative_octets_val [OF 3, folded os_def]
    have bs: "bs = (if hd os AND 0x80 = 0 then 0xFF # os else os)"
      using 3 os(2) by (simp add: bs_def integer_octets_def flip: os_def)
    have "minimal bs" "bs \<noteq> []" "length bs \<le> 8"
      unfolding bs using os(2,3) by (cases os rule: minimal.cases; auto)+
    moreover have "twos_val bs = v mod 256 ^ length os - 256 ^ length os"
      unfolding bs using twos_val_neg [OF os(2)] os(1) by simp
    moreover have "v mod 256 ^ length os = v + 256 ^ length os" if "- (256 ^ length os) \<le> v"
      by (rule int_mod_neg) (use that 3 in auto)
    ultimately show ?thesis
      using os(4,5) by auto
  qed
  then show ?thesis
    using parseBERInt_minimal [of bs "int (length pre)" pre rest] by (simp flip: bs_def)
qed

section \<open>The contract of a length encoder\<close>

locale length_code =
  fixes enc :: "int \<Rightarrow> byte list"
  assumes read_back: "0 \<le> n \<Longrightarrow> n \<le> 0x7FFFFFFF \<Longrightarrow>
    parseLength (pre @ enc n @ rest) (int (length pre)) = Some (n, int (length pre) + int (length (enc n)))"
begin

definition tlv :: "byte \<Rightarrow> byte list \<Rightarrow> byte list" where
  "tlv t body = [t] @ enc (int (length body)) @ body"

lemma tlv_length: "length (tlv t body) = 1 + length (enc (int (length body))) + length body"
  by (simp add: tlv_def)

lemma tlv_tag: "i = int (length pre) \<Longrightarrow> at (pre @ tlv t body @ rest) i = Some t"
  by (simp add: tlv_def)

lemma tlv_tag_at: "i = int (length pre) \<Longrightarrow> tag_at (pre @ tlv t body @ rest) i t' = Some (t = t')"
  by (simp add: tlv_def)

lemma tlv_length_read:
  assumes "length body \<le> 0x7FFFFFFF" and "i = int (length pre) + 1"
  shows "parseLength (pre @ tlv t body @ rest) i
    = Some (int (length body), i + int (length (enc (int (length body)))))"
  using read_back [of "int (length body)" "pre @ [t]" "body @ rest"] assms
  by (simp add: tlv_def add.commute)

lemma tlv_body_read:
  assumes "lo = int (length pre) + 1 + int (length (enc (int (length body))))"
    and "hi = lo + int (length body)"
  shows "slice (pre @ tlv t body @ rest) lo hi = Some body"
  using slice_append [of lo "pre @ [t] @ enc (int (length body))" hi body rest] assms
  by (simp add: tlv_def)

lemma tlv_inject:
  assumes "tlv t body @ rest = tlv t' body' @ rest'"
    and "length body \<le> 0x7FFFFFFF" and "length body' \<le> 0x7FFFFFFF"
  shows "t = t' \<and> body = body' \<and> rest = rest'"
proof -
  have "length body = length body'"
    using tlv_length_read [of body 1 "[]" t rest] tlv_length_read [of body' 1 "[]" t' rest'] assms
    by simp
  then show ?thesis
    using assms(1) by (simp add: tlv_def)
qed

end

interpretation ber: length_code encodeLength
  by unfold_locales (rule encodeLength_read_back)

lemma encodeInteger_tlv: "encodeInteger v = ber.tlv ASN1_INTEGER (integer_octets v)"
  by (simp add: encodeInteger_def ber.tlv_def Let_def)

lemma encodeOctetString_tlv: "encodeOctetString s = ber.tlv ASN1_OCTET_STRING (string_bytes s)"
  by (simp add: encodeOctetString_def ber.tlv_def Let_def)

lemma encodeSequence_tlv: "encodeSequence c = ber.tlv ASN1_SEQUENCE c"
  by (simp add: encodeSequence_def ber.tlv_def)

lemma encodeNull_tlv: "encodeNull = ber.tlv ASN1_NULL []"
  by (simp add: encodeNull_def ber.tlv_def encodeLength_def)

lemma strip_zeros_val: "be_val (strip_zeros n bs) = be_val bs"
  by (induction n bs rule: strip_zeros.induct) auto

lemma strip_zeros_not_Nil: "n < length bs \<Longrightarrow> strip_zeros n bs \<noteq> []"
  by (induction n bs rule: strip_zeros.induct) auto

lemma strip_zeros_length: "length (strip_zeros n bs) \<le> length bs"
  by (induction n bs rule: strip_zeros.induct) auto

lemma strip_zeros_minimal:
  "length bs = Suc n \<Longrightarrow> 1 < length (strip_zeros n bs) \<Longrightarrow> hd (strip_zeros n bs) \<noteq> 0"
  by (induction n bs rule: strip_zeros.induct) auto

lemma length_encodeLength:
  assumes "0 \<le> n"
  shows "length (encodeLength n)
    = (if n < 128 then 1 else if n < 256 then 2 else if n < 65536 then 3
       else 1 + length (octets_loop n []))"
proof -
  have snoc: "length (octets_loop n []) = Suc (length (octets_loop (n div 256) []))" if "0 < n" for n
    using that by (simp add: octets_loop_snoc)
  have "length (octets_loop n []) = 1" if "128 \<le> n" "n < 256"
    using that snoc [of n] by simp
  moreover have "length (octets_loop n []) = 2" if "256 \<le> n" "n < 65536"
  proof -
    have "0 < n div 256" "n div 256 div 256 = 0"
      using that by simp_all
    then show ?thesis
      using that snoc [of n] snoc [of "n div 256"] by simp
  qed
  ultimately show ?thesis
    using assms by (auto simp: encodeLength_def Let_def)
qed

lemma length_encodeLength_le: "n \<le> 0x7FFFFFFF \<Longrightarrow> length (encodeLength n) \<le> 5"
proof (cases "n < 0x80")
  case False
  assume "n \<le> 0x7FFFFFFF"
  then have "length (octets_loop n []) \<le> 4"
    using False by (intro length_octets_le) simp_all
  then show ?thesis
    using False by (simp add: encodeLength_def Let_def)
qed (simp add: encodeLength_def)

lemma lenBytesFor_exact: "0 \<le> n \<Longrightarrow> n < 65536 \<Longrightarrow> lenBytesFor n = int (length (encodeLength n))"
  by (simp add: lenBytesFor_def length_encodeLength)

lemma skip_padding_safe:
  assumes "0 \<le> start" and "start < end" and "end \<le> int (length data)"
  shows "safe (skip_padding data start end) (\<lambda>s. start \<le> s \<and> s < end)"
  using assms
proof (induction data start "end" rule: skip_padding.induct)
  case (1 data start "end")
  show ?case
  proof (cases "start < end - 1")
    case True
    have "safe (skip_padding data (start + 1) end) (\<lambda>s. start \<le> s \<and> s < end)"
      if "data ! nat start = 0" and "data ! nat (start + 1) AND 0x80 = 0"
      using 1 True that by (intro safe_mono [OF 1(1)]) (auto simp: at_def)
    then show ?thesis
      using 1(2-) True by (subst skip_padding.simps) (auto intro!: safe_intros)
  next
    case False
    then show ?thesis
      using 1(2-) by (subst skip_padding.simps) simp
  qed
qed

lemma int_acc_safe:
  "0 \<le> pos \<Longrightarrow> pos + int n \<le> int (length data) \<Longrightarrow> safe (int_acc data pos n acc) (\<lambda>_. True)"
proof (induction n arbitrary: pos acc)
  case (Suc n)
  then show ?case
    by (auto intro!: safe_intros)
qed simp

lemma sint_64_range: "- (2 ^ 63) \<le> sint (w :: 64 word)" "sint w < 2 ^ 63"
  using sint_greater_eq [of w] sint_less [of w] by simp_all

lemma parseBERInt_safe [safe_intros]:
  assumes "0 \<le> pos" and "\<And>v ok. - (2 ^ 63) \<le> v \<Longrightarrow> v < 2 ^ 63 \<Longrightarrow> P (v, ok)"
  shows "safe (parseBERInt data pos len) P"
proof -
  have zero: "P (0, False)"
    by (rule assms(2)) simp_all
  have val: "P (sint (w :: 64 word), True)" for w
    by (rule assms(2)) (use sint_64_range in auto)
  have "safe (skip_padding data pos (pos + len)) (\<lambda>s. pos \<le> s \<and> s < pos + len)"
    if "0 < len" "pos + len \<le> int (length data)"
    using that assms(1) by (intro skip_padding_safe) auto
  moreover have "0 \<le> x" if "pos \<le> x" for x
    using that assms(1) by linarith
  ultimately show ?thesis
    unfolding parseBERInt_def Let_def
    by (auto intro!: safe_if safe_bind zero val safe_at int_acc_safe [THEN safe_mono] elim!: safe_mono
        simp: not_le not_less)
qed

lemma integer_octets_length:
  assumes "- (2 ^ 63) \<le> v" and "v < 2 ^ 63"
  shows "length (integer_octets v) \<le> 8"
proof (cases "0 < v")
  case True
  then show ?thesis
    using positive_octets_length [of v] assms(2) octets_not_Nil [of v]
    by (auto simp: integer_octets_def Let_def)
next
  case False
  then show ?thesis
    using negative_octets_val(3) [of v] by (auto simp: integer_octets_def Let_def)
qed

section \<open>Properties\<close>

text \<open>
  C1: every length the encoder writes is read back by the parser, at any place of any datagram, with the
  cursor left on the first octet after it; the parser accepts lengths up to \<^verbatim>\<open>math.MaxInt32\<close>.
\<close>

theorem length_roundtrip:
  assumes "0 \<le> n" and "n \<le> 0x7FFFFFFF"
  shows "parseLength (pre @ encodeLength n @ rest) (int (length pre))
    = Some (n, int (length pre) + int (length (encodeLength n)))"
  by (rule ber.read_back [OF assms])

theorem length_roundtrip_witness:
  "parseLength ([0x30] @ encodeLength 300 @ [0x05, 0x00]) (int (length [0x30 :: byte]))
    = Some (300, int (length [0x30 :: byte]) + int (length (encodeLength 300)))"
  by (rule length_roundtrip) simp_all

text \<open>
  C2: reading the INTEGER the encoder wrote for a 64-bit value gives a value without error, and that
  value is the one encoded exactly when it is at least \<open>-2\<^sup>3\<^sup>2\<close>: below that the encoder keeps the low
  32 bits only.
\<close>

theorem integer_roundtrip:
  assumes "- (2 ^ 63) \<le> v" and "v < 2 ^ 63"
  shows "\<exists>n p w. parseLength (pre @ encodeInteger v @ rest) (int (length pre) + 1) = Some (n, p)
    \<and> parseBERInt (pre @ encodeInteger v @ rest) p n = Some (w, True)
    \<and> (w = v \<longleftrightarrow> - (2 ^ 32) \<le> v)"
proof -
  define bs where "bs = integer_octets v"
  define p where "p = int (length (pre @ [ASN1_INTEGER] @ encodeLength (int (length bs))))"
  have "length bs \<le> 0x7FFFFFFF"
    using integer_octets_length [OF assms] by (simp add: bs_def)
  then have "parseLength (pre @ encodeInteger v @ rest) (int (length pre) + 1) = Some (int (length bs), p)"
    using ber.tlv_length_read [of bs "int (length pre) + 1" pre ASN1_INTEGER rest]
    by (simp add: encodeInteger_tlv p_def flip: bs_def)
  moreover have "parseBERInt (pre @ encodeInteger v @ rest) p (int (length bs))
      = Some (if - (2 ^ 32) \<le> v then v else v mod 2 ^ 32 - 2 ^ 32, True)"
    using parseBERInt_integer_octets [OF assms, of "pre @ [ASN1_INTEGER] @ encodeLength (int (length bs))" rest]
    by (simp add: encodeInteger_def p_def Let_def flip: bs_def)
  moreover have "v mod 2 ^ 32 - 2 ^ 32 \<noteq> v" if "v < - (2 ^ 32)"
  proof -
    have "0 \<le> v mod 2 ^ 32"
      by (rule pos_mod_sign) simp
    then show ?thesis
      using that by linarith
  qed
  ultimately show ?thesis
    by (cases "- (2 ^ 32) \<le> v") auto
qed

theorem integer_roundtrip_witness:
  "\<exists>n p w. parseLength ([] @ encodeInteger (- 8589934592) @ [0x05, 0x00]) (int (length ([] :: byte list)) + 1)
      = Some (n, p)
    \<and> parseBERInt ([] @ encodeInteger (- 8589934592) @ [0x05, 0x00]) p n = Some (w, True)
    \<and> (w = - 8589934592 \<longleftrightarrow> - (2 ^ 32) \<le> (- 8589934592 :: int))"
  by (rule integer_roundtrip) simp_all

text \<open>
  C3: the size the response budget charges for a length field is the size the encoder writes, for every
  content below 65536 octets.
\<close>

theorem length_size_exact:
  assumes "0 \<le> n" and "n < 65536"
  shows "lenBytesFor n = int (length (encodeLength n))"
  by (rule lenBytesFor_exact [OF assms])

theorem length_size_exact_witness: "lenBytesFor 1472 = int (length (encodeLength 1472))"
  by (rule length_size_exact) simp_all

end
