(* ===== verification/Snmp_Oid.thy ===== *)
theory Snmp_Oid
  imports Snmp_Ber "HOL-Library.List_Lexorder"
begin

text \<open>
  Object identifiers: the encoder and decoder of \<^verbatim>\<open>go/nl6/snmp_encoding.go\<close> (\<^verbatim>\<open>encodeOID\<close>,
  \<^verbatim>\<open>encodeOIDComponent\<close>, \<^verbatim>\<open>decodeOID\<close>) and the allocation-free comparison of
  \<^verbatim>\<open>go/nl6/snmp_handlers.go\<close> (\<^verbatim>\<open>compareOIDs\<close>, \<^verbatim>\<open>oidCursor\<close>).

  The lemmas show that the two codecs are inverse to each other on the object identifiers that can be
  represented, that the decoder accepts one byte string per object identifier only, and that
  \<open>compareOIDs\<close> is, on every pair of strings, the comparison of a key in a linear order; on numeric
  object identifiers this is the lexicographic order of the arcs. The locale \<open>oid_order\<close> states that
  contract for the clients that sort and search by it.
\<close>

unbundle bit_operations_syntax

section \<open>Encoding\<close>

abbreviation maxOIDSubIdentifier :: int where "maxOIDSubIdentifier \<equiv> 0xFFFFFFFF"
abbreviation maxOIDBodyBytes :: int where "maxOIDBodyBytes \<equiv> 0xFFFF"

definition legalOIDArcPair :: "int \<Rightarrow> int \<Rightarrow> bool" where
  "legalOIDArcPair first second =
     (if first < 0 \<or> second < 0 \<or> first > 2 then False
      else if first < 2 \<and> second > 39 then False
      else (40 :: 64 word) * word_of_int first + word_of_int second \<le> 0xFFFFFFFF)"

function chunks_loop :: "int \<Rightarrow> byte list \<Rightarrow> byte list" where
  "chunks_loop temp chunks =
     (if 0 < temp then chunks_loop (drop_bit 7 temp) (chunks @ [word_of_int (temp AND 0x7f)])
      else chunks)"
  by pat_completeness auto
termination
  by (relation "measure (\<lambda>(temp, chunks). nat temp)") (auto simp: drop_bit_eq_div)

declare chunks_loop.simps [simp del]

text \<open>\<open>emit_chunks chunks n result\<close> is the loop over \<^verbatim>\<open>i\<close> from \<open>n - 1\<close> down to \<open>0\<close>.\<close>

fun emit_chunks :: "byte list \<Rightarrow> nat \<Rightarrow> byte list \<Rightarrow> byte list" where
  "emit_chunks chunks 0 result = result"
| "emit_chunks chunks (Suc i) result =
     emit_chunks chunks i (result @ [if 0 < i then chunks ! i OR 0x80 else chunks ! i])"

definition encodeOIDComponent :: "int \<Rightarrow> byte list" where
  "encodeOIDComponent value =
     (if value < 0x80 then [word_of_int value]
      else let chunks = chunks_loop value [] in emit_chunks chunks (length chunks) [])"

text \<open>The loop over the components after the second; \<open>None\<close> is the early return of the degenerate
  encoding.\<close>

fun encode_rest :: "string list \<Rightarrow> byte list \<Rightarrow> byte list option" where
  "encode_rest [] encoded = Some encoded"
| "encode_rest (p # parts) encoded =
     (case Atoi p of
        None \<Rightarrow> None
      | Some val \<Rightarrow>
          if val < 0 \<or> val > maxOIDSubIdentifier then None
          else encode_rest parts (encoded @ encodeOIDComponent val))"

definition encodeOID :: "string \<Rightarrow> byte list" where
  "encodeOID oid =
     (case Split (TrimPrefix oid [dot]) of
        p0 # p1 # parts \<Rightarrow>
          (case (Atoi p0, Atoi p1) of
             (Some first, Some second) \<Rightarrow>
               if \<not> legalOIDArcPair first second then [ASN1_OID, 0x00]
               else
                 (case encode_rest parts (encodeOIDComponent (40 * first + second)) of
                    None \<Rightarrow> [ASN1_OID, 0x00]
                  | Some encoded \<Rightarrow>
                      if int (length encoded) > maxOIDBodyBytes then [ASN1_OID, 0x00]
                      else [ASN1_OID] @ encodeLength (int (length encoded)) @ encoded)
           | _ \<Rightarrow> [ASN1_OID, 0x00])
      | _ \<Rightarrow> [ASN1_OID, 0x00])"

definition encodableAsOID :: "string \<Rightarrow> bool" where
  "encodableAsOID v =
     (let enc = encodeOID v
      in \<not> (length enc = 2 \<and> enc ! 0 = ASN1_OID \<and> enc ! 1 = 0x00))"

definition encodeVarBind :: "string \<Rightarrow> byte list \<Rightarrow> byte list" where
  "encodeVarBind oid valueBytes = encodeSequence (encodeOID oid @ valueBytes)"

section \<open>Decoding\<close>

text \<open>The inner loop of \<^verbatim>\<open>decodeOID\<close> over one sub-identifier, from the octets that are left; \<open>None\<close> is
  the return of the empty string, for a value out of range or a truncated sub-identifier.\<close>

fun sub_id :: "64 word \<Rightarrow> byte list \<Rightarrow> (64 word \<times> byte list) option" where
  "sub_id value [] = None"
| "sub_id value (b # bs) =
     (if value > drop_bit 7 0xFFFFFFFF then None
      else
        let value = push_bit 7 value OR ucast (b AND 0x7F)
        in if b AND 0x80 = 0 then Some (value, bs) else sub_id value bs)"

lemma sub_id_length: "sub_id v bs = Some (v', r) \<Longrightarrow> length r < length bs"
  by (induction v bs rule: sub_id.induct) (auto simp: Let_def split: if_splits)

function sub_ids :: "byte list \<Rightarrow> 64 word list option" where
  "sub_ids [] = Some []"
| "sub_ids (b # bs) =
     (if b = 0x80 then None
      else case sub_id 0 (b # bs) of
             None \<Rightarrow> None
           | Some (value, rest) \<Rightarrow> map_option (Cons value) (sub_ids rest))"
  by pat_completeness auto
termination
  by (relation "measure length") (use sub_id_length in fastforce)+

definition decodeOID :: "byte list \<Rightarrow> string" where
  "decodeOID oidBytes =
     (if oidBytes = [] then []
      else case sub_ids oidBytes of
             None \<Rightarrow> []
           | Some subIDs \<Rightarrow>
               let first = hd subIDs div 40;
                   first = (if first > 2 then 2 else first);
                   second = hd subIDs - 40 * first
               in [dot] @ Join ([FormatUint (unat first), FormatUint (unat second)]
                                @ map (\<lambda>v. FormatUint (unat v)) (tl subIDs)))"

section \<open>Comparison\<close>

record oidCursor =
  cur_s :: string
  cur_i :: nat
  cur_done :: bool

definition newOIDCursor :: "string \<Rightarrow> oidCursor" where
  "newOIDCursor oid =
     (let oid = (if 0 < length oid \<and> oid ! 0 = dot then drop 1 oid else oid)
      in \<lparr>cur_s = oid, cur_i = 0, cur_done = (oid = [])\<rparr>)"

text \<open>The scan of one segment: value, numeric flag and the index reached. The accumulator is a 64-bit
  \<^verbatim>\<open>int\<close> and wraps.\<close>

function scan :: "string \<Rightarrow> nat \<Rightarrow> 64 word \<Rightarrow> bool \<Rightarrow> 64 word \<times> bool \<times> nat" where
  "scan str k val numeric =
     (if k < length str \<and> str ! k \<noteq> dot then
        if is_digit (str ! k)
        then scan str (k + 1) (val * 10 + of_nat (digit_val (str ! k))) numeric
        else scan str (k + 1) val False
      else (val, numeric, k))"
  by pat_completeness auto
termination
  by (relation "measure (\<lambda>(str, k, val, numeric). length str - k)") auto

declare scan.simps [simp del]

definition next_seg :: "oidCursor \<Rightarrow> (64 word \<times> bool) \<times> oidCursor" where
  "next_seg c =
     (if cur_done c then ((0, False), c)
      else
        case scan (cur_s c) (cur_i c) 0 True of
          (val, numeric, k) \<Rightarrow>
            let val = (if \<not> numeric \<or> k = cur_i c then 0 else val);
                c = (if k < length (cur_s c) then c\<lparr>cur_i := k + 1\<rparr> else c\<lparr>cur_i := k, cur_done := True\<rparr>)
            in ((val, True), c))"

lemma scan_index: "scan str k v n = (v', n', k') \<Longrightarrow> k \<le> k'"
proof (induction str k v n rule: scan.induct)
  case (1 str k v n)
  show ?case
    using 1(3) 1(1) 1(2) by (subst (asm) scan.simps) (auto split: if_splits)
qed

definition cursor_size :: "oidCursor \<Rightarrow> nat" where
  "cursor_size c = (if cur_done c then 0 else Suc (length (cur_s c) - cur_i c))"

lemma next_seg_size: "next_seg c = ((v, True), c') \<Longrightarrow> cursor_size c' < cursor_size c"
  using scan_index
  by (fastforce simp: next_seg_def cursor_size_def Let_def split: if_splits prod.splits)

function compare_loop :: "oidCursor \<Rightarrow> oidCursor \<Rightarrow> int" where
  "compare_loop c1 c2 =
     (case next_seg c1 of ((v1, ok1), c1') \<Rightarrow>
      case next_seg c2 of ((v2, ok2), c2') \<Rightarrow>
        if \<not> ok1 \<and> \<not> ok2 then 0
        else if v1 \<noteq> v2 then (if sint v1 < sint v2 then -1 else 1)
        else if ok1 \<noteq> ok2 then (if \<not> ok1 then -1 else 1)
        else compare_loop c1' c2')"
  by pat_completeness auto
termination
  by (relation "measure (\<lambda>(c1, c2). cursor_size c1)") (use next_seg_size in \<open>auto simp: eq_commute\<close>)

declare compare_loop.simps [simp del]

definition compareOIDs :: "string \<Rightarrow> string \<Rightarrow> int" where
  "compareOIDs oid1 oid2 = compare_loop (newOIDCursor oid1) (newOIDCursor oid2)"

section \<open>Base-128 groups\<close>

text \<open>The continuation octets that precede the last one.\<close>

fun groups :: "nat \<Rightarrow> byte list" where
  "groups t = (if t = 0 then [] else groups (t div 128) @ [of_nat (t mod 128) OR 0x80])"

declare groups.simps [simp del]

lemma groups_0 [simp]: "groups 0 = []"
  by (simp add: groups.simps)

lemma chunks_loop_append: "chunks_loop t (xs @ ys) = xs @ chunks_loop t ys"
proof (induction t ys rule: chunks_loop.induct)
  case (1 t ys)
  then show ?case
    by (cases "0 < t") (simp_all add: chunks_loop.simps [of t])
qed

lemma chunks_loop_nat:
  "chunks_loop (int t) []
    = (if t = 0 then [] else of_nat (t mod 128) # chunks_loop (int (t div 128)) [])"
proof -
  have "int t AND 127 = int (t mod 128)"
    using take_bit_eq_mask [of 7 "int t"] by (simp add: take_bit_eq_mod mask_eq_exp_minus_1 zmod_int)
  moreover have "drop_bit 7 (int t) = int (t div 128)"
    by (simp add: drop_bit_eq_div zdiv_int)
  ultimately show ?thesis
    using chunks_loop_append [of "int (t div 128)" "[of_nat (t mod 128)]" "[]"]
    by (simp add: chunks_loop.simps [of "int t"] chunks_loop.simps [of 0])
qed

lemma groups_chunks: "groups t = rev (map (\<lambda>c. c OR 0x80) (chunks_loop (int t) []))"
proof (induction t rule: groups.induct)
  case (1 t)
  then show ?case
    by (simp add: groups.simps [of t] chunks_loop_nat [of t])
qed

lemma emit_chunks_append: "emit_chunks cs n (r @ r') = r @ emit_chunks cs n r'"
  by (induction n arbitrary: r') simp_all

lemma emit_chunks_eq:
  "n < length cs \<Longrightarrow>
   emit_chunks cs (Suc n) [] = rev (map (\<lambda>c. c OR 0x80) (take n (tl cs))) @ [hd cs]"
proof (induction n)
  case 0
  then show ?case
    by (cases cs) simp_all
next
  case (Suc n)
  have "emit_chunks cs (Suc (Suc n)) [] = (cs ! Suc n OR 0x80) # emit_chunks cs (Suc n) []"
    using emit_chunks_append [of cs "Suc n" "[cs ! Suc n OR 0x80]" "[]"] by simp
  moreover have "cs ! Suc n = tl cs ! n" "n < length (tl cs)"
    using Suc.prems by (auto simp: nth_tl)
  ultimately show ?case
    using Suc by (simp add: take_Suc_conv_app_nth)
qed

lemma encodeOIDComponent_groups:
  "encodeOIDComponent (int v) = groups (v div 128) @ [of_nat (v mod 128)]"
proof (cases "v < 128")
  case True
  then show ?thesis
    by (simp add: encodeOIDComponent_def)
next
  case False
  define cs where "cs = chunks_loop (int v) []"
  have cs: "cs = of_nat (v mod 128) # chunks_loop (int (v div 128)) []"
    using False chunks_loop_nat [of v] by (simp add: cs_def)
  then have "emit_chunks cs (length cs) []
      = rev (map (\<lambda>c. c OR 0x80) (chunks_loop (int (v div 128)) [])) @ [of_nat (v mod 128)]"
    using emit_chunks_eq [of "length cs - 1" cs] by simp
  then show ?thesis
    using False by (simp add: encodeOIDComponent_def Let_def groups_chunks flip: cs_def)
qed

lemma low7: "(b :: byte) AND 0x7F = take_bit 7 b"
  by (simp only: take_bit_eq_mask) (simp add: mask_eq_exp_minus_1)

lemma push_or_7:
  "push_bit 7 (w :: 64 word) OR ucast (b AND 0x7F :: byte) = w * 128 + ucast (b AND 0x7F)"
proof -
  have "push_bit 7 w + ucast (take_bit 7 b) = push_bit 7 w OR (ucast (take_bit 7 b) :: 64 word)"
    by (rule disjunctive_add) (auto simp: bit_simps)
  then show ?thesis
    unfolding low7 by (simp add: push_bit_eq_mult)
qed

lemma unat_low7: "unat (b AND 0x7F :: byte) = unat b mod 128"
  unfolding low7 unsigned_take_bit_eq by (simp add: take_bit_eq_mod)

lemma or_high: "m < 128 \<Longrightarrow> (of_nat m :: byte) OR 0x80 = of_nat (m + 128)"
proof -
  assume m: "m < 128"
  have "take_bit 7 m = m"
    using m by (simp add: take_bit_nat_eq_self)
  then have "\<not> bit m 7"
    by (metis bit_take_bit_iff less_irrefl)
  then have "\<not> bit (of_nat m :: byte) n \<or> \<not> bit (2 ^ 7 :: byte) n" for n
    unfolding bit_exp_iff by (auto simp: bit_simps)
  then have "(of_nat m :: byte) + 2 ^ 7 = of_nat m OR 2 ^ 7"
    by (intro disjunctive_add) auto
  then show ?thesis
    by simp
qed

lemma unat_of_nat_byte: "m < 256 \<Longrightarrow> unat (of_nat m :: byte) = m"
  by (simp add: unat_of_nat)

lemma of_nat_unat_byte: "of_nat (unat b) = (b :: byte)"
  by simp

lemma sub_id_step:
  assumes "a \<le> 0xFFFFFFFF"
  shows "sub_id (of_nat a) (b # bs) =
    (if 0x1FFFFFF < a then None
     else if unat b < 128 then Some (of_nat (a * 128 + unat b), bs)
     else sub_id (of_nat (a * 128 + unat b mod 128)) bs)"
proof -
  have "unat (of_nat a :: 64 word) = a"
    using assms by (simp add: unat_of_nat)
  moreover have "(drop_bit 7 0xFFFFFFFF :: 64 word) = 0x1FFFFFF"
    by simp
  ultimately have guard: "of_nat a > (drop_bit 7 0xFFFFFFFF :: 64 word) \<longleftrightarrow> 0x1FFFFFF < a"
    by (simp add: word_less_nat_alt)
  have "push_bit 7 (of_nat a) OR ucast (b AND 0x7F) = (of_nat (a * 128 + unat b mod 128) :: 64 word)"
    unfolding push_or_7 unat_low7 [symmetric] by simp
  then show ?thesis
    using guard by (auto simp: Let_def hi_bit_iff)
qed

declare sub_id.simps(2) [simp del]

lemma sub_id_more:
  assumes "a \<le> 0x1FFFFFF" and "m < 128"
  shows "sub_id (of_nat a) (of_nat (m + 128) # bs) = sub_id (of_nat (a * 128 + m)) bs"
proof -
  have "unat (of_nat (m + 128) :: byte) = m + 128"
    using assms(2) by (intro unat_of_nat_byte) simp
  then show ?thesis
    using assms sub_id_step [of a "of_nat (m + 128)" bs] by simp
qed

lemma sub_id_last:
  assumes "a \<le> 0x1FFFFFF" and "m < 128"
  shows "sub_id (of_nat a) (of_nat m # bs) = Some (of_nat (a * 128 + m), bs)"
proof -
  have "unat (of_nat m :: byte) = m"
    using assms(2) by (intro unat_of_nat_byte) simp
  then show ?thesis
    using assms sub_id_step [of a "of_nat m" bs] by simp
qed

lemma sub_id_groups:
  "t \<le> 0x1FFFFFF \<Longrightarrow> sub_id 0 (groups t @ b # bs) = sub_id (of_nat t) (b # bs)"
proof (induction t arbitrary: b bs rule: groups.induct)
  case (1 t)
  show ?case
  proof (cases "t = 0")
    case False
    have "groups t @ b # bs = groups (t div 128) @ (of_nat (t mod 128) OR 0x80) # b # bs"
      using False by (simp add: groups.simps [of t])
    also have "sub_id 0 \<dots> = sub_id (of_nat (t div 128)) ((of_nat (t mod 128) OR 0x80) # b # bs)"
      using False 1(2) by (intro 1(1)) simp_all
    also have "\<dots> = sub_id (of_nat (t div 128 * 128 + t mod 128)) (b # bs)"
      using 1(2) sub_id_more [of "t div 128" "t mod 128" "b # bs"] by (simp add: or_high)
    finally show ?thesis
      by simp
  qed simp
qed

lemma sub_id_component:
  assumes "v \<le> 0xFFFFFFFF"
  shows "sub_id 0 (encodeOIDComponent (int v) @ rest) = Some (of_nat v, rest)"
proof -
  have "v div 128 \<le> 0x1FFFFFF"
    using assms by simp
  then have "sub_id 0 (encodeOIDComponent (int v) @ rest)
      = sub_id (of_nat (v div 128)) (of_nat (v mod 128) # rest)"
    by (simp add: encodeOIDComponent_groups sub_id_groups)
  also have "\<dots> = Some (of_nat (v div 128 * 128 + v mod 128), rest)"
    using \<open>v div 128 \<le> _\<close> by (intro sub_id_last) simp_all
  finally show ?thesis
    by simp
qed

lemma of_nat_byte_eq: "m < 256 \<Longrightarrow> n < 256 \<Longrightarrow> (of_nat m :: byte) = of_nat n \<longleftrightarrow> m = n"
  by (metis unat_of_nat_byte)

lemma groups_hd: "t \<noteq> 0 \<Longrightarrow> groups t \<noteq> [] \<and> hd (groups t) \<noteq> 0x80"
proof (induction t rule: groups.induct)
  case (1 t)
  have "of_nat (m + 128) \<noteq> (0x80 :: byte)" if "0 < m" "m < 128" for m
    using that of_nat_byte_eq [of "m + 128" 128] by simp
  then show ?case
    using 1 by (cases "t div 128 = 0") (auto simp: groups.simps [of t] or_high)
qed

lemma component_hd: "encodeOIDComponent (int v) \<noteq> [] \<and> hd (encodeOIDComponent (int v)) \<noteq> 0x80"
proof (cases "v div 128 = 0")
  case True
  then have "v < 128"
    by simp
  then show ?thesis
    using of_nat_byte_eq [of v 128] by (simp add: encodeOIDComponent_groups)
qed (use groups_hd [of "v div 128"] in \<open>simp add: encodeOIDComponent_groups\<close>)

lemma sub_id_inverse:
  assumes "sub_id (of_nat a) bs = Some (w, rest)" and "a \<le> 0xFFFFFFFF" and "a \<noteq> 0 \<or> hd bs \<noteq> 0x80"
  shows "\<exists>v \<le> 0xFFFFFFFF. w = of_nat v \<and> groups a @ bs = encodeOIDComponent (int v) @ rest"
  using assms
proof (induction bs arbitrary: a)
  case (Cons b bs)
  note step = sub_id_step [OF Cons.prems(2), of b bs]
  have a: "a \<le> 0x1FFFFFF"
    using Cons.prems(1) step by (auto split: if_splits)
  show ?case
  proof (cases "unat b < 128")
    case True
    then have "w = of_nat (a * 128 + unat b)" "rest = bs"
      using Cons.prems(1) step a by (auto split: if_splits)
    moreover have "groups a @ [b] = encodeOIDComponent (int (a * 128 + unat b))"
      unfolding encodeOIDComponent_groups using True by simp
    ultimately show ?thesis
      using a True by (intro exI [of _ "a * 128 + unat b"]) simp
  next
    case False
    define a' where "a' = a * 128 + unat b mod 128"
    have "(unat b - 128) mod 128 = unat b - 128"
      by (rule mod_less) (use unat_byte [of b] in linarith)
    then have b: "unat b mod 128 + 128 = unat b"
      using False by (simp add: le_mod_geq [of 128 "unat b"])
    have "b \<noteq> 0x80 \<longleftrightarrow> unat b \<noteq> 128"
      using of_nat_byte_eq [of "unat b" 128] by simp
    then have "a' \<noteq> 0"
      using Cons.prems(3) b by (auto simp: a'_def)
    then have "groups a' = groups a @ [of_nat (unat b mod 128) OR 0x80]"
      by (subst groups.simps) (simp add: a'_def)
    also have "of_nat (unat b mod 128) OR 0x80 = b"
      using or_high [of "unat b mod 128"] b by simp
    finally have "groups a' = groups a @ [b]" .
    moreover have "sub_id (of_nat a') bs = Some (w, rest)"
      using Cons.prems(1) step a False by (simp add: a'_def)
    moreover have "a' \<le> 0xFFFFFFFF"
      using a by (simp add: a'_def)
    ultimately show ?thesis
      using Cons.IH [of a'] \<open>a' \<noteq> 0\<close> by simp
  qed
qed simp

lemma sub_ids_components:
  "\<forall>v\<in>set vs. v \<le> 0xFFFFFFFF \<Longrightarrow>
   sub_ids (concat (map (\<lambda>v. encodeOIDComponent (int v)) vs)) = Some (map of_nat vs)"
proof (induction vs)
  case (Cons v vs)
  obtain b bs where eq: "encodeOIDComponent (int v) = b # bs" and "b \<noteq> 0x80"
    using component_hd [of v] by (cases "encodeOIDComponent (int v)") auto
  then show ?case
    using Cons sub_id_component [of v "concat (map (\<lambda>v. encodeOIDComponent (int v)) vs)"]
    by simp
qed simp

lemma sub_ids_inverse:
  "sub_ids bs = Some ws \<Longrightarrow>
   \<exists>vs. (\<forall>v\<in>set vs. v \<le> 0xFFFFFFFF) \<and> ws = map of_nat vs
     \<and> bs = concat (map (\<lambda>v. encodeOIDComponent (int v)) vs)"
proof (induction bs arbitrary: ws rule: sub_ids.induct)
  case 1
  then show ?case
    by (intro exI [of _ "[]"]) simp
next
  case (2 b bs)
  then obtain w rest ws' where *: "b \<noteq> 0x80" "sub_id 0 (b # bs) = Some (w, rest)"
    "sub_ids rest = Some ws'" "ws = w # ws'"
    by (auto split: if_splits option.splits)
  obtain v where v: "v \<le> 0xFFFFFFFF" "w = of_nat v" "b # bs = encodeOIDComponent (int v) @ rest"
    using sub_id_inverse [of 0 "b # bs" w rest] * by auto
  obtain vs where "\<forall>v\<in>set vs. v \<le> 0xFFFFFFFF" "ws' = map of_nat vs"
    "rest = concat (map (\<lambda>v. encodeOIDComponent (int v)) vs)"
    using 2(1) * by blast
  then show ?case
    using v * by (intro exI [of _ "v # vs"]) simp
qed

section \<open>Object identifiers as lists of arcs\<close>

definition oid_text :: "nat list \<Rightarrow> string" where
  "oid_text arcs = dot # Join (map FormatUint arcs)"

fun legal_arcs :: "nat list \<Rightarrow> bool" where
  "legal_arcs (a # b # arcs) \<longleftrightarrow>
     a \<le> 2 \<and> (a < 2 \<longrightarrow> b \<le> 39) \<and> 40 * a + b \<le> 0xFFFFFFFF \<and> (\<forall>v\<in>set arcs. v \<le> 0xFFFFFFFF)"
| "legal_arcs _ \<longleftrightarrow> False"

fun oid_body :: "nat list \<Rightarrow> byte list" where
  "oid_body (a # b # arcs) = concat (map (\<lambda>v. encodeOIDComponent (int v)) ((40 * a + b) # arcs))"
| "oid_body _ = []"

definition parse_arc :: "string \<Rightarrow> nat option" where
  "parse_arc p = (case Atoi p of Some v \<Rightarrow> if v < 0 then None else Some (nat v) | None \<Rightarrow> None)"

definition parse_arcs :: "string \<Rightarrow> nat list option" where
  "parse_arcs oid = those (map parse_arc (Split (TrimPrefix oid [dot])))"

lemma those_map: "\<forall>x\<in>set xs. f x = Some (g x) \<Longrightarrow> those (map f xs) = Some (map g xs)"
  by (induction xs) simp_all

lemma parse_arcs_text:
  assumes "arcs \<noteq> []" and "\<forall>v\<in>set arcs. v < 2 ^ 63"
  shows "parse_arcs (oid_text arcs) = Some arcs"
proof -
  have "Split (TrimPrefix (oid_text arcs) [dot]) = map FormatUint arcs"
    using assms(1) Split_Join [of "map FormatUint arcs"] by (simp add: oid_text_def)
  moreover have "parse_arc (FormatUint v) = Some v" if "v \<in> set arcs" for v
    using assms(2) that by (simp add: parse_arc_def Atoi_FormatUint)
  then have "those (map parse_arc (map FormatUint arcs)) = Some arcs"
    using those_map [of arcs "parse_arc \<circ> FormatUint" "\<lambda>v. v"] by simp
  ultimately show ?thesis
    by (simp add: parse_arcs_def)
qed

lemma legal_arcs_bound: "legal_arcs arcs \<Longrightarrow> arcs \<noteq> [] \<and> (\<forall>v\<in>set arcs. v < 2 ^ 63)"
  by (cases arcs rule: legal_arcs.cases) auto

lemma legal_pair:
  assumes "first < 2 ^ 63" and "second < 2 ^ 63"
  shows "legalOIDArcPair (int first) (int second)
    \<longleftrightarrow> first \<le> 2 \<and> (first < 2 \<longrightarrow> second \<le> 39) \<and> 40 * first + second \<le> 0xFFFFFFFF"
proof -
  have "unat ((40 :: 64 word) * of_nat first + of_nat second) = 40 * first + second" if "first \<le> 2"
  proof -
    have "(40 :: 64 word) * of_nat first + of_nat second = of_nat (40 * first + second)"
      by simp
    also have "unat \<dots> = 40 * first + second"
      unfolding unat_of_nat by (rule mod_less) (use that assms(2) in simp)
    finally show ?thesis .
  qed
  then show ?thesis
    by (auto simp: legalOIDArcPair_def word_le_nat_alt)
qed

lemma Atoi_parse_arc:
  "parse_arc p = Some v \<longleftrightarrow> Atoi p = Some (int v)"
  "parse_arc p = None \<longleftrightarrow> (\<forall>v. Atoi p = Some v \<longrightarrow> v < 0)"
  by (auto simp: parse_arc_def split: option.splits if_splits)

lemma parse_arc_bound: "parse_arc p = Some v \<Longrightarrow> v < 2 ^ 63"
  using Atoi_range [of p "int v"] by (simp add: Atoi_parse_arc)

lemma encode_rest_spec:
  "encode_rest parts enc =
     (case those (map parse_arc parts) of
        Some vs \<Rightarrow> if \<forall>v\<in>set vs. v \<le> 0xFFFFFFFF
                   then Some (enc @ concat (map (\<lambda>v. encodeOIDComponent (int v)) vs)) else None
      | None \<Rightarrow> None)"
proof (induction parts arbitrary: enc)
  case (Cons p parts)
  show ?case
    by (cases "Atoi p") (auto simp: Cons parse_arc_def split: option.splits)
qed simp

lemma encodeOID_spec:
  "encodeOID oid =
     (case parse_arcs oid of
        Some arcs \<Rightarrow>
          if legal_arcs arcs \<and> length (oid_body arcs) \<le> 0xFFFF
          then ber.tlv ASN1_OID (oid_body arcs) else [ASN1_OID, 0x00]
      | None \<Rightarrow> [ASN1_OID, 0x00])"
proof -
  consider p where "Split (TrimPrefix oid [dot]) = [p]"
    | p0 p1 parts where "Split (TrimPrefix oid [dot]) = p0 # p1 # parts"
    using Split_not_Nil [of "TrimPrefix oid [dot]"] by (metis list.exhaust)
  then show ?thesis
  proof cases
    case 1
    then show ?thesis
      by (simp add: encodeOID_def parse_arcs_def split: option.splits)
  next
    case 2
    show ?thesis
    proof (cases "parse_arc p0 = None \<or> parse_arc p1 = None")
      case True
      then show ?thesis
        using 2 by (auto simp: encodeOID_def parse_arcs_def Atoi_parse_arc legalOIDArcPair_def
            split: option.splits)
    next
      case False
      then obtain a b where ab: "parse_arc p0 = Some a" "parse_arc p1 = Some b"
        by auto
      have "legalOIDArcPair (int a) (int b)
          \<longleftrightarrow> a \<le> 2 \<and> (a < 2 \<longrightarrow> b \<le> 39) \<and> 40 * a + b \<le> 0xFFFFFFFF"
        using ab by (intro legal_pair) (auto dest: parse_arc_bound)
      then show ?thesis
        using 2 ab by (auto simp: encodeOID_def parse_arcs_def encode_rest_spec ber.tlv_def
            Atoi_parse_arc split: option.splits)
    qed
  qed
qed

lemma unat_of_nat_64: "n < 2 ^ 64 \<Longrightarrow> unat (of_nat n :: 64 word) = n"
  by (simp add: unat_of_nat)

lemma decodeOID_sub_ids:
  assumes "bs \<noteq> []" and "sub_ids bs = Some (map of_nat (v # vs))"
    and "v \<le> 0xFFFFFFFF" and "\<forall>x\<in>set vs. x \<le> 0xFFFFFFFF"
  shows "decodeOID bs = oid_text (min 2 (v div 40) # (v - 40 * min 2 (v div 40)) # vs)"
proof -
  define w :: "64 word" where "w = of_nat v"
  define f where "f = (if w div 40 > 2 then 2 else w div 40)"
  have w: "unat w = v"
    unfolding w_def using assms(3) by (intro unat_of_nat_64) simp
  then have "unat (w div 40) = v div 40"
    by (simp add: unat_div_distrib)
  then have f: "unat f = min 2 (v div 40)"
    by (simp add: f_def word_less_nat_alt)
  then have "f = of_nat (min 2 (v div 40))"
    by (metis of_nat_unat ucast_id)
  then have "w - 40 * f = of_nat (v - 40 * min 2 (v div 40))"
    by (simp add: w_def of_nat_diff min_def)
  then have "unat (w - 40 * f) = v - 40 * min 2 (v div 40)"
    using assms(3) unat_of_nat_64 [of "v - 40 * min 2 (v div 40)"] by (simp only:) simp
  moreover have "map (\<lambda>v. FormatUint (unat v)) (map (of_nat :: _ \<Rightarrow> 64 word) vs) = map FormatUint vs"
    using assms(4) by (auto simp: unat_of_nat_64)
  ultimately show ?thesis
    using assms(1,2) f by (simp add: decodeOID_def Let_def oid_text_def cong: map_cong flip: w_def f_def)
qed

lemma oid_body_not_Nil: "legal_arcs arcs \<Longrightarrow> oid_body arcs \<noteq> []"
proof (cases arcs rule: legal_arcs.cases)
  case (1 a b r)
  then show ?thesis
    using component_hd [of "40 * a + b"] by simp
qed simp_all

lemma split_first:
  assumes "a \<le> 2" and "a < 2 \<longrightarrow> b \<le> (39 :: nat)"
  shows "min 2 ((40 * a + b) div 40) = a"
  using assms by (auto simp: min_def)

lemma decodeOID_body:
  assumes "legal_arcs arcs"
  shows "decodeOID (oid_body arcs) = oid_text arcs"
proof -
  obtain a b r where arcs: "arcs = a # b # r"
    using assms by (cases arcs rule: legal_arcs.cases) auto
  note legal = assms [unfolded arcs legal_arcs.simps]
  have "sub_ids (oid_body arcs) = Some (map of_nat ((40 * a + b) # r))"
    unfolding arcs oid_body.simps by (rule sub_ids_components) (use legal in simp)
  from decodeOID_sub_ids [OF oid_body_not_Nil [OF assms] this] show ?thesis
    using legal split_first [of a b] by (simp add: arcs del: oid_body.simps)
qed

lemma decodeOID_inverse:
  assumes "decodeOID bs \<noteq> []"
  shows "\<exists>arcs. legal_arcs arcs \<and> bs = oid_body arcs \<and> decodeOID bs = oid_text arcs"
proof -
  obtain ws where "bs \<noteq> []" and ws: "sub_ids bs = Some ws"
    using assms by (auto simp: decodeOID_def split: if_splits option.splits)
  obtain vs where vs: "\<forall>v\<in>set vs. v \<le> 0xFFFFFFFF" "ws = map of_nat vs"
    "bs = concat (map (\<lambda>v. encodeOIDComponent (int v)) vs)"
    using sub_ids_inverse [OF ws] by blast
  then obtain v r where r: "vs = v # r"
    using \<open>bs \<noteq> []\<close> by (cases vs) auto
  define a where "a = min 2 (v div 40)"
  have "decodeOID bs = oid_text (a # (v - 40 * a) # r)"
    unfolding a_def using \<open>bs \<noteq> []\<close> ws vs r by (intro decodeOID_sub_ids) auto
  moreover have "40 * a \<le> v" "a \<le> 2" "a < 2 \<longrightarrow> v - 40 * a \<le> 39"
    by (auto simp: a_def min_def)
  ultimately show ?thesis
    using vs r by (intro exI [of _ "a # (v - 40 * a) # r"]) simp
qed

lemma oid_text_not_Nil [simp]: "oid_text arcs \<noteq> []"
  by (simp add: oid_text_def)

lemma oid_text_inject:
  assumes "legal_arcs arcs" and "legal_arcs arcs'" and "oid_text arcs = oid_text arcs'"
  shows "arcs = arcs'"
  using assms parse_arcs_text legal_arcs_bound by (metis option.inject)

lemma encodeOID_text:
  "legal_arcs arcs \<Longrightarrow> length (oid_body arcs) \<le> 0xFFFF \<Longrightarrow>
   encodeOID (oid_text arcs) = ber.tlv ASN1_OID (oid_body arcs)"
  using parse_arcs_text legal_arcs_bound by (simp add: encodeOID_spec)

section \<open>The comparison\<close>

definition seg_val :: "string \<Rightarrow> 64 word" where
  "seg_val p =
     (if p \<noteq> [] \<and> list_all is_digit p
      then foldl (\<lambda>v c. v * 10 + of_nat (digit_val c)) 0 p else 0)"

definition oid_segs :: "string \<Rightarrow> int list" where
  "oid_segs oid =
     (let t = TrimPrefix oid [dot]
      in if t = [] then [] else map (\<lambda>p. sint (seg_val p)) (Split t))"

abbreviation seg_end :: "string \<Rightarrow> string" where
  "seg_end t \<equiv> takeWhile (\<lambda>c. c \<noteq> dot) t"

lemma Split_takeWhile:
  "Split t = seg_end t # (case dropWhile (\<lambda>c. c \<noteq> dot) t of [] \<Rightarrow> [] | _ # r \<Rightarrow> Split r)"
  by (induction t) (auto split: list.splits)

lemma scan_seg:
  "scan str k v n =
     (foldl (\<lambda>v c. if is_digit c then v * 10 + of_nat (digit_val c) else v) v (seg_end (drop k str)),
      n \<and> list_all is_digit (seg_end (drop k str)),
      k + length (seg_end (drop k str)))"
proof (induction str k v n rule: scan.induct)
  case (1 str k v n)
  show ?case
  proof (cases "k < length str \<and> str ! k \<noteq> dot")
    case True
    then have "seg_end (drop k str) = str ! k # seg_end (drop (Suc k) str)"
      by (simp add: Cons_nth_drop_Suc [symmetric])
    then show ?thesis
      using 1 True by (subst scan.simps) auto
  next
    case False
    then have "seg_end (drop k str) = []"
      by (cases "k < length str") (simp_all add: Cons_nth_drop_Suc [symmetric])
    then show ?thesis
      using False by (subst scan.simps) auto
  qed
qed

definition cursor_segs :: "oidCursor \<Rightarrow> 64 word list" where
  "cursor_segs c = (if cur_done c then [] else map seg_val (Split (drop (cur_i c) (cur_s c))))"

lemma foldl_digits:
  "list_all is_digit p \<Longrightarrow>
   foldl (\<lambda>v c. if is_digit c then v * 10 + of_nat (digit_val c) else v) v p
     = foldl (\<lambda>v c. v * 10 + of_nat (digit_val c)) (v :: 64 word) p"
  by (induction p arbitrary: v) simp_all

lemma next_seg_Nil: "cursor_segs c = [] \<Longrightarrow> next_seg c = ((0, False), c)"
  by (simp add: cursor_segs_def next_seg_def split: if_splits)

lemma next_seg_Cons:
  assumes "cursor_segs c = v # vs"
  shows "\<exists>c'. next_seg c = ((v, True), c') \<and> cursor_segs c' = vs"
proof -
  define t where "t = drop (cur_i c) (cur_s c)"
  define k where "k = cur_i c + length (seg_end t)"
  have live: "\<not> cur_done c" and v: "v = seg_val (seg_end t)"
    and vs: "vs = map seg_val (case dropWhile (\<lambda>c. c \<noteq> dot) t of [] \<Rightarrow> [] | _ # r \<Rightarrow> Split r)"
    using assms by (auto simp: cursor_segs_def Split_takeWhile [of t] simp flip: t_def split: if_splits)
  have rest: "drop k (cur_s c) = dropWhile (\<lambda>c. c \<noteq> dot) t"
    by (simp add: k_def t_def dropWhile_eq_drop add.commute)
  have val: "(if \<not> list_all is_digit (seg_end t) \<or> k = cur_i c then 0
     else foldl (\<lambda>v c. if is_digit c then v * 10 + of_nat (digit_val c) else v) 0 (seg_end t)) = v"
    by (auto simp: v seg_val_def k_def foldl_digits)
  show ?thesis
  proof (cases "k < length (cur_s c)")
    case True
    then have "dropWhile (\<lambda>c. c \<noteq> dot) t = cur_s c ! k # drop (Suc k) (cur_s c)"
      unfolding rest [symmetric] by (rule Cons_nth_drop_Suc [symmetric])
    then have "cursor_segs (c\<lparr>cur_i := k + 1\<rparr>) = vs"
      using live vs by (simp add: cursor_segs_def)
    then show ?thesis
      using live True val by (auto simp: next_seg_def scan_seg simp flip: t_def k_def)
  next
    case False
    then have none: "dropWhile (\<lambda>c. c \<noteq> dot) t = []"
      unfolding rest [symmetric] by simp
    have "cursor_segs (c\<lparr>cur_i := k, cur_done := True\<rparr>) = vs"
      unfolding vs none by (simp add: cursor_segs_def)
    then show ?thesis
      using live False val by (auto simp: next_seg_def scan_seg simp flip: t_def k_def)
  qed
qed

text \<open>The key of a segment list: a missing segment compares as zero and sorts before a present
  zero, so it stands at \<open>0\<close> between the odd numbers of the negative and the non-negative values.\<close>

definition seg_key :: "int list \<Rightarrow> int list" where
  "seg_key vs = map (\<lambda>v. 2 * v + 1) vs @ [0]"

definition sign_of :: "'a :: linorder \<Rightarrow> 'a \<Rightarrow> int" where
  "sign_of x y = (if x < y then -1 else if x = y then 0 else 1)"

lemma sign_of_seg_key:
  "sign_of (seg_key []) (seg_key []) = 0"
  "sign_of (seg_key (v # vs)) (seg_key []) = (if v < 0 then -1 else 1)"
  "sign_of (seg_key []) (seg_key (w # ws)) = (if w < 0 then 1 else -1)"
  "sign_of (seg_key (v # vs)) (seg_key (w # ws))
    = (if v < w then -1 else if v = w then sign_of (seg_key vs) (seg_key ws) else 1)"
  by (auto simp: sign_of_def seg_key_def)

lemma compare_loop_key:
  "compare_loop c1 c2
    = sign_of (seg_key (map sint (cursor_segs c1))) (seg_key (map sint (cursor_segs c2)))"
proof (induction c1 c2 rule: compare_loop.induct)
  case (1 c1 c2)
  have inj: "sint v = sint w \<longleftrightarrow> v = w" for v w :: "64 word"
    by (auto intro: signed_word_eqI)
  show ?case
  proof (cases "cursor_segs c1"; cases "cursor_segs c2")
    assume "cursor_segs c1 = []" "cursor_segs c2 = []"
    then show ?thesis
      by (subst compare_loop.simps) (simp add: next_seg_Nil sign_of_seg_key)
  next
    fix w ws assume c: "cursor_segs c1 = []" "cursor_segs c2 = w # ws"
    obtain c2' where "next_seg c2 = ((w, True), c2')"
      using next_seg_Cons [OF c(2)] by blast
    then show ?thesis
      using c by (subst compare_loop.simps) (auto simp: next_seg_Nil sign_of_seg_key signed_eq_0_iff)
  next
    fix v vs assume c: "cursor_segs c1 = v # vs" "cursor_segs c2 = []"
    obtain c1' where "next_seg c1 = ((v, True), c1')"
      using next_seg_Cons [OF c(1)] by blast
    then show ?thesis
      using c by (subst compare_loop.simps) (auto simp: next_seg_Nil sign_of_seg_key signed_eq_0_iff)
  next
    fix v vs w ws assume c: "cursor_segs c1 = v # vs" "cursor_segs c2 = w # ws"
    obtain c1' where c1: "next_seg c1 = ((v, True), c1')" "cursor_segs c1' = vs"
      using next_seg_Cons [OF c(1)] by blast
    obtain c2' where c2: "next_seg c2 = ((w, True), c2')" "cursor_segs c2' = ws"
      using next_seg_Cons [OF c(2)] by blast
    show ?thesis
      using 1 c c1 c2 by (subst compare_loop.simps) (auto simp: sign_of_seg_key inj)
  qed
qed

lemma newOIDCursor_segs: "map sint (cursor_segs (newOIDCursor oid)) = oid_segs oid"
proof (cases oid)
  case (Cons c r)
  then show ?thesis
    by (cases "c = dot") (auto simp: newOIDCursor_def cursor_segs_def oid_segs_def Let_def
        TrimPrefix_no_dot)
qed (simp add: newOIDCursor_def cursor_segs_def oid_segs_def TrimPrefix_no_dot)

definition oid_key :: "string \<Rightarrow> int list" where
  "oid_key oid = seg_key (oid_segs oid)"

lemma compareOIDs_key: "compareOIDs a b = sign_of (oid_key a) (oid_key b)"
  by (simp add: compareOIDs_def compare_loop_key newOIDCursor_segs oid_key_def)

lemma seg_key_inject: "seg_key vs = seg_key ws \<longleftrightarrow> vs = ws"
  by (auto simp: seg_key_def inj_map_eq_map inj_def)

lemma seg_key_less:
  "\<forall>v\<in>set vs. 0 \<le> v \<Longrightarrow> \<forall>w\<in>set ws. 0 \<le> w \<Longrightarrow> seg_key vs < seg_key ws \<longleftrightarrow> vs < ws"
proof (induction vs arbitrary: ws)
  case Nil
  then show ?case
    by (cases ws) (auto simp: seg_key_def)
next
  case (Cons v vs)
  then show ?case
    by (cases ws) (auto simp: seg_key_def)
qed

lemma foldl_digits_val:
  "digits_val a p = Some m \<Longrightarrow>
   foldl (\<lambda>v c. v * 10 + of_nat (digit_val c)) (of_nat a) p = (of_nat m :: 64 word)"
proof (induction p arbitrary: a)
  case (Cons c p)
  then show ?case
    using Cons.IH [of "a * 10 + digit_val c"] by (auto split: if_splits)
qed simp

lemma seg_val_FormatUint:
  assumes "n < 2 ^ 63"
  shows "sint (seg_val (FormatUint n)) = int n"
proof -
  have "seg_val (FormatUint n) = of_nat n"
    using FormatUint_digits [of n] foldl_digits_val [OF digits_val_FormatUint [of n]]
    by (simp add: seg_val_def list_all_iff)
  then show ?thesis
    using assms signed_take_bit_int_eq_self [of 63 "int n"] by (simp add: signed_of_nat)
qed

lemma oid_segs_text:
  assumes "arcs \<noteq> []" and "\<forall>v\<in>set arcs. v < 2 ^ 63"
  shows "oid_segs (oid_text arcs) = map int arcs"
proof -
  have "Split (Join (map FormatUint arcs)) = map FormatUint arcs"
    using assms(1) by (intro Split_Join) auto
  moreover have "Join (map FormatUint arcs) \<noteq> []"
    using assms(1) calculation FormatUint_not_Nil by (metis Split.simps(1) list.map_disc_iff list.sel(1) hd_map)
  ultimately show ?thesis
    using assms(2) by (simp add: oid_segs_def oid_text_def seg_val_FormatUint)
qed

lemma map_int_less: "map int vs < map int ws \<longleftrightarrow> vs < ws"
proof (induction vs arbitrary: ws)
  case Nil
  then show ?case
    by (cases ws) auto
next
  case (Cons v vs)
  then show ?case
    by (cases ws) auto
qed

lemma compareOIDs_text:
  assumes "as \<noteq> []" and "\<forall>v\<in>set as. v < 2 ^ 63" and "bs \<noteq> []" and "\<forall>v\<in>set bs. v < 2 ^ 63"
  shows "compareOIDs (oid_text as) (oid_text bs) = sign_of as bs"
proof -
  have "oid_key (oid_text as) < oid_key (oid_text bs) \<longleftrightarrow> as < bs"
    using assms by (simp add: oid_key_def oid_segs_text seg_key_less map_int_less)
  moreover have "oid_key (oid_text as) = oid_key (oid_text bs) \<longleftrightarrow> as = bs"
    using assms by (simp add: oid_key_def oid_segs_text seg_key_inject inj_map_eq_map)
  ultimately show ?thesis
    by (simp add: compareOIDs_key sign_of_def)
qed

section \<open>The order the clients rely on\<close>

locale oid_order =
  fixes cmp :: "string \<Rightarrow> string \<Rightarrow> int" and key :: "string \<Rightarrow> int list"
  assumes cmp_key: "cmp a b = sign_of (key a) (key b)"
begin

lemma cmp_pos: "0 < cmp a b \<longleftrightarrow> key b < key a"
  by (auto simp: cmp_key sign_of_def)

lemma cmp_neg: "cmp a b < 0 \<longleftrightarrow> key a < key b"
  by (auto simp: cmp_key sign_of_def)

lemma cmp_le: "cmp a b \<le> 0 \<longleftrightarrow> key a \<le> key b"
  by (auto simp: cmp_key sign_of_def)

lemma cmp_ge: "0 \<le> cmp a b \<longleftrightarrow> key b \<le> key a"
  by (auto simp: cmp_key sign_of_def)

lemma cmp_zero: "cmp a b = 0 \<longleftrightarrow> key a = key b"
  by (auto simp: cmp_key sign_of_def)

lemma cmp_swap: "cmp b a = - cmp a b"
  by (auto simp: cmp_key sign_of_def)

definition ascending :: "string list \<Rightarrow> bool" where
  "ascending xs \<longleftrightarrow> sorted_wrt (\<lambda>a b. cmp a b < 0) xs"

lemma ascending_nth: "ascending xs \<Longrightarrow> j < k \<Longrightarrow> k < length xs \<Longrightarrow> key (xs ! j) < key (xs ! k)"
  unfolding ascending_def using sorted_wrt_nth_less by (metis cmp_neg)

text \<open>What a binary search for the first element beyond \<open>cur\<close> finds.\<close>

lemma first_beyond:
  assumes "ascending xs" and "n \<le> length xs"
    and "\<forall>j<n. cmp (xs ! j) cur \<le> 0" and "\<forall>j<length xs. n \<le> j \<longrightarrow> 0 < cmp (xs ! j) cur"
    and "x \<in> set xs" and "0 < cmp x cur"
  shows "n < length xs \<and> cmp (xs ! n) x \<le> 0 \<and> 0 < cmp (xs ! n) cur"
proof -
  obtain k where k: "k < length xs" "xs ! k = x"
    using assms(5) by (auto simp: in_set_conv_nth)
  have "n \<le> k"
    using assms(3,6) k by (metis leI not_less)
  then have "key (xs ! n) \<le> key x"
    using ascending_nth [OF assms(1), of n k] k by (cases "n = k") auto
  then show ?thesis
    using \<open>n \<le> k\<close> k assms(4) by (simp add: cmp_le)
qed

end

interpretation oid: oid_order compareOIDs oid_key
  by unfold_locales (rule compareOIDs_key)

lemma oid_body_small:
  "v < 128 \<Longrightarrow> encodeOIDComponent v = [word_of_int v]"
  by (simp add: encodeOIDComponent_def)

section \<open>Properties\<close>

text \<open>
  C4: an object identifier with representable arcs is encoded as one OBJECT IDENTIFIER TLV, and decoding
  its content gives the same object identifier back.
\<close>

theorem oid_roundtrip:
  assumes "legal_arcs arcs" and "length (oid_body arcs) \<le> 0xFFFF"
  shows "encodeOID (oid_text arcs)
      = [ASN1_OID] @ encodeLength (int (length (oid_body arcs))) @ oid_body arcs
    \<and> decodeOID (oid_body arcs) = oid_text arcs"
  using encodeOID_text [OF assms] decodeOID_body [OF assms(1)] by (simp add: ber.tlv_def)

theorem oid_roundtrip_witness:
  "encodeOID (oid_text [1, 3, 6, 1])
      = [ASN1_OID] @ encodeLength (int (length (oid_body [1, 3, 6, 1]))) @ oid_body [1, 3, 6, 1]
    \<and> decodeOID (oid_body [1, 3, 6, 1]) = oid_text [1, 3, 6, 1]"
  by (rule oid_roundtrip) (simp_all add: oid_body_small)

text \<open>
  C5: the decoder accepts one octet string per object identifier only: whatever it accepts, encoding the
  text it returned gives the accepted octets back, so no padding, truncation or overflow passes.
\<close>

theorem oid_decode_canonical:
  assumes "decodeOID bs \<noteq> []" and "length bs \<le> 0xFFFF"
  shows "encodeOID (decodeOID bs) = [ASN1_OID] @ encodeLength (int (length bs)) @ bs"
proof -
  obtain arcs where "legal_arcs arcs" "bs = oid_body arcs" "decodeOID bs = oid_text arcs"
    using decodeOID_inverse [OF assms(1)] by blast
  then show ?thesis
    using encodeOID_text [of arcs] assms(2) by (simp add: ber.tlv_def)
qed

theorem oid_decode_canonical_witness:
  "encodeOID (decodeOID (oid_body [1, 3, 6, 1]))
    = [ASN1_OID] @ encodeLength (int (length (oid_body [1, 3, 6, 1]))) @ oid_body [1, 3, 6, 1]"
  by (rule oid_decode_canonical) (simp_all add: decodeOID_body oid_body_small del: oid_body.simps,
      simp add: oid_body_small)

text \<open>
  C6: a string the encoder does not answer with the degenerate encoding is encoded as the object
  identifier it spells: every component parses as a decimal number, and decoding the content gives
  exactly those numbers. A string it cannot represent never becomes a different object identifier.
\<close>

theorem oid_encode_faithful:
  assumes "encodableAsOID v"
  shows "\<exists>arcs body. parse_arcs v = Some arcs
    \<and> encodeOID v = [ASN1_OID] @ encodeLength (int (length body)) @ body
    \<and> decodeOID body = oid_text arcs"
proof -
  have "encodeOID v \<noteq> [ASN1_OID, 0x00]"
    using assms by (auto simp: encodableAsOID_def)
  then obtain arcs where "parse_arcs v = Some arcs" "legal_arcs arcs"
    "encodeOID v = ber.tlv ASN1_OID (oid_body arcs)"
    by (auto simp: encodeOID_spec split: option.splits if_splits)
  then show ?thesis
    using decodeOID_body [of arcs] by (auto simp: ber.tlv_def)
qed

theorem oid_encode_faithful_witness:
  "\<exists>arcs body. parse_arcs (oid_text [1, 3, 6, 1]) = Some arcs
    \<and> encodeOID (oid_text [1, 3, 6, 1]) = [ASN1_OID] @ encodeLength (int (length body)) @ body
    \<and> decodeOID body = oid_text arcs"
  by (rule oid_encode_faithful)
    (simp add: encodableAsOID_def encodeOID_text oid_body_small ber.tlv_def encodeLength_def)

text \<open>
  C7: the allocation-free comparison is, on all strings, the comparison of a key in a linear order, so it
  is total, transitive and antisymmetric up to equal segments even where the accumulator wraps; and on
  numeric object identifiers it is the lexicographic order of the arcs.
\<close>

theorem compareOIDs_lexicographic:
  assumes "as \<noteq> []" and "\<forall>v\<in>set as. v < 2 ^ 63" and "bs \<noteq> []" and "\<forall>v\<in>set bs. v < 2 ^ 63"
  shows "compareOIDs (oid_text as) (oid_text bs) = (if as < bs then -1 else if as = bs then 0 else 1)
    \<and> compareOIDs x y = (if oid_key x < oid_key y then -1 else if oid_key x = oid_key y then 0 else 1)"
  using compareOIDs_text [OF assms] by (simp add: compareOIDs_key sign_of_def)

theorem compareOIDs_lexicographic_witness:
  "compareOIDs (oid_text [1, 3, 9]) (oid_text [1, 3, 10])
      = (if [1, 3, 9 :: nat] < [1, 3, 10] then -1 else if [1, 3, 9 :: nat] = [1, 3, 10] then 0 else 1)
    \<and> compareOIDs ''.1.3'' ''1.3.0''
      = (if oid_key ''.1.3'' < oid_key ''1.3.0'' then -1 else if oid_key ''.1.3'' = oid_key ''1.3.0'' then 0 else 1)"
  by (rule compareOIDs_lexicographic) simp_all

end
