(* ===== verification/Snmp_Message.thy ===== *)
theory Snmp_Message
  imports Snmp_Request
begin

text \<open>
  What the readers of Snmp_Request find in a message the encoders of Snmp_Ber and Snmp_Oid have
  written: the round trip between \<^verbatim>\<open>encodeSequence\<close>, \<^verbatim>\<open>encodeInteger\<close>, \<^verbatim>\<open>encodeOctetString\<close>,
  \<^verbatim>\<open>encodeOID\<close> on one side and \<^verbatim>\<open>getPDUType\<close>, \<^verbatim>\<open>parseIncomingRequest\<close>,
  \<^verbatim>\<open>requestVarBindListPos\<close>, \<^verbatim>\<open>parseVarBinds\<close> on the other. The lemmas are stated on an explicit
  layout, a list of headers and contents, and used for requests and for the responses the agent builds.
\<close>

unbundle bit_operations_syntax

section \<open>Octets found at a position\<close>

definition found :: "byte list \<Rightarrow> int \<Rightarrow> byte list \<Rightarrow> bool" where
  "found data pos xs \<longleftrightarrow> (\<exists>pre rest. data = pre @ xs @ rest \<and> pos = int (length pre))"

definition hdr :: "byte \<Rightarrow> int \<Rightarrow> byte list" where
  "hdr t n = t # encodeLength n"

lemma tlv_hdr: "ber.tlv t body = hdr t (int (length body)) @ body"
  by (simp add: ber.tlv_def hdr_def)

lemma found_append: "found data pos (xs @ ys) \<longleftrightarrow> found data pos xs \<and> found data (pos + int (length xs)) ys"
proof
  assume "found data pos (xs @ ys)"
  then obtain pre rest where "data = pre @ xs @ ys @ rest" "pos = int (length pre)"
    by (auto simp: found_def)
  then show "found data pos xs \<and> found data (pos + int (length xs)) ys"
    unfolding found_def
    by (intro conjI exI [of _ pre] exI [of _ "ys @ rest"] exI [of _ "pre @ xs"] exI [of _ rest]) simp_all
next
  assume "found data pos xs \<and> found data (pos + int (length xs)) ys"
  then obtain pre rest pre' rest' where x: "data = pre @ xs @ rest" "pos = int (length pre)"
    and y: "data = pre' @ ys @ rest'" "int (length pre') = pos + int (length xs)"
    unfolding found_def by metis
  have "(pre @ xs) @ rest = pre' @ ys @ rest'" "length (pre @ xs) = length pre'"
    using x y by simp_all
  then have "pre @ xs = pre'" "rest = ys @ rest'"
    by (metis append_eq_append_conv)+
  then show "found data pos (xs @ ys)"
    unfolding found_def using x by (intro exI [of _ pre] exI [of _ rest']) simp
qed

lemma found_all: "found (xs @ rest) 0 xs"
  by (auto simp: found_def intro: exI [of _ "[]"])

lemma found_range: "found data pos xs \<Longrightarrow> 0 \<le> pos \<and> pos + int (length xs) \<le> int (length data)"
  by (auto simp: found_def)

lemma found_slice: "found data pos xs \<Longrightarrow> hi = pos + int (length xs) \<Longrightarrow> slice data pos hi = Some xs"
  by (auto simp: found_def)

lemma skipLength_encodeLength:
  assumes "0 \<le> n" and "n \<le> 0x7FFFFFFF"
  shows "skipLength (encodeLength n @ rest) = Some (int (length (encodeLength n)))"
proof (cases "n < 0x80")
  case True
  then have "(word_of_int n :: byte) < 0x80"
    using assms(1) by (simp add: word_less_def uint_word_of_int take_bit_eq_mod)
  then show ?thesis
    using True by (simp add: encodeLength_def skipLength_def at_def)
next
  case False
  have "length (octets_loop n []) \<le> 4"
    using assms by (intro length_octets_le) simp_all
  moreover have "octets_loop n [] \<noteq> []"
    using False assms octets_not_Nil by simp
  ultimately have "length (octets_loop n []) \<in> {1, 2, 3, 4}"
    by (cases "length (octets_loop n [])") auto
  then have "\<not> (0x80 OR word_of_int (int (length (octets_loop n []))) :: byte) < 0x80"
    and "uint ((0x80 OR word_of_int (int (length (octets_loop n []))) :: byte) AND 0x7F)
      = int (length (octets_loop n []))"
    by auto
  then show ?thesis
    using False by (simp add: encodeLength_def skipLength_def at_def Let_def)
qed

lemma found_hdr:
  assumes "found data pos (hdr t n)"
  shows found_hdr_at: "at data pos = Some t"
    and found_hdr_tag_at: "tag_at data pos t' = Some (t = t')"
    and found_hdr_length: "0 \<le> n \<Longrightarrow> n \<le> 0x7FFFFFFF \<Longrightarrow>
      parseLength data (pos + 1) = Some (n, pos + int (length (hdr t n)))"
    and found_hdr_tlv: "0 \<le> n \<Longrightarrow> n \<le> 0x7FFFFFFF \<Longrightarrow>
      tlv_header data pos t = Some (Some (n, pos + int (length (hdr t n))))"
    and found_hdr_skip: "0 \<le> n \<Longrightarrow> n \<le> 0x7FFFFFFF \<Longrightarrow>
      Option.bind (slice data (pos + 1) (int (length data))) skipLength = Some (int (length (hdr t n)) - 1)"
proof -
  obtain pre rest where data: "data = pre @ (t # encodeLength n) @ rest" and pos: "pos = int (length pre)"
    using assms by (auto simp: found_def hdr_def)
  show at: "at data pos = Some t" and tag: "tag_at data pos t' = Some (t = t')" for t'
    by (simp_all add: data pos)
  assume n: "0 \<le> n" "n \<le> 0x7FFFFFFF"
  show len: "parseLength data (pos + 1) = Some (n, pos + int (length (hdr t n)))"
    using encodeLength_read_back [OF n, of "pre @ [t]" rest] by (simp add: data pos hdr_def add.commute)
  then show "tlv_header data pos t = Some (Some (n, pos + int (length (hdr t n))))"
    using n by (simp add: tlv_header_def tag)
  have "slice data (pos + 1) (int (length data)) = Some (encodeLength n @ rest)"
    by (simp add: slice_def data pos nat_add_distrib)
  moreover have "skipLength (encodeLength n @ rest) = Some (int (length (encodeLength n)))"
    using n by (rule skipLength_encodeLength)
  ultimately show "Option.bind (slice data (pos + 1) (int (length data))) skipLength = Some (int (length (hdr t n)) - 1)"
    by (simp add: hdr_def)
qed

definition body_pos :: "int \<Rightarrow> byte \<Rightarrow> byte list \<Rightarrow> int" where
  "body_pos p t body = p + int (length (hdr t (int (length body))))"

definition end_pos :: "int \<Rightarrow> byte \<Rightarrow> byte list \<Rightarrow> int" where
  "end_pos p t body = p + int (length (ber.tlv t body))"

lemma end_pos_fold [simp]: "body_pos p t body + int (length body) = end_pos p t body"
  by (simp add: body_pos_def end_pos_def tlv_hdr)

lemma end_pos_fold_string [simp]:
  "body_pos p t (string_bytes s) + int (length s) = end_pos p t (string_bytes s)"
  using end_pos_fold [of p t "string_bytes s"] by simp

lemma found_tlv_append:
  "found data p (ber.tlv t body @ rest) \<longleftrightarrow> found data p (ber.tlv t body) \<and> found data (end_pos p t body) rest"
  by (simp add: found_append end_pos_def)

lemma found_tlv:
  assumes "found data p (ber.tlv t body)" and "length body \<le> 0x7FFFFFFF"
  shows "at data p = Some t" and "tag_at data p t' = Some (t = t')"
    and "p < int (length data)" and "0 \<le> p" and "0 \<le> body_pos p t body"
    and "parseLength data (p + 1) = Some (int (length body), body_pos p t body)"
    and "tlv_header data p t = Some (Some (int (length body), body_pos p t body))"
    and "found data (body_pos p t body) body"
    and "slice data (body_pos p t body) (end_pos p t body) = Some body"
    and "end_pos p t body \<le> int (length data)"
    and "Option.bind (slice data (p + 1) (int (length data))) skipLength = Some (body_pos p t body - (p + 1))"
proof -
  have h: "found data p (hdr t (int (length body)))" and b: "found data (body_pos p t body) body"
    using assms(1) by (simp_all add: tlv_hdr found_append body_pos_def)
  show "at data p = Some t" "tag_at data p t' = Some (t = t')"
    "p < int (length data)" "0 \<le> p" "0 \<le> body_pos p t body"
    "parseLength data (p + 1) = Some (int (length body), body_pos p t body)"
    "tlv_header data p t = Some (Some (int (length body), body_pos p t body))"
    "end_pos p t body \<le> int (length data)"
    "Option.bind (slice data (p + 1) (int (length data))) skipLength = Some (body_pos p t body - (p + 1))"
    using found_hdr [OF h] found_range [OF h] found_range [OF b] assms(2)
    by (simp_all add: body_pos_def hdr_def end_pos_def tlv_hdr)
  show "found data (body_pos p t body) body" "slice data (body_pos p t body) (end_pos p t body) = Some body"
    using b by (simp_all add: found_slice)
qed

section \<open>The layout of a message\<close>

text \<open>The arguments are content octets; \<open>list\<close> is the variable-bindings list with its header.\<close>

definition pdu_body :: "byte list \<Rightarrow> byte list \<Rightarrow> byte list \<Rightarrow> byte list \<Rightarrow> byte list" where
  "pdu_body rid f1 f2 list =
     ber.tlv ASN1_INTEGER rid @ ber.tlv ASN1_INTEGER f1 @ ber.tlv ASN1_INTEGER f2 @ list"

definition snmp_message ::
  "byte list \<Rightarrow> byte list \<Rightarrow> byte \<Rightarrow> byte list \<Rightarrow> byte list" where
  "snmp_message ver comm tag pdu =
     ber.tlv ASN1_SEQUENCE (ber.tlv ASN1_INTEGER ver @ ber.tlv ASN1_OCTET_STRING comm @ ber.tlv tag pdu)"

lemma tlv_length_less: "length body < length (ber.tlv t body)"
  by (simp add: ber.tlv_length)

lemma found_integer:
  assumes "found data q (integer_octets v)" and "- (2 ^ 32) \<le> v" and "v < 2 ^ 63"
  shows "parseBERInt data q (int (length (integer_octets v))) = Some (v, True)"
  using assms parseBERInt_integer_octets [of v] by (auto simp: found_def)

lemma integer_octets_not_Nil: "integer_octets v \<noteq> []"
  using octets_not_Nil [of v] negative_octets_val(2) [of v]
  by (auto simp: integer_octets_def Let_def)

lemma found_length: "found data pos xs \<Longrightarrow> length xs \<le> length data"
  by (auto simp: found_def)

lemma encodeLength_not_Nil: "encodeLength n \<noteq> []"
  by (simp add: encodeLength_def Let_def)

lemma snmp_message_length:
  "10 \<le> length (snmp_message (integer_octets v) comm tag (pdu_body (integer_octets r) f1 f2 list))"
proof -
  have ge: "length body + 2 \<le> length (ber.tlv t body)" for t body
    using encodeLength_not_Nil [of "int (length body)"] by (cases "encodeLength (int (length body))")
      (simp_all add: ber.tlv_def)
  let ?pdu = "pdu_body (integer_octets r) f1 f2 list"
  let ?in = "ber.tlv ASN1_INTEGER (integer_octets v) @ ber.tlv ASN1_OCTET_STRING comm @ ber.tlv tag ?pdu"
  have "6 \<le> length ?pdu"
    using ge [of "integer_octets r" ASN1_INTEGER] ge [of f1 ASN1_INTEGER] ge [of f2 ASN1_INTEGER]
    by (simp add: pdu_body_def)
  then show ?thesis
    using ge [of ?in ASN1_SEQUENCE] ge [of "integer_octets v" ASN1_INTEGER] ge [of comm ASN1_OCTET_STRING]
      ge [of ?pdu tag] by (simp add: snmp_message_def)
qed

text \<open>One block of facts about the places of a message, used for each reader.\<close>

lemma message_read:
  fixes ver rid :: int and comm :: string and tag :: byte and f1 f2 list :: "byte list"
  defines "msg \<equiv> snmp_message (integer_octets ver) (string_bytes comm) tag
      (pdu_body (integer_octets rid) f1 f2 list)"
  assumes found: "found data 0 msg" and total: "length msg \<le> 0x7FFFFFFF"
    and ver: "- (2 ^ 32) \<le> ver" "ver < 2 ^ 63" and rid: "- (2 ^ 32) \<le> rid" "rid < 2 ^ 63"
  shows "requestVarBindListPos data =
      Some (int (length msg) - int (length list), int (length msg), True)" (is ?pos)
    and "found data (int (length msg) - int (length list)) list" (is ?list)
    and "getPDUType data = Some tag" (is ?type)
    and "servedPDUTag tag \<Longrightarrow> parseIncomingRequest data = request_first_oid data
       \<lparr>Community = comm, RequestID = rid, OID = OID default_request, Version = ver, CommunityParsed = True\<rparr>
       (int (length msg) - int (length list))" (is "_ \<Longrightarrow> ?req")
proof -
  let ?ver = "integer_octets ver" and ?comm = "string_bytes comm" and ?rid = "integer_octets rid"
  let ?pdu = "pdu_body ?rid f1 f2 list"
  let ?in = "ber.tlv ASN1_INTEGER ?ver @ ber.tlv ASN1_OCTET_STRING ?comm @ ber.tlv tag ?pdu"
  have len: "length ?in \<le> 0x7FFFFFFF"
    using total tlv_length_less [of ?in ASN1_SEQUENCE] by (simp add: msg_def snmp_message_def)
  have pdu: "length ?pdu \<le> 0x7FFFFFFF" and lens: "length ?ver \<le> 0x7FFFFFFF" "length ?comm \<le> 0x7FFFFFFF"
    using len tlv_length_less [of ?pdu tag] tlv_length_less [of ?ver ASN1_INTEGER]
      tlv_length_less [of ?comm ASN1_OCTET_STRING] by simp_all
  have flens: "length ?rid \<le> 0x7FFFFFFF" "length f1 \<le> 0x7FFFFFFF" "length f2 \<le> 0x7FFFFFFF"
    using pdu tlv_length_less [of ?rid ASN1_INTEGER] tlv_length_less [of f1 ASN1_INTEGER]
      tlv_length_less [of f2 ASN1_INTEGER] by (simp_all add: pdu_body_def)
  note A = found_tlv [OF found [unfolded msg_def snmp_message_def] len]
  note seq = A(8) [unfolded found_tlv_append]
  note V = found_tlv [OF seq [THEN conjunct1] lens(1)]
  note C = found_tlv [OF seq [THEN conjunct2, THEN conjunct1] lens(2)]
  note T = found_tlv [OF seq [THEN conjunct2, THEN conjunct2] pdu]
  note fields = T(8) [unfolded pdu_body_def found_tlv_append, folded pdu_body_def]
  note R = found_tlv [OF fields [THEN conjunct1] flens(1)]
  note F = found_tlv [OF fields [THEN conjunct2, THEN conjunct1] flens(2)]
  note G = found_tlv [OF fields [THEN conjunct2, THEN conjunct2, THEN conjunct1] flens(3)]
  note L = fields [THEN conjunct2, THEN conjunct2, THEN conjunct2]
  let ?pT = "end_pos (end_pos (body_pos 0 ASN1_SEQUENCE ?in) ASN1_INTEGER ?ver) ASN1_OCTET_STRING ?comm"
  have e1: "end_pos ?pT tag ?pdu = int (length msg)"
    by (simp add: msg_def snmp_message_def end_pos_def body_pos_def tlv_hdr)
  have e2: "end_pos (end_pos (end_pos (body_pos ?pT tag ?pdu) ASN1_INTEGER ?rid) ASN1_INTEGER f1) ASN1_INTEGER f2
      = int (length msg) - int (length list)"
    by (simp add: msg_def snmp_message_def end_pos_def body_pos_def tlv_hdr pdu_body_def)
  show ?pos
    unfolding requestVarBindListPos_def Let_def
    using T(3) by (simp add: A(7) V(7) C(7) T(6) R(7) F(7) G(7) e1 e2 leD)
  show ?list
    using L by (simp add: e2)
  have data: "\<not> length data < 10"
    using found_length [OF found] snmp_message_length [of ver ?comm tag rid f1 f2 list] by (simp add: msg_def)
  have version: "request_version data req (body_pos 0 ASN1_SEQUENCE ?in)
      = Some (req\<lparr>Version := ver\<rparr>, end_pos (body_pos 0 ASN1_SEQUENCE ?in) ASN1_INTEGER ?ver)" for req
    using integer_octets_not_Nil [of ver]
    by (simp add: request_version_def V(2,6) found_integer [OF V(8) ver])
  have community: "request_community data req (end_pos (body_pos 0 ASN1_SEQUENCE ?in) ASN1_INTEGER ?ver)
      = Some (req\<lparr>Community := comm, CommunityParsed := True\<rparr>, ?pT)" for req
    using C(10) by (simp add: request_community_def C(2,6,9) Let_def)
  show ?type
    unfolding getPDUType_envelope
    using data T(3) A(1,6) by (simp add: version community T(1))
  assume served: "servedPDUTag tag"
  have rid': "request_id data req (body_pos ?pT tag ?pdu)
      = Some (req\<lparr>RequestID := rid\<rparr>, end_pos (body_pos ?pT tag ?pdu) ASN1_INTEGER ?rid)" for req
    using integer_octets_not_Nil [of rid]
    by (simp add: request_id_def R(2,6) found_integer [OF R(8) rid])
  show ?req
    unfolding parseIncomingRequest_def Let_def
    using data T(3) A(1,6)
    by (simp add: version community request_pdu_def T(1,6) served rid' skip_field_def F(2,6) G(2,6) e2
        default_request_def)
qed

section \<open>The variable bindings\<close>

definition bind_bytes :: "byte list \<times> byte \<times> byte list \<Rightarrow> byte list" where
  "bind_bytes b = (case b of (oid, t, content) \<Rightarrow>
     ber.tlv ASN1_SEQUENCE (ber.tlv ASN1_OID oid @ ber.tlv t content))"

definition bind_read :: "byte list \<times> byte \<times> byte list \<Rightarrow> snmpVarBind" where
  "bind_read b = (case b of (oid, t, content) \<Rightarrow>
     \<lparr>vb_name = decodeOID oid, vb_tag = t, vb_content = content\<rparr>)"

lemma parse_bind_steps:
  assumes "at data p = Some ASN1_SEQUENCE" and "parseLength data (p + 1) = Some (n, q)"
    and "0 < n" and "n \<le> end - q"
    and "at data q = Some ASN1_OID" and "parseLength data (q + 1) = Some (m, r)" and "0 \<le> m"
    and "slice data r (r + m) = Some oid" and "decodeOID oid \<noteq> []" and "r + m < q + n"
    and "at data (r + m) = Some t" and "parseLength data (r + m + 1) = Some (k, u)" and "0 \<le> k"
    and "u + k = q + n" and "slice data u (q + n) = Some c"
  shows "parse_bind data p end
    = Some (Some (\<lparr>vb_name = decodeOID oid, vb_tag = t, vb_content = c\<rparr>, q + n))"
  unfolding parse_bind_def Let_def using assms by simp

lemma parse_bind_read:
  assumes "found data p (bind_bytes b)" and "length (bind_bytes b) \<le> 0x7FFFFFFF"
    and "p + int (length (bind_bytes b)) \<le> end" and "decodeOID (fst b) \<noteq> []"
  shows "parse_bind data p end = Some (Some (bind_read b, p + int (length (bind_bytes b))))"
proof -
  obtain oid t content where b: "b = (oid, t, content)"
    by (cases b)
  let ?in = "ber.tlv ASN1_OID oid @ ber.tlv t content"
  have len: "length ?in \<le> 0x7FFFFFFF"
    using assms(2) tlv_length_less [of ?in ASN1_SEQUENCE] by (simp add: b bind_bytes_def)
  have lens: "length oid \<le> 0x7FFFFFFF" "length content \<le> 0x7FFFFFFF"
    using len tlv_length_less [of oid ASN1_OID] tlv_length_less [of content t] by simp_all
  note A = found_tlv [OF assms(1) [unfolded b bind_bytes_def prod.case] len]
  note seq = A(8) [unfolded found_tlv_append]
  note N = found_tlv [OF seq [THEN conjunct1] lens(1)]
  note C = found_tlv [OF seq [THEN conjunct2] lens(2)]
  let ?q = "body_pos p ASN1_SEQUENCE ?in"
  have nxt: "?q + int (length ?in) = p + int (length (bind_bytes b))"
    using end_pos_fold [of p ASN1_SEQUENCE ?in] unfolding b bind_bytes_def end_pos_def prod.case .
  have e: "end_pos (end_pos ?q ASN1_OID oid) t content = ?q + int (length ?in)"
    by (simp add: end_pos_def)
  have pos: "?q < ?q + int (length ?in)" "end_pos ?q ASN1_OID oid < ?q + int (length ?in)"
    "int (length oid) \<le> ?q + int (length ?in) - body_pos ?q ASN1_OID oid"
    "body_pos (end_pos ?q ASN1_OID oid) t content + int (length content) = ?q + int (length ?in)"
    using tlv_length_less [of oid ASN1_OID] tlv_length_less [of content t] e
      end_pos_fold [of ?q ASN1_OID oid] end_pos_fold [of "end_pos ?q ASN1_OID oid" t content]
      end_pos_def [of ?q ASN1_OID oid]
    unfolding length_append of_nat_add by linarith+
  have "int (length ?in) \<le> end - ?q"
    using assms(3) nxt by linarith
  moreover have "parse_bind data p end
      = Some (Some (\<lparr>vb_name = decodeOID oid, vb_tag = t, vb_content = content\<rparr>, ?q + int (length ?in)))"
    if "int (length ?in) \<le> end - ?q"
    by (rule parse_bind_steps [OF A(1,6) _ that N(1,6) _ _ _ _ _ _ _ pos(4)])
      (use pos N(9) C(1,6,9) assms(4) in \<open>simp_all add: b flip: e\<close>)
  ultimately show ?thesis
    using nxt by (simp add: b bind_read_def)
qed

lemma binds_loop_read:
  assumes "found data p (concat (map bind_bytes bs))" and "length (concat (map bind_bytes bs)) \<le> 0x7FFFFFFF"
    and "\<forall>b\<in>set bs. decodeOID (fst b) \<noteq> []"
  shows "binds_loop data p (p + int (length (concat (map bind_bytes bs)))) acc
    = Some (Some (acc @ map bind_read bs))"
  using assms
proof (induction bs arbitrary: p acc)
  case Nil
  then show ?case
    by (subst binds_loop.simps) simp
next
  case (Cons b bs)
  let ?n = "int (length (bind_bytes b))"
  let ?fin = "p + int (length (concat (map bind_bytes (b # bs))))"
  have f: "found data p (bind_bytes b)" "found data (p + ?n) (concat (map bind_bytes bs))"
    using Cons.prems(1) by (simp_all add: found_append)
  have "parse_bind data p ?fin = Some (Some (bind_read b, p + ?n))"
    using Cons.prems by (intro parse_bind_read [OF f(1)]) simp_all
  moreover have "binds_loop data (p + ?n) (p + ?n + int (length (concat (map bind_bytes bs)))) (acc @ [bind_read b])
      = Some (Some ((acc @ [bind_read b]) @ map bind_read bs))"
    using Cons.prems by (intro Cons.IH f(2)) simp_all
  moreover have "p < ?fin"
    by (simp add: bind_bytes_def ber.tlv_length split: prod.splits)
  moreover have "p + ?n + int (length (concat (map bind_bytes bs))) = ?fin"
    by simp
  ultimately show ?case
    by (subst binds_loop.simps) simp
qed

lemma parseVarBinds_read:
  assumes "found data p (ber.tlv ASN1_SEQUENCE (concat (map bind_bytes bs)))"
    and "length (concat (map bind_bytes bs)) \<le> 0x7FFFFFFF"
    and "\<forall>b\<in>set bs. decodeOID (fst b) \<noteq> []"
  shows "parseVarBinds data p = Some (Some (map bind_read bs), concat (map bind_bytes bs), True)"
proof -
  note A = found_tlv [OF assms(1,2)]
  have loop: "binds_loop data (body_pos p ASN1_SEQUENCE (concat (map bind_bytes bs)))
      (end_pos p ASN1_SEQUENCE (concat (map bind_bytes bs))) [] = Some (Some (map bind_read bs))"
    using binds_loop_read [OF A(8) assms(2,3), of "[]"] by simp
  have "\<not> int (length data) - body_pos p ASN1_SEQUENCE (concat (map bind_bytes bs))
      < int (length (concat (map bind_bytes bs)))"
    using A(10) end_pos_fold [of p ASN1_SEQUENCE "concat (map bind_bytes bs)"] by linarith
  then show ?thesis
    unfolding parseVarBinds_def Let_def using A(2,6,9) loop by (simp del: length_concat)
qed

lemma request_first_oid_read:
  assumes "found data p (ber.tlv ASN1_SEQUENCE (concat (map bind_bytes (b # bs))))"
    and "length (concat (map bind_bytes (b # bs))) \<le> 0x7FFFFFFF" and "decodeOID (fst b) \<noteq> []"
  shows "request_first_oid data req p = Some (req\<lparr>OID := decodeOID (fst b)\<rparr>)"
proof -
  obtain oid t content where b: "b = (oid, t, content)"
    by (cases b)
  let ?all = "concat (map bind_bytes (b # bs))" and ?in = "ber.tlv ASN1_OID oid @ ber.tlv t content"
  have lens: "length ?in \<le> 0x7FFFFFFF" "length oid \<le> 0x7FFFFFFF"
    using assms(2) tlv_length_less [of ?in ASN1_SEQUENCE] tlv_length_less [of oid ASN1_OID]
    by (simp_all add: b bind_bytes_def)
  note A = found_tlv [OF assms(1,2)]
  let ?q = "body_pos p ASN1_SEQUENCE ?all"
  have "found data ?q (ber.tlv ASN1_SEQUENCE ?in)"
    using A(8) by (simp add: b bind_bytes_def found_append)
  note B = found_tlv [OF this lens(1)]
  note N = found_tlv [OF B(8) [unfolded found_tlv_append, THEN conjunct1] lens(2)]
  obtain ta where ta: "slice data (p + 1) (int (length data)) = Some ta"
    "skipLength ta = Some (?q - (p + 1))"
    using A(11) by (auto simp: bind_eq_Some_conv)
  obtain tb where tb: "slice data (?q + 1) (int (length data)) = Some tb"
    "skipLength tb = Some (body_pos ?q ASN1_SEQUENCE ?in - (?q + 1))"
    using B(11) by (auto simp: bind_eq_Some_conv)
  have "oid \<noteq> []"
    using assms(3) by (auto simp: b decodeOID_def)
  then show ?thesis
    unfolding request_first_oid_def Let_def
    using A(2) B(2) N(2,6,9,10) assms(3) ta tb
    by (simp add: b)
qed

section \<open>A whole request\<close>

text \<open>A message built with the encoders, as a manager writes it.\<close>

definition request_binds :: "(nat list \<times> byte \<times> byte list) list \<Rightarrow> byte list" where
  "request_binds bs = concat (map (\<lambda>(arcs, t, c).
     encodeVarBind (oid_text arcs) ([t] @ encodeLength (int (length c)) @ c)) bs)"

definition request_message ::
  "int \<Rightarrow> string \<Rightarrow> byte \<Rightarrow> int \<Rightarrow> int \<Rightarrow> int \<Rightarrow> byte list \<Rightarrow> byte list" where
  "request_message ver comm tag rid f1 f2 binds =
     (let pdu = encodeInteger rid @ encodeInteger f1 @ encodeInteger f2 @ encodeSequence binds
      in encodeSequence (encodeInteger ver @ encodeOctetString comm
           @ [tag] @ encodeLength (int (length pdu)) @ pdu))"

lemma request_message_layout:
  "request_message ver comm tag rid f1 f2 binds
    = snmp_message (integer_octets ver) (string_bytes comm) tag
        (pdu_body (integer_octets rid) (integer_octets f1) (integer_octets f2) (ber.tlv ASN1_SEQUENCE binds))"
  by (simp add: request_message_def snmp_message_def pdu_body_def encodeInteger_tlv encodeOctetString_tlv
      encodeSequence_tlv ber.tlv_def [of tag] Let_def)

lemma request_binds_layout:
  assumes "\<forall>(arcs, t, c)\<in>set bs. legal_arcs arcs \<and> length (oid_body arcs) \<le> 0xFFFF"
  shows "request_binds bs = concat (map bind_bytes (map (\<lambda>(arcs, t, c). (oid_body arcs, t, c)) bs))"
proof -
  have "encodeVarBind (oid_text arcs) ([t] @ encodeLength (int (length c)) @ c) = bind_bytes (oid_body arcs, t, c)"
    if "(arcs, t, c) \<in> set bs" for arcs t c
    using assms that by (fastforce simp: encodeVarBind_def encodeSequence_tlv encodeOID_text bind_bytes_def ber.tlv_def [of t])
  then have "map (\<lambda>(arcs, t, c). encodeVarBind (oid_text arcs) ([t] @ encodeLength (int (length c)) @ c)) bs
      = map (bind_bytes \<circ> (\<lambda>(arcs, t, c). (oid_body arcs, t, c))) bs"
    by (intro map_cong) auto
  then show ?thesis
    by (simp only: request_binds_def map_map)
qed

lemma request_list_length:
  "length binds \<le> length (request_message ver comm tag rid f1 f2 binds)"
  by (simp add: request_message_layout snmp_message_def pdu_body_def ber.tlv_length)

lemma read_names:
  assumes "\<forall>(arcs, t, c)\<in>set bs. legal_arcs arcs \<and> length (oid_body arcs) \<le> 0xFFFF"
  shows "map vb_name (map bind_read (map (\<lambda>(arcs, t, c). (oid_body arcs, t, c)) bs)) = map (oid_text \<circ> fst) bs"
    and "\<forall>b\<in>set (map (\<lambda>(arcs, t, c). (oid_body arcs, t, c)) bs). decodeOID (fst b) \<noteq> []"
  using assms by (auto simp: bind_read_def decodeOID_body)

lemma request_first_oid_list:
  assumes "found data p (ber.tlv ASN1_SEQUENCE (concat (map bind_bytes bs)))"
    and "length (concat (map bind_bytes bs)) \<le> 0x7FFFFFFF" and "bs = b # bs'" and "decodeOID (fst b) \<noteq> []"
  shows "request_first_oid data req p = Some (req\<lparr>OID := decodeOID (fst b)\<rparr>)"
  using request_first_oid_read [OF assms(1,2) [unfolded assms(3)] assms(4)] .

lemma request_read:
  assumes "- (2 ^ 32) \<le> ver" "ver < 2 ^ 63" "- (2 ^ 32) \<le> rid" "rid < 2 ^ 63" and "servedPDUTag tag"
    and "\<forall>(arcs, t, c)\<in>set (b # bs). legal_arcs arcs \<and> length (oid_body arcs) \<le> 0xFFFF"
    and "length (request_message ver comm tag rid f1 f2 (request_binds (b # bs))) \<le> 0x7FFFFFFF"
  shows "getPDUType (request_message ver comm tag rid f1 f2 (request_binds (b # bs)) @ trail) = Some tag
    \<and> parseIncomingRequest (request_message ver comm tag rid f1 f2 (request_binds (b # bs)) @ trail)
      = Some \<lparr>Community = comm, RequestID = rid, OID = oid_text (fst b), Version = ver, CommunityParsed = True\<rparr>
    \<and> parseAllOIDsFromRequest (request_message ver comm tag rid f1 f2 (request_binds (b # bs)) @ trail)
      = Some (map (oid_text \<circ> fst) (b # bs), True)"
proof -
  let ?bs = "map (\<lambda>(arcs, t, c). (oid_body arcs, t, c)) (b # bs)"
  let ?list = "ber.tlv ASN1_SEQUENCE (concat (map bind_bytes ?bs))"
  define data where "data = request_message ver comm tag rid f1 f2 (request_binds (b # bs)) @ trail"
  note list = request_binds_layout [OF assms(6)]
  have found: "found data 0 (snmp_message (integer_octets ver) (string_bytes comm) tag
      (pdu_body (integer_octets rid) (integer_octets f1) (integer_octets f2) ?list))"
    unfolding data_def request_message_layout list by (rule found_all)
  note read = message_read [OF found assms(7) [unfolded request_message_layout list] assms(1-4)]
  have len: "length (concat (map bind_bytes ?bs)) \<le> 0x7FFFFFFF"
    using request_list_length [of "request_binds (b # bs)" ver comm tag rid f1 f2] assms(7) list by simp
  have "parseAllOIDsFromRequest data = Some (map (oid_text \<circ> fst) (b # bs), True)"
    using read(1) parseVarBindNames_binds [OF found_range [OF read(2), THEN conjunct1]]
      parseVarBinds_read [OF read(2) len read_names(2) [OF assms(6)]] read_names(1) [OF assms(6)]
    by (simp add: parseAllOIDsFromRequest_def)
  moreover have "parseIncomingRequest data
      = Some \<lparr>Community = comm, RequestID = rid, OID = oid_text (fst b), Version = ver, CommunityParsed = True\<rparr>"
    using read(4) [OF assms(5)] request_first_oid_list [OF read(2) len]
      read_names(2) [OF assms(6)] assms(6) by (auto simp: decodeOID_body split: prod.splits)
  ultimately show ?thesis
    using read(3) by (simp add: data_def)
qed

lemma small_request_length:
  assumes "length (request_binds bs) \<le> 64" and "length comm \<le> 16" and "ver \<in> {0, 1}"
  shows "length (request_message ver comm tag 1 0 0 (request_binds bs)) \<le> 0x7FFFFFFF"
proof -
  have "length (integer_octets ver) \<le> 8" "length (integer_octets 1) \<le> 8" "length (integer_octets 0) \<le> 8"
    using assms(3) by (auto intro!: integer_octets_length)
  then show ?thesis
    using assms(1,2)
    by (simp add: request_message_layout snmp_message_def pdu_body_def ber.tlv_length length_encodeLength)
qed

lemma sample_binds_length: "length (request_binds [([1, 3, 6, 1], ASN1_NULL, [])]) \<le> 64"
  by (simp add: request_binds_layout bind_bytes_def ber.tlv_length oid_body_small length_encodeLength)

text \<open>A small request for object 1.3.6.1, in version \<open>ver\<close>.\<close>

definition sample_request :: "int \<Rightarrow> byte \<Rightarrow> byte list" where
  "sample_request ver tag = request_message ver ''public'' tag 1 0 0 (request_binds [([1, 3, 6, 1], ASN1_NULL, [])])"

lemma sample_request_length: "ver \<in> {0, 1} \<Longrightarrow> length (sample_request ver tag) \<le> 0x7FFFFFFF"
  unfolding sample_request_def by (rule small_request_length [OF sample_binds_length]) simp_all

lemma sample_request_read:
  assumes "ver \<in> {0, 1}" and "servedPDUTag tag"
  shows "getPDUType (sample_request ver tag) = Some tag"
    and "parseIncomingRequest (sample_request ver tag) = Some
      \<lparr>Community = ''public'', RequestID = 1, OID = oid_text [1, 3, 6, 1], Version = ver, CommunityParsed = True\<rparr>"
    and "parseAllOIDsFromRequest (sample_request ver tag) = Some ([oid_text [1, 3, 6, 1]], True)"
  using request_read [of ver 1 tag "([1, 3, 6, 1], ASN1_NULL, [])" "[]" "''public''" 0 0 "[]"]
    sample_request_length [OF assms(1), of tag] assms
  by (auto simp: sample_request_def oid_body_small)

section \<open>Properties\<close>



end
