(* ===== verification/Snmp_Response.thy ===== *)
theory Snmp_Response
  imports Snmp_Message
begin

text \<open>
  The response encoders of \<^verbatim>\<open>snmp_response.go\<close>: the framing of a Response-PDU, the exact size computation,
  the SNMPv1 diversion to noSuchName, the two overflow rules and the SET response. The datagram budget
  \<^verbatim>\<open>maxSNMPResponseSize\<close> is a package variable that follows the configured MTU, so it is an argument here
  (theory Datagram_Budget computes it). Log lines are left out.
\<close>

section \<open>Error status\<close>

abbreviation (input) snmpErrNoError :: int where "snmpErrNoError \<equiv> 0"
abbreviation (input) snmpErrTooBig :: int where "snmpErrTooBig \<equiv> 1"
abbreviation (input) snmpErrNoSuchName :: int where "snmpErrNoSuchName \<equiv> 2"
abbreviation (input) snmpErrBadValue :: int where "snmpErrBadValue \<equiv> 3"
abbreviation (input) snmpErrReadOnly :: int where "snmpErrReadOnly \<equiv> 4"
abbreviation (input) snmpErrGenErr :: int where "snmpErrGenErr \<equiv> 5"
abbreviation (input) snmpErrNoAccess :: int where "snmpErrNoAccess \<equiv> 6"
abbreviation (input) snmpErrWrongType :: int where "snmpErrWrongType \<equiv> 7"
abbreviation (input) snmpErrWrongLength :: int where "snmpErrWrongLength \<equiv> 8"
abbreviation (input) snmpErrWrongEncoding :: int where "snmpErrWrongEncoding \<equiv> 9"
abbreviation (input) snmpErrWrongValue :: int where "snmpErrWrongValue \<equiv> 10"
abbreviation (input) snmpErrNoCreation :: int where "snmpErrNoCreation \<equiv> 11"
abbreviation (input) snmpErrInconsistentValue :: int where "snmpErrInconsistentValue \<equiv> 12"
abbreviation (input) snmpErrResourceUnavailable :: int where "snmpErrResourceUnavailable \<equiv> 13"
abbreviation (input) snmpErrCommitFailed :: int where "snmpErrCommitFailed \<equiv> 14"
abbreviation (input) snmpErrUndoFailed :: int where "snmpErrUndoFailed \<equiv> 15"
abbreviation (input) snmpErrAuthorizationError :: int where "snmpErrAuthorizationError \<equiv> 16"
abbreviation (input) snmpErrNotWritable :: int where "snmpErrNotWritable \<equiv> 17"
abbreviation (input) snmpErrInconsistentName :: int where "snmpErrInconsistentName \<equiv> 18"

definition v1SetErrorStatus :: "int \<Rightarrow> int" where
  "v1SetErrorStatus v2 =
     (if v2 \<in> {snmpErrNoAccess, snmpErrNotWritable, snmpErrNoCreation,
        snmpErrInconsistentName, snmpErrAuthorizationError} then snmpErrNoSuchName
      else if v2 \<in> {snmpErrWrongType, snmpErrWrongLength, snmpErrWrongEncoding,
        snmpErrWrongValue, snmpErrInconsistentValue} then snmpErrBadValue
      else if v2 \<in> {snmpErrResourceUnavailable, snmpErrCommitFailed, snmpErrUndoFailed} then snmpErrGenErr
      else v2)"

section \<open>Framing\<close>

definition encodeGetResponseAt :: "SNMPRequest \<Rightarrow> byte list \<Rightarrow> int \<Rightarrow> int \<Rightarrow> byte list" where
  "encodeGetResponseAt req varBindList errStatus errIndex =
     (let varBindSequence = [ASN1_SEQUENCE] @ encodeLength (int (length varBindList)) @ varBindList;
          pduContents = encodeInteger (RequestID req) @ encodeInteger errStatus @ encodeInteger errIndex
            @ varBindSequence;
          pdu = [SNMP_GET_RESPONSE] @ encodeLength (int (length pduContents)) @ pduContents;
          msgContents = encodeInteger (Version req) @ encodeOctetString (Community req) @ pdu
      in encodeSequence msgContents)"

definition encodeGetResponse :: "SNMPRequest \<Rightarrow> byte list \<Rightarrow> int \<Rightarrow> byte list" where
  "encodeGetResponse req varBindList errStatus = encodeGetResponseAt req varBindList errStatus 0"

definition createSNMPResponse :: "string \<Rightarrow> string \<Rightarrow> byte list \<Rightarrow> byte list option" where
  "createSNMPResponse oid value requestData = do {
     req \<leftarrow> parseIncomingRequest requestData;
     if Version req = snmpVersion1 \<and> isSNMPExceptionValue value then
       Some (encodeGetResponseAt req (encodeVarBind oid encodeNull) snmpErrNoSuchName 1)
     else
       let valueBytes = encodeTypedValue oid value;
           oidBytes = encodeOID oid;
           varBind = encodeSequence (oidBytes @ valueBytes);
           varBindList = encodeSequence varBind;
           pduContents = encodeInteger (RequestID req) @ encodeInteger 0 @ encodeInteger 0 @ varBindList;
           pdu = [SNMP_GET_RESPONSE] @ encodeLength (int (length pduContents)) @ pduContents;
           msgContents = encodeInteger (Version req) @ encodeOctetString (Community req) @ pdu
       in Some (encodeSequence msgContents) }"

definition createSetResponse :: "byte list \<Rightarrow> byte list \<Rightarrow> int \<Rightarrow> int \<Rightarrow> byte list option" where
  "createSetResponse requestData echoed errStatus errIndex = do {
     req \<leftarrow> parseIncomingRequest requestData;
     let errStatus = (if Version req = snmpVersion1 then v1SetErrorStatus errStatus else errStatus);
     let errIndex = (if errStatus = snmpErrNoError then 0 else errIndex);
     Some (encodeGetResponseAt req echoed errStatus errIndex) }"

section \<open>Rules per PDU type\<close>

datatype snmpOverflowRule = overflowRuleUnset | overflowTruncate | overflowTooBig

datatype v1DiversionRule =
  v1DivertUnset | v1DivertNothing | v1DivertSentinel | v1DivertSentinelAndCounter64

text \<open>\<open>echoNames\<close> distinguishes a nil slice (\<open>None\<close>) from an empty one.\<close>

record varbindResponseRules =
  overflow :: snmpOverflowRule
  v1Diversion :: v1DiversionRule
  echoNames :: "string list option"

definition resolveDefaults :: "varbindResponseRules \<Rightarrow> varbindResponseRules \<times> bool" where
  "resolveDefaults r =
     (let (r, unset) = (if overflow r = overflowRuleUnset
            then (r\<lparr>overflow := overflowTooBig\<rparr>, True) else (r, False))
      in if v1Diversion r = v1DivertUnset
         then (r\<lparr>v1Diversion := v1DivertSentinelAndCounter64\<rparr>, True) else (r, unset))"

definition snmpMessageSizeFor :: "int \<Rightarrow> int \<Rightarrow> int \<Rightarrow> int" where
  "snmpMessageSizeFor msgPrefix pduPrefix varBindLen =
     (let vbSeq = 1 + lenBytesFor varBindLen + varBindLen;
          pduContents = pduPrefix + vbSeq;
          pdu = 1 + lenBytesFor pduContents + pduContents;
          msgContents = msgPrefix + pdu
      in 1 + lenBytesFor msgContents + msgContents)"

definition offends :: "v1DiversionRule \<Rightarrow> string \<times> string \<Rightarrow> bool" where
  "offends rule b \<longleftrightarrow> isSNMPExceptionValue (snd b)
     \<or> rule = v1DivertSentinelAndCounter64 \<and> snmpTypeTag (fst b) = ASN1_COUNTER64"

text \<open>The position of the first offending binding, counted from \<open>i\<close>.\<close>

fun first_offence :: "v1DiversionRule \<Rightarrow> (string \<times> string) list \<Rightarrow> int \<Rightarrow> int option" where
  "first_offence rule [] i = None"
| "first_offence rule (b # bs) i = (if offends rule b then Some i else first_offence rule bs (i + 1))"

text \<open>The sizing loop: the list so far and whether it stopped early.\<close>

fun fill_binds ::
  "int \<Rightarrow> int \<Rightarrow> int \<Rightarrow> snmpOverflowRule \<Rightarrow> (string \<times> string) list \<Rightarrow> byte list \<Rightarrow> byte list \<times> bool" where
  "fill_binds budget msgPrefix pduPrefix rule [] varBindList = (varBindList, False)"
| "fill_binds budget msgPrefix pduPrefix rule ((oid, value) # rest) varBindList =
     (let varBindingContents = encodeOID oid @ encodeTypedValue oid value;
          varBinding = [ASN1_SEQUENCE] @ encodeLength (int (length varBindingContents)) @ varBindingContents
      in if budget < snmpMessageSizeFor msgPrefix pduPrefix (int (length varBindList) + int (length varBinding))
         then (if varBindList = [] \<and> rule = overflowTruncate then varBindList @ varBinding else varBindList, True)
         else fill_binds budget msgPrefix pduPrefix rule rest (varBindList @ varBinding))"

definition createVarbindResponse ::
  "int \<Rightarrow> string list \<Rightarrow> string list \<Rightarrow> byte list \<Rightarrow> varbindResponseRules \<Rightarrow> byte list option" where
  "createVarbindResponse budget oids responses requestData rules =
     (if length oids \<noteq> length responses then
        createSNMPResponse ''.1.3.6.1.2.1.1.1.0'' ''No data'' requestData
      else do {
        req \<leftarrow> parseIncomingRequest requestData;
        let rules = fst (resolveDefaults rules);
        let names = (case echoNames rules of None \<Rightarrow> oids | Some ns \<Rightarrow> ns);
        let names = (if length names \<noteq> length oids then [] else names);
        let divert = (if Version req = snmpVersion1 \<and> v1Diversion rules \<noteq> v1DivertNothing
          then first_offence (v1Diversion rules) (zip oids responses) 0 else None);
        case divert of
          Some i \<Rightarrow> Some (encodeGetResponseAt req (concat (map (\<lambda>o'. encodeVarBind o' encodeNull) names))
            snmpErrNoSuchName (i + 1))
        | None \<Rightarrow>
            let msgPrefix = int (length (encodeInteger (Version req)))
                  + int (length (encodeOctetString (Community req)));
                pduPrefix = int (length (encodeInteger (RequestID req)))
                  + int (length (encodeInteger 0)) + int (length (encodeInteger 0));
                (varBindList, truncated) =
                  fill_binds budget msgPrefix pduPrefix (overflow rules) (zip oids responses) []
            in if truncated \<and> overflow rules = overflowTooBig
               then Some (encodeGetResponse req [] snmpErrTooBig)
               else Some (encodeGetResponse req varBindList snmpErrNoError) })"

definition createGetBulkResponse :: "int \<Rightarrow> string list \<Rightarrow> string list \<Rightarrow> byte list \<Rightarrow> byte list option" where
  "createGetBulkResponse budget oids responses requestData = createVarbindResponse budget oids responses requestData
     \<lparr>overflow = overflowTruncate, v1Diversion = v1DivertNothing, echoNames = None\<rparr>"

definition createGetResponse :: "int \<Rightarrow> string list \<Rightarrow> string list \<Rightarrow> byte list \<Rightarrow> byte list option" where
  "createGetResponse budget oids responses requestData = createVarbindResponse budget oids responses requestData
     \<lparr>overflow = overflowTooBig, v1Diversion = v1DivertSentinelAndCounter64, echoNames = None\<rparr>"

definition createGetNextResponse ::
  "int \<Rightarrow> string list option \<Rightarrow> string list \<Rightarrow> string list \<Rightarrow> byte list \<Rightarrow> byte list option" where
  "createGetNextResponse budget names oids responses requestData =
     createVarbindResponse budget oids responses requestData
       \<lparr>overflow = overflowTooBig, v1Diversion = v1DivertSentinel, echoNames = names\<rparr>"

definition createTooBigResponse :: "byte list \<Rightarrow> byte list option" where
  "createTooBigResponse requestData = do {
     req \<leftarrow> parseIncomingRequest requestData;
     Some (encodeGetResponse req [] snmpErrTooBig) }"

section \<open>Sizes\<close>

definition varbinding :: "string \<times> string \<Rightarrow> byte list" where
  "varbinding b = ber.tlv ASN1_SEQUENCE (encodeOID (fst b) @ encodeTypedValue (fst b) (snd b))"

definition response_size :: "SNMPRequest \<Rightarrow> byte list \<Rightarrow> int" where
  "response_size req list = int (length (encodeGetResponse req list snmpErrNoError))"

definition msg_prefix :: "SNMPRequest \<Rightarrow> int" where
  "msg_prefix req = int (length (encodeInteger (Version req))) + int (length (encodeOctetString (Community req)))"

definition pdu_prefix :: "SNMPRequest \<Rightarrow> int" where
  "pdu_prefix req = int (length (encodeInteger (RequestID req)))
     + int (length (encodeInteger 0)) + int (length (encodeInteger 0))"

text \<open>
  The size function and the encoder agree up to the largest datagram: beyond 65535 octets both are over
  any budget, although \<^verbatim>\<open>lenBytesFor\<close> then no longer counts every octet of the length.
\<close>

definition field_size :: "int \<Rightarrow> int" where
  "field_size n = 1 + int (length (encodeLength n)) + n"

lemma int_tlv_length: "int (length (ber.tlv t body)) = field_size (int (length body))"
  by (simp add: ber.tlv_length field_size_def)

lemma response_size_layout:
  "response_size req list
    = field_size (msg_prefix req + field_size (pdu_prefix req + field_size (int (length list))))"
  unfolding response_size_def encodeGetResponse_def encodeGetResponseAt_def Let_def encodeSequence_tlv int_tlv_length
  by (simp add: field_size_def algebra_simps msg_prefix_def pdu_prefix_def)

lemma over_budget_iff:
  assumes "budget \<le> 65535"
  shows "budget < snmpMessageSizeFor (msg_prefix req) (pdu_prefix req) (int (length list))
    \<longleftrightarrow> budget < response_size req list"
proof -
  define m where "m = msg_prefix req"
  define p where "p = pdu_prefix req"
  define n where "n = int (length list)"
  have pos: "0 \<le> m" "0 \<le> p" "0 \<le> n"
    by (simp_all add: m_def p_def n_def msg_prefix_def pdu_prefix_def)
  define a where "a = 1 + lenBytesFor n + n"
  define b where "b = 1 + lenBytesFor (p + a) + (p + a)"
  define c where "c = 1 + lenBytesFor (m + b) + (m + b)"
  have gt: "n < a" "p + a < b" "m + b < c"
    by (simp_all add: a_def b_def c_def lenBytesFor_def)
  have fgt: "k < field_size k" for k
    by (simp add: field_size_def)
  have a: "a = field_size n" if "n < 65536"
    using lenBytesFor_exact [OF pos(3) that] by (simp add: a_def field_size_def)
  have b: "b = field_size (p + a)" if "p + a < 65536"
    using lenBytesFor_exact [OF _ that] gt pos by (simp add: b_def field_size_def)
  have c: "c = field_size (m + b)" if "m + b < 65536"
    using lenBytesFor_exact [OF _ that] gt pos by (simp add: c_def field_size_def)
  have "budget < c \<longleftrightarrow> budget < field_size (m + field_size (p + field_size n))"
  proof (cases "m + b < 65536")
    case True
    then have "n < 65536" "p + a < 65536"
      using gt pos by linarith+
    then show ?thesis
      using True a b c by simp
  next
    case False
    have "65536 \<le> m + field_size (p + field_size n)"
    proof (cases "p + a < 65536")
      case True
      then have "n < 65536"
        using gt pos by linarith
      then show ?thesis
        using True False a b by simp
    next
      case big: False
      have "65536 \<le> p + field_size n"
        using big a fgt [of n] pos by (cases "n < 65536") auto
      then show ?thesis
        using fgt [of "p + field_size n"] pos by linarith
    qed
    then show ?thesis
      using False gt fgt [of "m + field_size (p + field_size n)"] assms by linarith
  qed
  then show ?thesis
    unfolding response_size_layout snmpMessageSizeFor_def Let_def m_def p_def n_def a_def b_def c_def .
qed

lemma lenBytesFor_mono: "m \<le> n \<Longrightarrow> lenBytesFor m \<le> lenBytesFor n"
  by (simp add: lenBytesFor_def)

lemma snmpMessageSizeFor_mono: "m \<le> n \<Longrightarrow> snmpMessageSizeFor a b m \<le> snmpMessageSizeFor a b n"
  unfolding snmpMessageSizeFor_def Let_def by (simp add: add_mono lenBytesFor_mono)

lemma over_budget_append:
  assumes "budget \<le> 65535" and "budget < response_size req list"
  shows "budget < response_size req (list @ extra)"
  using over_budget_iff [OF assms(1), of req list] over_budget_iff [OF assms(1), of req "list @ extra"] assms(2)
    snmpMessageSizeFor_mono [of "int (length list)" "int (length (list @ extra))" "msg_prefix req" "pdu_prefix req"]
  by simp

lemma over_budget_take:
  assumes "budget \<le> 65535" and "budget < response_size req (concat (map f (take m bs)))" and "m \<le> n"
  shows "budget < response_size req (concat (map f (take n bs)))"
proof -
  have "take n bs = take m bs @ drop m (take n bs)"
    using append_take_drop_id [of m "take n bs"] assms(3) by (simp add: min_def)
  then show ?thesis
    using over_budget_append [OF assms(1,2), of "concat (map f (drop m (take n bs)))"]
    by (simp only: flip: concat_append map_append)
qed

text \<open>The loop on the layout.\<close>

lemma fill_binds_step:
  assumes "budget \<le> 65535"
  shows "fill_binds budget (msg_prefix req) (pdu_prefix req) rule (b # bs) acc
    = (if budget < response_size req (acc @ varbinding b)
       then (if acc = [] \<and> rule = overflowTruncate then acc @ varbinding b else acc, True)
       else fill_binds budget (msg_prefix req) (pdu_prefix req) rule bs (acc @ varbinding b))"
proof (cases b)
  case (Pair oid v)
  have vb: "[ASN1_SEQUENCE] @ encodeLength (int (length (encodeOID oid @ encodeTypedValue oid v)))
      @ encodeOID oid @ encodeTypedValue oid v = varbinding b"
    by (simp add: Pair varbinding_def ber.tlv_def)
  show ?thesis
    unfolding Pair fill_binds.simps Let_def vb [unfolded Pair]
    using over_budget_iff [OF assms, of req "acc @ varbinding (oid, v)"] by simp
qed

lemma fill_binds_tooBig:
  assumes "budget \<le> 65535"
  shows "(let r = fill_binds budget (msg_prefix req) (pdu_prefix req) rule bs acc
      in if bs \<noteq> [] \<and> budget < response_size req (acc @ concat (map varbinding bs)) then snd r
         else r = (acc @ concat (map varbinding bs), False))"
proof (induction bs arbitrary: acc)
  case (Cons b bs)
  show ?case
  proof (cases "budget < response_size req (acc @ varbinding b)")
    case True
    then show ?thesis
      using over_budget_append [OF assms True, of "concat (map varbinding bs)"]
      by (simp add: fill_binds_step [OF assms] Let_def del: fill_binds.simps)
  next
    case False
    then show ?thesis
      using Cons.IH [of "acc @ varbinding b"]
      by (cases bs) (simp_all add: fill_binds_step [OF assms] Let_def del: fill_binds.simps(2))
  qed
qed simp

definition longest_prefix :: "int \<Rightarrow> SNMPRequest \<Rightarrow> byte list \<Rightarrow> (string \<times> string) list \<Rightarrow> nat \<Rightarrow> bool" where
  "longest_prefix budget req acc bs n \<longleftrightarrow> n \<le> length bs
     \<and> (n < length bs \<longrightarrow> budget < response_size req (acc @ concat (map varbinding (take (Suc n) bs))))
     \<and> (0 < n \<longrightarrow> response_size req (acc @ concat (map varbinding (take n bs))) \<le> budget)"

lemma varbinding_not_Nil: "varbinding b \<noteq> []"
  by (simp add: varbinding_def ber.tlv_def)

lemma fill_binds_prefix:
  assumes "budget \<le> 65535" and "acc \<noteq> [] \<or> rule \<noteq> overflowTruncate"
  shows "\<exists>n. fst (fill_binds budget (msg_prefix req) (pdu_prefix req) rule bs acc)
      = acc @ concat (map varbinding (take n bs)) \<and> longest_prefix budget req acc bs n"
  using assms(2)
proof (induction bs arbitrary: acc)
  case Nil
  then show ?case
    by (intro exI [of _ 0]) (simp add: longest_prefix_def)
next
  case (Cons b bs)
  show ?case
  proof (cases "budget < response_size req (acc @ varbinding b)")
    case True
    then show ?thesis
      using Cons.prems by (intro exI [of _ 0])
        (auto simp: fill_binds_step [OF assms(1)] longest_prefix_def simp del: fill_binds.simps)
  next
    case False
    obtain n where n: "fst (fill_binds budget (msg_prefix req) (pdu_prefix req) rule bs (acc @ varbinding b))
        = (acc @ varbinding b) @ concat (map varbinding (take n bs))"
      and long: "longest_prefix budget req (acc @ varbinding b) bs n"
      using Cons.IH [of "acc @ varbinding b"] varbinding_not_Nil by auto
    have "longest_prefix budget req acc (b # bs) (Suc n)"
      using long False by (cases n) (auto simp: longest_prefix_def)
    then show ?thesis
      using n False by (intro exI [of _ "Suc n"])
        (simp add: fill_binds_step [OF assms(1)] del: fill_binds.simps)
  qed
qed

lemma fill_binds_truncate:
  assumes "budget \<le> 65535" and "bs \<noteq> []"
  shows "\<exists>n. fst (fill_binds budget (msg_prefix req) (pdu_prefix req) overflowTruncate bs [])
      = concat (map varbinding (take n bs)) \<and> 0 < n
      \<and> (longest_prefix budget req [] bs n \<or> n = 1 \<and> longest_prefix budget req [] bs 0)"
proof (cases bs)
  case (Cons b rest)
  show ?thesis
  proof (cases "budget < response_size req (varbinding b)")
    case True
    then show ?thesis
      by (intro exI [of _ 1])
        (simp add: Cons fill_binds_step [OF assms(1)] longest_prefix_def del: fill_binds.simps)
  next
    case False
    obtain n where n: "fst (fill_binds budget (msg_prefix req) (pdu_prefix req) overflowTruncate rest (varbinding b))
        = varbinding b @ concat (map varbinding (take n rest))"
      and long: "longest_prefix budget req (varbinding b) rest n"
      using fill_binds_prefix [OF assms(1), of "varbinding b" overflowTruncate req rest] varbinding_not_Nil by auto
    have "longest_prefix budget req [] (b # rest) (Suc n)"
      using long False by (cases n) (auto simp: longest_prefix_def)
    then show ?thesis
      using n False by (intro exI [of _ "Suc n"])
        (simp add: Cons fill_binds_step [OF assms(1)] del: fill_binds.simps)
  qed
qed (use assms in simp)

section \<open>The SNMPv1 diversion\<close>

lemma first_offence_None: "first_offence rule bs i = None \<longleftrightarrow> (\<forall>b\<in>set bs. \<not> offends rule b)"
  by (induction bs arbitrary: i) simp_all

lemma first_offence_at:
  assumes "k < length bs" and "offends rule (bs ! k)" and "\<forall>l<k. \<not> offends rule (bs ! l)"
  shows "first_offence rule bs i = Some (i + int k)"
  using assms
proof (induction k arbitrary: bs i)
  case 0
  then show ?case
    by (cases bs) simp_all
next
  case (Suc k)
  then obtain b rest where bs: "bs = b # rest"
    by (cases bs) simp_all
  then have "\<not> offends rule b" and "\<forall>l<k. \<not> offends rule (rest ! l)"
    using Suc.prems(3) by force+
  then show ?case
    using Suc.IH [of rest "i + 1"] Suc.prems bs by simp
qed

section \<open>What a response is\<close>

lemma resolveDefaults_set [simp]:
  "overflow r \<noteq> overflowRuleUnset \<Longrightarrow> v1Diversion r \<noteq> v1DivertUnset \<Longrightarrow> fst (resolveDefaults r) = r"
  by (simp add: resolveDefaults_def)

text \<open>The answer under the tooBig rule when nothing diverts.\<close>

definition all_or_tooBig :: "int \<Rightarrow> SNMPRequest \<Rightarrow> (string \<times> string) list \<Rightarrow> byte list" where
  "all_or_tooBig budget req bs =
     (if bs \<noteq> [] \<and> budget < response_size req (concat (map varbinding bs))
      then encodeGetResponse req [] snmpErrTooBig
      else encodeGetResponse req (concat (map varbinding bs)) snmpErrNoError)"

lemma createVarbindResponse_tooBig:
  assumes "length oids = length responses" and "parseIncomingRequest data = Some req" and "budget \<le> 65535"
    and "overflow rules = overflowTooBig" and "v1Diversion rules \<noteq> v1DivertUnset"
    and "Version req = snmpVersion1 \<Longrightarrow> v1Diversion rules \<noteq> v1DivertNothing \<Longrightarrow>
      first_offence (v1Diversion rules) (zip oids responses) 0 = None"
  shows "createVarbindResponse budget oids responses data rules = Some (all_or_tooBig budget req (zip oids responses))"
  using assms fill_binds_tooBig [OF assms(3), of req overflowTooBig "zip oids responses" "[]"]
  unfolding createVarbindResponse_def
  by (auto simp: all_or_tooBig_def Let_def msg_prefix_def pdu_prefix_def split: if_splits prod.splits)

lemma createVarbindResponse_divert:
  assumes "length oids = length responses" and "parseIncomingRequest data = Some req"
    and "overflow rules \<noteq> overflowRuleUnset" and "v1Diversion rules \<noteq> v1DivertUnset"
    and "v1Diversion rules \<noteq> v1DivertNothing" and "Version req = snmpVersion1"
    and "first_offence (v1Diversion rules) (zip oids responses) 0 = Some i"
    and "length (case echoNames rules of None \<Rightarrow> oids | Some ns \<Rightarrow> ns) = length oids"
  shows "createVarbindResponse budget oids responses data rules
    = Some (encodeGetResponseAt req
        (concat (map (\<lambda>o'. encodeVarBind o' encodeNull) (case echoNames rules of None \<Rightarrow> oids | Some ns \<Rightarrow> ns)))
        snmpErrNoSuchName (i + 1))"
  using assms unfolding createVarbindResponse_def by (simp add: Let_def)

lemma createGetBulkResponse_eq:
  assumes "length oids = length responses" and "parseIncomingRequest data = Some req"
  shows "createGetBulkResponse budget oids responses data
    = Some (encodeGetResponse req (fst (fill_binds budget (msg_prefix req) (pdu_prefix req) overflowTruncate
        (zip oids responses) [])) snmpErrNoError)"
  using assms unfolding createGetBulkResponse_def createVarbindResponse_def
  by (simp add: Let_def msg_prefix_def pdu_prefix_def case_prod_beta)

text \<open>A response on the layout of Snmp_Message, and one binding of it.\<close>

lemma encodeGetResponseAt_layout:
  "encodeGetResponseAt req list st ix
    = snmp_message (integer_octets (Version req)) (string_bytes (Community req)) SNMP_GET_RESPONSE
        (pdu_body (integer_octets (RequestID req)) (integer_octets st) (integer_octets ix) (ber.tlv ASN1_SEQUENCE list))"
  by (simp add: encodeGetResponseAt_def snmp_message_def pdu_body_def encodeInteger_tlv encodeOctetString_tlv
      encodeSequence_tlv ber.tlv_def [of SNMP_GET_RESPONSE] ber.tlv_def [of ASN1_SEQUENCE list] Let_def
      algebra_simps)

lemma response_list_read:
  assumes "- (2 ^ 32) \<le> Version req" "Version req < 2 ^ 63" "- (2 ^ 32) \<le> RequestID req" "RequestID req < 2 ^ 63"
    and "length (encodeGetResponseAt req (concat (map bind_bytes bs)) st ix) \<le> 0x7FFFFFFF"
    and "\<forall>b\<in>set bs. decodeOID (fst b) \<noteq> []"
  shows "getPDUType (encodeGetResponseAt req (concat (map bind_bytes bs)) st ix) = Some SNMP_GET_RESPONSE"
    and "\<exists>p. requestVarBindListPos (encodeGetResponseAt req (concat (map bind_bytes bs)) st ix)
          = Some (p, int (length (encodeGetResponseAt req (concat (map bind_bytes bs)) st ix)), True)
        \<and> parseVarBinds (encodeGetResponseAt req (concat (map bind_bytes bs)) st ix) p
          = Some (Some (map bind_read bs), concat (map bind_bytes bs), True)"
proof -
  let ?msg = "encodeGetResponseAt req (concat (map bind_bytes bs)) st ix"
  have "found ?msg 0 ?msg"
    using found_all [of ?msg "[]"] by simp
  note read = message_read [OF this [unfolded encodeGetResponseAt_layout [of _ "concat _"]]
      assms(5) [unfolded encodeGetResponseAt_layout] assms(1-4), folded encodeGetResponseAt_layout]
  show "getPDUType ?msg = Some SNMP_GET_RESPONSE"
    by (rule read(3))
  have "length (concat (map bind_bytes bs)) \<le> 0x7FFFFFFF"
    using assms(5) by (simp add: encodeGetResponseAt_layout snmp_message_def pdu_body_def ber.tlv_length)
  then show "\<exists>p. requestVarBindListPos ?msg = Some (p, int (length ?msg), True)
      \<and> parseVarBinds ?msg p = Some (Some (map bind_read bs), concat (map bind_bytes bs), True)"
    using read(1) parseVarBinds_read [OF read(2) _ assms(6)] by blast
qed

lemma varbinding_read:
  assumes "legal_arcs arcs" and "length (oid_body arcs) \<le> 0xFFFF"
  obtains b where "varbinding (oid_text arcs, v) = bind_bytes b" and "decodeOID (fst b) \<noteq> []"
    and "vb_name (bind_read b) = oid_text arcs" and "vb_tag (bind_read b) = wire_tag (oid_text arcs) v"
    and "encodeTypedValue (oid_text arcs) v = ber.tlv (vb_tag (bind_read b)) (vb_content (bind_read b))"
proof -
  obtain body where v: "encodeTypedValue (oid_text arcs) v = ber.tlv (wire_tag (oid_text arcs) v) body"
    using encodeTypedValue_tlv [of "oid_text arcs" v] by blast
  show ?thesis
    by (rule that [of "(oid_body arcs, wire_tag (oid_text arcs) v, body)"])
      (use v encodeOID_text [OF assms] decodeOID_body [OF assms(1)] in
        \<open>simp_all add: varbinding_def bind_bytes_def bind_read_def\<close>)
qed

lemma varbindings_read:
  assumes "length arcss = length vals" and "\<forall>arcs\<in>set arcss. legal_arcs arcs \<and> length (oid_body arcs) \<le> 0xFFFF"
  shows "\<exists>bs. map varbinding (zip (map oid_text arcss) vals) = map bind_bytes bs
    \<and> (\<forall>b\<in>set bs. decodeOID (fst b) \<noteq> [])
    \<and> map vb_name (map bind_read bs) = map oid_text arcss
    \<and> map vb_tag (map bind_read bs) = map2 wire_tag (map oid_text arcss) vals
    \<and> map (\<lambda>b. ber.tlv (vb_tag b) (vb_content b)) (map bind_read bs)
      = map2 encodeTypedValue (map oid_text arcss) vals"
  using assms
proof (induction arcss vals rule: list_induct2)
  case (Cons arcs arcss v vals)
  then obtain bs where "map varbinding (zip (map oid_text arcss) vals) = map bind_bytes bs"
    "\<forall>b\<in>set bs. decodeOID (fst b) \<noteq> []" "map vb_name (map bind_read bs) = map oid_text arcss"
    "map vb_tag (map bind_read bs) = map2 wire_tag (map oid_text arcss) vals"
    "map (\<lambda>b. ber.tlv (vb_tag b) (vb_content b)) (map bind_read bs)
      = map2 encodeTypedValue (map oid_text arcss) vals"
    by auto
  moreover obtain b where "varbinding (oid_text arcs, v) = bind_bytes b" "decodeOID (fst b) \<noteq> []"
    "vb_name (bind_read b) = oid_text arcs" "vb_tag (bind_read b) = wire_tag (oid_text arcs) v"
    "encodeTypedValue (oid_text arcs) v = ber.tlv (vb_tag (bind_read b)) (vb_content (bind_read b))"
    using varbinding_read [of arcs v] Cons.prems by auto
  ultimately show ?case
    by (intro exI [of _ "b # bs"]) simp
qed simp

text \<open>A request of each version, for the concrete instances below.\<close>

definition sample_req :: "int \<Rightarrow> SNMPRequest" where
  "sample_req ver =
     \<lparr>Community = ''public'', RequestID = 1, OID = oid_text [1, 3, 6, 1], Version = ver, CommunityParsed = True\<rparr>"

lemma sample_req_read:
  "ver \<in> {0, 1} \<Longrightarrow> servedPDUTag tag \<Longrightarrow> parseIncomingRequest (sample_request ver tag) = Some (sample_req ver)"
  unfolding sample_req_def by (rule sample_request_read(2))

lemma sample_response_size:
  assumes "ver \<in> {0, 1}" and "length list \<le> 64"
  shows "response_size (sample_req ver) list \<le> 1472"
proof -
  have "length (integer_octets ver) \<le> 8" "length (integer_octets 1) \<le> 8" "length (integer_octets 0) \<le> 8"
    using assms(1) by (auto intro!: integer_octets_length)
  then show ?thesis
    using assms(2) by (simp add: response_size_def encodeGetResponse_def encodeGetResponseAt_layout snmp_message_def
        pdu_body_def ber.tlv_length length_encodeLength sample_req_def)
qed

section \<open>Properties\<close>

text \<open>
  C15: the answer to a GET or GETNEXT of an SNMPv2c manager is complete or is an error: it carries every
  binding and fits the datagram budget, or it is the tooBig response with no binding, byte for byte the one
  the dispatcher's short cut sends. There is no partial answer.
\<close>

theorem get_all_or_tooBig:
  assumes "length oids = length responses" and "parseIncomingRequest data = Some req"
    and "Version req \<noteq> snmpVersion1" and "budget \<le> 65535" and "oids \<noteq> []"
  shows "(if int (length (encodeGetResponse req (concat (map varbinding (zip oids responses))) snmpErrNoError)) \<le> budget
      then createGetResponse budget oids responses data
          = Some (encodeGetResponse req (concat (map varbinding (zip oids responses))) snmpErrNoError)
      else createGetResponse budget oids responses data = createTooBigResponse data)
    \<and> createGetNextResponse budget names oids responses data = createGetResponse budget oids responses data"
proof -
  have "zip oids responses \<noteq> []"
    using assms(1,5) by (cases oids; cases responses) simp_all
  then show ?thesis
    using createVarbindResponse_tooBig [OF assms(1,2,4)] assms(2,3)
    by (auto simp: createGetResponse_def createGetNextResponse_def createTooBigResponse_def all_or_tooBig_def
        response_size_def)
qed

theorem get_all_or_tooBig_witness:
  "(if int (length (encodeGetResponse (sample_req 1) (concat (map varbinding (zip [''.1.3''] [''x'']))) snmpErrNoError)) \<le> 1472
      then createGetResponse 1472 [''.1.3''] [''x''] (sample_request 1 ASN1_GET_REQUEST)
          = Some (encodeGetResponse (sample_req 1) (concat (map varbinding (zip [''.1.3''] [''x'']))) snmpErrNoError)
      else createGetResponse 1472 [''.1.3''] [''x''] (sample_request 1 ASN1_GET_REQUEST)
          = createTooBigResponse (sample_request 1 ASN1_GET_REQUEST))
    \<and> createGetNextResponse 1472 (Some [''.1.2'']) [''.1.3''] [''x''] (sample_request 1 ASN1_GET_REQUEST)
      = createGetResponse 1472 [''.1.3''] [''x''] (sample_request 1 ASN1_GET_REQUEST)"
  by (rule get_all_or_tooBig) (simp_all add: sample_req_read servedPDUTag_def, simp add: sample_req_def)

text \<open>
  C16: a GETBULK answer carries the longest run of bindings, from the first on, whose message fits the
  budget, and at least one binding whenever there is one to send, so that a walk always has a resume point.
\<close>

theorem bulk_longest_prefix:
  assumes "length oids = length responses" and "parseIncomingRequest data = Some req"
    and "budget \<le> 65535" and "oids \<noteq> []"
  shows "\<exists>n. 0 < n \<and> n \<le> length oids
    \<and> createGetBulkResponse budget oids responses data
      = Some (encodeGetResponse req (concat (map varbinding (take n (zip oids responses)))) snmpErrNoError)
    \<and> (n = 1 \<or> response_size req (concat (map varbinding (take n (zip oids responses)))) \<le> budget)
    \<and> (n = length oids \<or> budget < response_size req (concat (map varbinding (take (Suc n) (zip oids responses)))))"
proof -
  have ne: "zip oids responses \<noteq> []"
    using assms(1,4) by (cases oids; cases responses) simp_all
  have len: "length (zip oids responses) = length oids"
    using assms(1) by simp
  obtain n where n: "fst (fill_binds budget (msg_prefix req) (pdu_prefix req) overflowTruncate (zip oids responses) [])
      = concat (map varbinding (take n (zip oids responses)))" "0 < n"
    and long: "longest_prefix budget req [] (zip oids responses) n
      \<or> n = 1 \<and> longest_prefix budget req [] (zip oids responses) 0"
    using fill_binds_truncate [OF assms(3) ne, of req] by (elim exE conjE)
  have "n \<le> length oids"
    using long assms(4) unfolding longest_prefix_def len by (auto simp: Suc_le_eq)
  moreover have "n = 1 \<or> response_size req (concat (map varbinding (take n (zip oids responses)))) \<le> budget"
    using long n(2) unfolding longest_prefix_def append_Nil by blast
  moreover have "n = length oids \<or> budget < response_size req (concat (map varbinding (take (Suc n) (zip oids responses))))"
    using long
  proof
    assume "longest_prefix budget req [] (zip oids responses) n"
    then show ?thesis
      unfolding longest_prefix_def append_Nil len by linarith
  next
    assume "n = 1 \<and> longest_prefix budget req [] (zip oids responses) 0"
    then show ?thesis
      using over_budget_take [OF assms(3), of req varbinding "Suc 0" "zip oids responses" "Suc 1"] assms(4)
      unfolding longest_prefix_def append_Nil len by simp
  qed
  ultimately show ?thesis
    using createGetBulkResponse_eq [OF assms(1,2)] n by (intro exI [of _ n]) simp
qed

theorem bulk_longest_prefix_witness:
  "\<exists>n. 0 < n \<and> n \<le> length [''.1.3'', ''.1.4'']
    \<and> createGetBulkResponse 40 [''.1.3'', ''.1.4''] [''x'', ''y''] (sample_request 1 ASN1_GET_BULK)
      = Some (encodeGetResponse (sample_req 1) (concat (map varbinding (take n (zip [''.1.3'', ''.1.4''] [''x'', ''y''])))) snmpErrNoError)
    \<and> (n = 1 \<or> response_size (sample_req 1) (concat (map varbinding (take n (zip [''.1.3'', ''.1.4''] [''x'', ''y''])))) \<le> 40)
    \<and> (n = length [''.1.3'', ''.1.4''] \<or>
        40 < response_size (sample_req 1) (concat (map varbinding (take (Suc n) (zip [''.1.3'', ''.1.4''] [''x'', ''y''])))))"
  by (rule bulk_longest_prefix) (simp_all add: sample_req_read servedPDUTag_def)

text \<open>
  C17: an SNMPv1 manager never receives a value SNMPv1 cannot represent. When a binding of a GET is an
  exception or a Counter64 object, the answer is noSuchName with the request's own names, pointing at the first
  such binding; otherwise the answer is the complete one or tooBig, and no binding of it carries an
  exception or Counter64 tag.
\<close>

theorem v1_get_representable:
  assumes "length oids = length responses" and "parseIncomingRequest data = Some req"
    and "Version req = snmpVersion1" and "budget \<le> 65535"
  shows "(\<exists>k<length oids. (isSNMPExceptionValue (responses ! k) \<or> snmpTypeTag (oids ! k) = ASN1_COUNTER64)
        \<and> (\<forall>l<k. \<not> isSNMPExceptionValue (responses ! l) \<and> snmpTypeTag (oids ! l) \<noteq> ASN1_COUNTER64)
        \<and> createGetResponse budget oids responses data
          = Some (encodeGetResponseAt req (concat (map (\<lambda>o'. encodeVarBind o' encodeNull) oids))
              snmpErrNoSuchName (int k + 1)))
    \<or> createGetResponse budget oids responses data = Some (all_or_tooBig budget req (zip oids responses))
      \<and> (\<forall>k<length oids. wire_tag (oids ! k) (responses ! k) \<notin> {0x80, 0x82, ASN1_COUNTER64})"
proof (cases "\<exists>k. k < length oids \<and> offends v1DivertSentinelAndCounter64 (zip oids responses ! k)")
  case True
  define k where "k = (LEAST k. k < length oids \<and> offends v1DivertSentinelAndCounter64 (zip oids responses ! k))"
  have k: "k < length oids" "offends v1DivertSentinelAndCounter64 (zip oids responses ! k)"
    using LeastI_ex [OF True] by (simp_all add: k_def)
  have least: "\<not> offends v1DivertSentinelAndCounter64 (zip oids responses ! l)" if "l < k" for l
    using not_less_Least [of l] that k(1) by (fastforce simp: k_def)
  have "first_offence v1DivertSentinelAndCounter64 (zip oids responses) 0 = Some (int k)"
    using first_offence_at [of k "zip oids responses" _ 0] k least assms(1) by simp
  then have "createGetResponse budget oids responses data
      = Some (encodeGetResponseAt req (concat (map (\<lambda>o'. encodeVarBind o' encodeNull) oids))
          snmpErrNoSuchName (int k + 1))"
    unfolding createGetResponse_def using createVarbindResponse_divert [OF assms(1,2)] assms(3) by simp
  moreover have "isSNMPExceptionValue (responses ! k) \<or> snmpTypeTag (oids ! k) = ASN1_COUNTER64"
    using k assms(1) by (simp add: offends_def)
  moreover have "\<forall>l<k. \<not> isSNMPExceptionValue (responses ! l) \<and> snmpTypeTag (oids ! l) \<noteq> ASN1_COUNTER64"
    using least k(1) assms(1) by (simp add: offends_def)
  ultimately show ?thesis
    using k(1) by (intro disjI1 exI [of _ k]) simp
next
  case False
  then have none: "\<not> offends v1DivertSentinelAndCounter64 (oids ! k, responses ! k)" if "k < length oids" for k
    using that assms(1) by auto
  then have "first_offence v1DivertSentinelAndCounter64 (zip oids responses) 0 = None"
    using assms(1) by (auto simp: first_offence_None in_set_zip)
  then have "createGetResponse budget oids responses data = Some (all_or_tooBig budget req (zip oids responses))"
    unfolding createGetResponse_def by (intro createVarbindResponse_tooBig [OF assms(1,2,4)]) simp_all
  moreover have "wire_tag (oids ! k) (responses ! k) \<notin> {0x80, 0x82, ASN1_COUNTER64}" if "k < length oids" for k
    using none [OF that] by (auto simp: offends_def isSNMPExceptionValue_def wire_tag_def emitted_tag_def)
  ultimately show ?thesis
    by blast
qed

theorem v1_get_representable_witness:
  "createGetResponse 1472 [''.1.3''] [valueNoSuchObject] (sample_request 0 ASN1_GET_REQUEST)
    = Some (encodeGetResponseAt (sample_req 0) (encodeVarBind ''.1.3'' encodeNull) snmpErrNoSuchName 1)"
  using v1_get_representable [of "[''.1.3'']" "[valueNoSuchObject]" "sample_request 0 ASN1_GET_REQUEST" "sample_req 0" 1472]
    sample_req_read [of 0 ASN1_GET_REQUEST]
  by (auto simp: servedPDUTag_def sample_req_def wire_tag_def valueNoSuchObject_def valueEndOfMibView_def
      dest: spec [of _ 0])

text \<open>
  C18: the manager reads back what was answered: a GET answer that fits the budget is a Response-PDU whose
  variable-bindings list parses to the requested names in order, each with the tag its value has on the wire
  and the content octets the value encoder wrote.
\<close>

theorem get_response_read_back:
  assumes "length arcss = length vals" and "\<forall>arcs\<in>set arcss. legal_arcs arcs \<and> length (oid_body arcs) \<le> 0xFFFF"
    and "parseIncomingRequest data = Some req" and "Version req = snmpVersion2c"
    and "- (2 ^ 32) \<le> RequestID req" and "RequestID req < 2 ^ 63" and "budget \<le> 65535"
    and "response_size req (concat (map varbinding (zip (map oid_text arcss) vals))) \<le> budget"
  shows "\<exists>resp p binds. createGetResponse budget (map oid_text arcss) vals data = Some resp
    \<and> int (length resp) \<le> budget \<and> getPDUType resp = Some SNMP_GET_RESPONSE
    \<and> requestVarBindListPos resp = Some (p, int (length resp), True)
    \<and> parseVarBinds resp p = Some (Some binds, concat (map varbinding (zip (map oid_text arcss) vals)), True)
    \<and> map vb_name binds = map oid_text arcss
    \<and> map vb_tag binds = map2 wire_tag (map oid_text arcss) vals
    \<and> map (\<lambda>b. [vb_tag b] @ encodeLength (int (length (vb_content b))) @ vb_content b) binds
      = map2 encodeTypedValue (map oid_text arcss) vals"
proof -
  obtain bs where bs: "map varbinding (zip (map oid_text arcss) vals) = map bind_bytes bs"
    and dec: "\<forall>b\<in>set bs. decodeOID (fst b) \<noteq> []" and names: "map vb_name (map bind_read bs) = map oid_text arcss"
    and tags: "map vb_tag (map bind_read bs) = map2 wire_tag (map oid_text arcss) vals"
    and vals: "map (\<lambda>b. ber.tlv (vb_tag b) (vb_content b)) (map bind_read bs)
      = map2 encodeTypedValue (map oid_text arcss) vals"
    using varbindings_read [OF assms(1,2)] by (elim exE conjE)
  let ?resp = "encodeGetResponseAt req (concat (map bind_bytes bs)) snmpErrNoError 0"
  have size: "int (length ?resp) \<le> budget"
    using assms(8) by (simp add: response_size_def encodeGetResponse_def bs)
  then have "length ?resp \<le> 0x7FFFFFFF"
    using assms(7) by linarith
  note read = response_list_read [OF _ _ assms(5,6) this dec]
  obtain p where "requestVarBindListPos ?resp = Some (p, int (length ?resp), True)"
    "parseVarBinds ?resp p = Some (Some (map bind_read bs), concat (map bind_bytes bs), True)"
    using read(2) assms(4) by auto
  moreover have "createGetResponse budget (map oid_text arcss) vals data = Some ?resp"
    unfolding createGetResponse_def
    by (subst createVarbindResponse_tooBig [OF _ assms(3,7)])
      (use assms(1,4,8) in \<open>simp_all add: all_or_tooBig_def encodeGetResponse_def bs\<close>)
  moreover have "getPDUType ?resp = Some SNMP_GET_RESPONSE"
    using read(1) assms(4) by simp
  ultimately show ?thesis
    using size names tags vals
    by (intro exI [of _ ?resp] exI [of _ p] exI [of _ "map bind_read bs"]) (simp add: bs ber.tlv_def)
qed

theorem get_response_read_back_witness:
  "\<exists>resp p binds. createGetResponse 1472 (map oid_text [[1, 3, 6, 1]]) [valueNoSuchObject] (sample_request 1 ASN1_GET_REQUEST)
      = Some resp
    \<and> int (length resp) \<le> 1472 \<and> getPDUType resp = Some SNMP_GET_RESPONSE
    \<and> requestVarBindListPos resp = Some (p, int (length resp), True)
    \<and> parseVarBinds resp p
      = Some (Some binds, concat (map varbinding (zip (map oid_text [[1, 3, 6, 1]]) [valueNoSuchObject])), True)
    \<and> map vb_name binds = map oid_text [[1, 3, 6, 1]]
    \<and> map vb_tag binds = map2 wire_tag (map oid_text [[1, 3, 6, 1]]) [valueNoSuchObject]
    \<and> map (\<lambda>b. [vb_tag b] @ encodeLength (int (length (vb_content b))) @ vb_content b) binds
      = map2 encodeTypedValue (map oid_text [[1, 3, 6, 1]]) [valueNoSuchObject]"
proof (rule get_response_read_back)
  show "parseIncomingRequest (sample_request 1 ASN1_GET_REQUEST) = Some (sample_req 1)"
    by (simp add: sample_req_read servedPDUTag_def)
  have "length (varbinding (oid_text [1, 3, 6, 1], valueNoSuchObject)) \<le> 64"
    by (simp add: varbinding_def ber.tlv_length encodeOID_text oid_body_small encodeTypedValue_def length_encodeLength
        valueNoSuchObject_def valueEndOfMibView_def)
  then show "response_size (sample_req 1) (concat (map varbinding (zip (map oid_text [[1, 3, 6, 1]]) [valueNoSuchObject])))
      \<le> 1472"
    by (intro sample_response_size) simp_all
qed (simp_all add: sample_req_def oid_body_small)

end
