(* ===== verification/Snmp_Echo.thy ===== *)
theory Snmp_Echo
  imports Snmp_Message
begin

text \<open>
  What the binding reader accepts depends only on the octets of the list, not on where they stand in the
  datagram. The SET response copies the request's list verbatim, and this is why a manager reads from it the
  bindings it sent, whatever encoding of lengths it chose.
\<close>

lemma at_nat: "at xs (int n) = (if n < length xs then Some (xs ! n) else None)"
  by (simp add: at_def)

lemma slice_nat:
  "slice xs (int a) (int (a + m)) = (if a + m \<le> length xs then Some (take m (drop a xs)) else None)"
  by (simp add: slice_def)

lemma at_moved:
  assumes "found data p W" and "found data' p' W" and "p \<le> i" and "i < p + int (length W)"
  shows "at data' (i + (p' - p)) = at data i"
proof -
  obtain pre post where d: "data = pre @ W @ post" "p = int (length pre)"
    using assms(1) by (auto simp: found_def)
  obtain pre' post' where d': "data' = pre' @ W @ post'" "p' = int (length pre')"
    using assms(2) by (auto simp: found_def)
  obtain k where i: "i = int (length pre) + int k" "k < length W"
    using assms(3,4) d(2) by (metis add_less_cancel_left nat_int_comparison(2) zle_iff_zadd)
  have eqs: "i + (p' - p) = int (length pre' + k)" "i = int (length pre + k)"
    using i(1) d(2) d'(2) by simp_all
  show ?thesis
    using i(2) unfolding eqs(1) unfolding eqs(2) at_nat d(1) d'(1) by (simp add: nth_append)
qed

lemma slice_moved:
  assumes "found data p W" and "found data' p' W" and "p \<le> lo" and "lo \<le> hi" and "hi \<le> p + int (length W)"
  shows "slice data' (lo + (p' - p)) (hi + (p' - p)) = slice data lo hi"
proof -
  obtain pre post where d: "data = pre @ W @ post" "p = int (length pre)"
    using assms(1) by (auto simp: found_def)
  obtain pre' post' where d': "data' = pre' @ W @ post'" "p' = int (length pre')"
    using assms(2) by (auto simp: found_def)
  obtain k where k: "lo = int (length pre) + int k"
    using assms(3) d(2) by (metis zle_iff_zadd)
  obtain m where m: "hi = int (length pre) + int k + int m"
    using assms(4) k by (metis zle_iff_zadd)
  have "k + m \<le> length W"
    using assms(5) d(2) m by simp
  moreover have eqs: "lo + (p' - p) = int (length pre' + k)" "hi + (p' - p) = int (length pre' + k + m)"
    "lo = int (length pre + k)" "hi = int (length pre + k + m)"
    using k m d(2) d'(2) by simp_all
  ultimately show ?thesis
    unfolding eqs(1,2) unfolding eqs(3,4) slice_nat d(1) d'(1) by simp
qed

lemma length_acc_moved:
  assumes "found data p W" and "found data' p' W"
  shows "p \<le> i \<Longrightarrow> i + int n \<le> p + int (length W) \<Longrightarrow> length_acc data' (i + (p' - p)) n acc = length_acc data i n acc"
proof (induction n arbitrary: i acc)
  case (Suc n)
  have "at data' (i + (p' - p)) = at data i"
    using at_moved [OF assms] Suc.prems by simp
  moreover have "length_acc data' (i + (p' - p) + 1) n a = length_acc data (i + 1) n a" for a
    using Suc.IH [of "i + 1" a] Suc.prems by (simp add: algebra_simps)
  ultimately show ?case
    by simp
qed simp

lemma parseLength_moved:
  assumes "found data p W" and "found data' p' W" and "p \<le> i"
    and "parseLength data i = Some (n, j)" and "0 \<le> n" and "j \<le> p + int (length W)"
  shows "parseLength data' (i + (p' - p)) = Some (n, j + (p' - p)) \<and> i < j"
proof -
  have le: "i < int (length data)"
    using assms(4,5) by (simp add: parseLength_def split: if_splits)
  obtain f where f: "at data i = Some f"
    using assms(4,5) le by (auto simp: parseLength_def bind_eq_Some_conv)
  have bounds: "p' + int (length W) \<le> int (length data')" "0 \<le> p'"
    using found_range [OF assms(2)] by auto
  show ?thesis
  proof (cases "f < 0x80")
    case True
    then have j: "j = i + 1" "n = uint f"
      using assms(4) le f by (auto simp: parseLength_def)
    then have "at data' (i + (p' - p)) = Some f"
      using at_moved [OF assms(1-3)] assms(6) f by simp
    then show ?thesis
      using True j assms(3,6) bounds by (simp add: parseLength_def)
  next
    case False
    let ?k = "uint (and f 0x7F)"
    have k: "?k \<noteq> 0" "?k \<le> 4" "i + 1 + ?k \<le> int (length data)" "0 \<le> ?k"
      using assms(4,5) le f False by (auto simp: parseLength_def Let_def split: if_splits)
    obtain a where a: "length_acc data (i + 1) (nat ?k) 0 = Some a" "\<not> 0x7FFFFFFF < a" "n = uint a" "j = i + 1 + ?k"
      using assms(4,5) le f False k by (auto simp: parseLength_def Let_def bind_eq_Some_conv split: if_splits)
    have "at data' (i + (p' - p)) = Some f"
      using at_moved [OF assms(1-3)] assms(6) f a(4) k(4) by simp
    moreover have "length_acc data' (i + (p' - p) + 1) (nat ?k) 0 = Some a"
      using length_acc_moved [OF assms(1,2), of "i + 1" "nat ?k" 0] assms(3,6) a(1,4) k(4) by (simp add: algebra_simps)
    moreover have "\<not> int (length data') \<le> i + (p' - p)" "\<not> int (length data') < i + (p' - p) + 1 + ?k" "i < j"
      using assms(3,6) bounds a(4) k(4) by linarith+
    ultimately show ?thesis
      using False k a unfolding parseLength_def Let_def by (simp, linarith)
  qed
qed

lemma parse_bind_moved:
  assumes "found data p W" and "found data' p' W" and "p \<le> pos" and "end = p + int (length W)"
    and "parse_bind data pos end = Some (Some (vb, q))"
  shows "parse_bind data' (pos + (p' - p)) (end + (p' - p)) = Some (Some (vb, q + (p' - p))) \<and> pos < q \<and> q \<le> end"
proof -
  obtain n a m c t k u name content where
    b: "at data pos = Some ASN1_SEQUENCE" and n: "parseLength data (pos + 1) = Some (n, a)" "0 \<le> n" "n \<le> end - a" "0 < n"
    and o: "at data a = Some ASN1_OID" and m: "parseLength data (a + 1) = Some (m, c)" "0 \<le> m" "m \<le> a + n - c"
    and name: "slice data c (c + m) = Some name" "decodeOID name \<noteq> []" "c + m < a + n"
    and t: "at data (c + m) = Some t" and k: "parseLength data (c + m + 1) = Some (k, u)" "0 \<le> k" "u + k = a + n"
    and content: "slice data u (a + n) = Some content"
    and vb: "vb = \<lparr>vb_name = decodeOID name, vb_tag = t, vb_content = content\<rparr>" "q = a + n"
    using assms(5) by (auto simp: parse_bind_def Let_def bind_eq_Some_conv not_le not_less split: if_splits)
  let ?d = "p' - p"
  note L = parseLength_moved [OF assms(1,2)]
  have 1: "parseLength data' (pos + 1 + ?d) = Some (n, a + ?d)" "pos + 1 < a"
    using L [OF _ n(1,2)] n(3,4) assms(3,4) by auto
  have 2: "parseLength data' (a + 1 + ?d) = Some (m, c + ?d)" "a + 1 < c"
    using L [OF _ m(1,2)] m(3) n(3) 1(2) assms(3,4) name(3) m(2) by auto
  have 3: "parseLength data' (c + m + 1 + ?d) = Some (k, u + ?d)" "c + m + 1 < u"
    using L [OF _ k(1,2)] k(2,3) n(3) 1(2) 2(2) assms(3,4) m(2) by auto
  have at: "at data' (pos + ?d) = Some ASN1_SEQUENCE" "at data' (a + ?d) = Some ASN1_OID" "at data' (c + m + ?d) = Some t"
    using at_moved [OF assms(1,2), of pos] at_moved [OF assms(1,2), of a] at_moved [OF assms(1,2), of "c + m"]
      b o t 1(2) 2(2) n(3,4) assms(3,4) name(3) m(2) by auto
  have sl: "slice data' (c + ?d) (c + m + ?d) = Some name" "slice data' (u + ?d) (a + n + ?d) = Some content"
    using slice_moved [OF assms(1,2), of c "c + m"] slice_moved [OF assms(1,2), of u "a + n"] name(1,3) content
      1(2) 2(2) 3(2) n(3) m(2) k(2,3) assms(3,4) by auto
  have "parse_bind data' (pos + ?d) (end + ?d)
      = Some (Some (\<lparr>vb_name = decodeOID name, vb_tag = t, vb_content = content\<rparr>, (a + ?d) + n))"
    by (rule parse_bind_steps [where q = "a + ?d" and n = n and m = m and r = "c + ?d" and k = k and u = "u + ?d"])
      (use 1 2 3 at sl n m k name in \<open>simp_all add: algebra_simps\<close>)
  then show ?thesis
    using vb n(3,4) 1(2) assms(4) by (simp add: algebra_simps)
qed

lemma binds_loop_moved:
  assumes "found data p W" and "found data' p' W" and "end = p + int (length W)"
  shows "p \<le> pos \<Longrightarrow> binds_loop data pos end acc = Some (Some bs) \<Longrightarrow>
    binds_loop data' (pos + (p' - p)) (end + (p' - p)) acc = Some (Some bs)"
proof (induction "nat (end - pos)" arbitrary: pos acc rule: less_induct)
  case less
  show ?case
  proof (cases "pos < end")
    case True
    then obtain vb q where r: "parse_bind data pos end = Some (Some (vb, q))" "binds_loop data q end (acc @ [vb]) = Some (Some bs)"
      using less.prems(2) by (subst (asm) binds_loop.simps) (auto simp: bind_eq_Some_conv split: option.splits)
    note moved = parse_bind_moved [OF assms(1,2) less.prems(1) assms(3) r(1)]
    then have "binds_loop data' (q + (p' - p)) (end + (p' - p)) (acc @ [vb]) = Some (Some bs)"
      using less.hyps [OF _ _ r(2)] less.prems(1) True by auto
    then show ?thesis
      using moved True by (subst binds_loop.simps) simp
  next
    case False
    then show ?thesis
      using less.prems(2) by (subst binds_loop.simps, subst (asm) binds_loop.simps) simp
  qed
qed

text \<open>The list with another header around the same contents.\<close>

lemma parseVarBinds_moved:
  assumes "parseVarBinds data pos = Some (Some bs, contents, True)"
    and "found data' p' (ber.tlv ASN1_SEQUENCE contents)" and "length contents \<le> 0x7FFFFFFF"
  shows "parseVarBinds data' p' = Some (Some bs, contents, True)"
proof -
  obtain n q where n: "parseLength data (pos + 1) = Some (n, q)" "n \<le> int (length data) - q" "0 \<le> n"
    and c: "slice data q (q + n) = Some contents" and loop: "binds_loop data q (q + n) [] = Some (Some bs)"
    using assms(1) by (auto simp: parseVarBinds_def Let_def bind_eq_Some_conv split: if_splits option.splits)
  have q: "0 \<le> q" "int (length contents) = n"
    using c slice_length [OF c] by (auto simp: slice_def split: if_splits)
  have "found data q contents"
  proof -
    have "contents = take (nat n) (drop (nat q) data)"
      using c q by (simp add: slice_def split: if_splits)
    then have "data = take (nat q) data @ contents @ drop (nat n) (drop (nat q) data)"
      by (metis append_take_drop_id)
    moreover have "q = int (length (take (nat q) data))"
      using n(2,3) q by simp
    ultimately show ?thesis
      unfolding found_def by blast
  qed
  note A = found_tlv [OF assms(2,3)]
  let ?b = "body_pos p' ASN1_SEQUENCE contents"
  have "binds_loop data' (q + (?b - q)) (q + n + (?b - q)) [] = Some (Some bs)"
    by (rule binds_loop_moved [OF \<open>found data q contents\<close> A(8) _ _ loop]) (simp_all add: q)
  then have loop': "binds_loop data' ?b (end_pos p' ASN1_SEQUENCE contents) [] = Some (Some bs)"
    using end_pos_fold [of p' ASN1_SEQUENCE contents] q by (simp add: add.commute)
  have "\<not> int (length data') - ?b < int (length contents)"
    using A(10) end_pos_fold [of p' ASN1_SEQUENCE contents] by linarith
  then show ?thesis
    unfolding parseVarBinds_def Let_def using A(2,6,9) loop' by simp
qed

end
