(* ===== verification/If_State.thy ===== *)
theory If_State
  imports Go_Prelude
begin

text \<open>
  The interface state engine of \<^verbatim>\<open>interface_state.go\<close>: one packed 64-bit word per interface with its link
  state, admin status and last-change time, the derived oper status, the two mutators with their cascade to
  subinterfaces, and the listener fan-out.

  \<^item> A mutator is modelled as one atomic step and takes the reading of the clock, \<open>now\<close> (nanoseconds since
    the Unix epoch), as an argument. Theory If_Cas shows that the compare-and-swap loops of the code reach
    only such steps.
  \<^item> \<open>None\<close> is a run-time panic. A nil table is \<open>None\<close> in its field.
  \<^item> \<open>topoGen\<close> is the generation of \<^verbatim>\<open>manager.topology\<close> that \<^verbatim>\<open>invalidateLLDPServedCache\<close> bumps, absent without a
    topology. The hooks \<^verbatim>\<open>onOper\<close> and \<^verbatim>\<open>notify\<close> are modelled by whether they are installed, and their
    calls by the trace \<^verbatim>\<open>Broadcast\<close> returns.
\<close>

unbundle bit_operations_syntax

section \<open>Values\<close>

type_synonym u64 = "64 word"

abbreviation (input) OperUp :: byte where "OperUp \<equiv> 1"
abbreviation (input) OperDown :: byte where "OperDown \<equiv> 2"
abbreviation (input) OperTesting :: byte where "OperTesting \<equiv> 3"
abbreviation (input) OperUnknown :: byte where "OperUnknown \<equiv> 4"
abbreviation (input) OperDormant :: byte where "OperDormant \<equiv> 5"
abbreviation (input) OperNotPresent :: byte where "OperNotPresent \<equiv> 6"
abbreviation (input) OperLowerLayerDn :: byte where "OperLowerLayerDn \<equiv> 7"

abbreviation (input) AdminUp :: byte where "AdminUp \<equiv> 1"
abbreviation (input) AdminDown :: byte where "AdminDown \<equiv> 2"
abbreviation (input) AdminTesting :: byte where "AdminTesting \<equiv> 3"

abbreviation (input) LeafOperStatus :: byte where "LeafOperStatus \<equiv> 1"
abbreviation (input) LeafAdminStatus :: byte where "LeafAdminStatus \<equiv> 2"

definition LastChangeRewindSentinel :: u64 where
  "LastChangeRewindSentinel = - 1"

definition linkStateMask :: u64 where "linkStateMask = 2 ^ 3 - 1"

definition adminStatusMask :: u64 where "adminStatusMask = 2 ^ 3 - 1"

definition lastChangeMask :: u64 where "lastChangeMask = 2 ^ 58 - 1"

record StateChange =
  IfIndex :: int
  Oper :: byte
  PrevOper :: byte
  Admin :: byte
  Link :: byte
  ev_LastChangeNs :: u64
  Changed :: byte
  At :: int

section \<open>Packing\<close>

definition wallRelNs :: "u64 \<Rightarrow> u64 \<Rightarrow> u64" where
  "wallRelNs nowWallNs bootWallNs =
     (if nowWallNs < bootWallNs then lastChangeMask else (nowWallNs - bootWallNs) AND lastChangeMask)"

definition lastChangeAbs :: "u64 \<Rightarrow> u64 \<Rightarrow> u64" where
  "lastChangeAbs bootTimeUnixNs relNs =
     (if relNs = lastChangeMask then LastChangeRewindSentinel else bootTimeUnixNs + relNs)"

definition packState :: "byte \<Rightarrow> byte \<Rightarrow> u64 \<Rightarrow> u64" where
  "packState link admin lastChangeNs =
     (ucast link AND linkStateMask) OR push_bit 3 (ucast admin AND adminStatusMask)
     OR push_bit 6 (lastChangeNs AND lastChangeMask)"

definition unpackState :: "u64 \<Rightarrow> byte \<times> byte \<times> u64" where
  "unpackState w =
     (ucast (w AND linkStateMask), ucast (drop_bit 3 w AND adminStatusMask), drop_bit 6 w AND lastChangeMask)"

definition normaliseSlot :: "byte \<Rightarrow> byte \<Rightarrow> byte \<times> byte" where
  "normaliseSlot link admin =
     (if link = 0 then OperUnknown else link, if admin = 0 then AdminUp else admin)"

section \<open>The derived status\<close>

definition deriveOper :: "byte \<Rightarrow> byte \<Rightarrow> byte" where
  "deriveOper admin link =
     (if admin = AdminDown then OperDown else if admin = AdminTesting then OperTesting else link)"

definition deriveChildOper :: "byte \<Rightarrow> byte \<Rightarrow> byte \<Rightarrow> byte" where
  "deriveChildOper admin link parentOper =
     (let oper = deriveOper admin link
      in if oper = OperUp \<and> parentOper \<noteq> OperUp then OperLowerLayerDn else oper)"

section \<open>The engine\<close>

text \<open>A listener channel: capacity, buffered events (oldest first), whether its owner closed it, and
  its own loss counter.\<close>

record listener =
  ch_id :: nat
  ch_cap :: nat
  ch_buf :: "StateChange list"
  ch_closed :: bool
  ch_drops :: "u64 option"

record InterfaceState =
  slots :: "u64 list"
  maxIfIndex :: int
  bootTimeUnixNs :: u64
  parent :: "int list option"
  children :: "int list list option"
  loopback :: "bool list option"
  stacked :: "bool list option"
  listeners :: "listener list"
  eventsEmitted :: "u64 option"
  eventsDropped :: "u64 option"
  onOper :: bool
  notify :: bool
  topoGen :: "u64 option"

definition newInterfaceStateWithClock ::
  "int \<Rightarrow> u64 option \<Rightarrow> u64 option \<Rightarrow> int \<Rightarrow> u64 option \<Rightarrow> InterfaceState option" where
  "newInterfaceStateWithClock maxIf emitted dropped now gen =
     (if maxIf < 1 then None
      else Some \<lparr>slots = replicate (nat maxIf) 0, maxIfIndex = maxIf, bootTimeUnixNs = word_of_int now,
        parent = None, children = None, loopback = None, stacked = None, listeners = [],
        eventsEmitted = emitted, eventsDropped = dropped, onOper = False, notify = False, topoGen = gen\<rparr>)"

definition store :: "InterfaceState \<Rightarrow> int \<Rightarrow> u64 \<Rightarrow> InterfaceState" where
  "store s slot w = s\<lparr>slots := (slots s)[nat slot := w]\<rparr>"

definition invalidateLLDPServedCache :: "InterfaceState \<Rightarrow> InterfaceState" where
  "invalidateLLDPServedCache s = s\<lparr>topoGen := map_option (\<lambda>g. g + 1) (topoGen s)\<rparr>"

definition Seed :: "InterfaceState \<Rightarrow> int \<Rightarrow> byte \<Rightarrow> byte \<Rightarrow> InterfaceState" where
  "Seed s ifIndex link admin =
     (let slot = ifIndex - 1
      in if slot < 0 \<or> maxIfIndex s \<le> slot then s
         else if link < OperUp \<or> OperLowerLayerDn < link then s
         else if admin < AdminUp \<or> AdminTesting < admin then s
         else store s slot (packState link admin 0))"

text \<open>The loop of \<^verbatim>\<open>setParents\<close> over the sorted children.\<close>

fun parents_loop ::
  "int \<Rightarrow> (int \<Rightarrow> int) \<Rightarrow> int list \<Rightarrow> int list \<times> int list list \<Rightarrow> int list \<times> int list list" where
  "parents_loop maxIf parents [] tabs = tabs"
| "parents_loop maxIf parents (c # kids) (par, chi) =
     (let p = parents c
      in if c < 1 \<or> maxIf < c \<or> p < 1 \<or> maxIf < p then parents_loop maxIf parents kids (par, chi)
         else parents_loop maxIf parents kids
           (par[nat (c - 1) := p], chi[nat (p - 1) := chi ! nat (p - 1) @ [c]]))"

text \<open>A Go map is an association list with distinct keys; a missing key reads as zero.\<close>

definition setParents :: "InterfaceState \<Rightarrow> (int \<times> int) list \<Rightarrow> InterfaceState" where
  "setParents s parents =
     (if parents = [] then s
      else let kids = sort (map fst parents);
               (par, chi) = parents_loop (maxIfIndex s) (\<lambda>c. case map_of parents c of Some p \<Rightarrow> p | None \<Rightarrow> 0) kids
                 (replicate (nat (maxIfIndex s)) 0, replicate (nat (maxIfIndex s)) [])
           in s\<lparr>parent := Some par, children := Some chi\<rparr>)"

definition Parent :: "InterfaceState option \<Rightarrow> int \<Rightarrow> int option" where
  "Parent s ifIndex =
     (case s of None \<Rightarrow> Some 0
      | Some s \<Rightarrow>
          (case parent s of None \<Rightarrow> Some 0
           | Some par \<Rightarrow> if ifIndex < 1 \<or> maxIfIndex s < ifIndex then Some 0 else at par (ifIndex - 1)))"

fun mark_all :: "int \<Rightarrow> int list \<Rightarrow> bool list \<Rightarrow> bool list" where
  "mark_all maxIf [] flags = flags"
| "mark_all maxIf (i # is) flags =
     mark_all maxIf is (if 1 \<le> i \<and> i \<le> maxIf then flags[nat (i - 1) := True] else flags)"

text \<open>The keys of the argument map, in any order; the code ignores the values.\<close>

definition setLoopbacks :: "InterfaceState \<Rightarrow> int list \<Rightarrow> InterfaceState" where
  "setLoopbacks s keys =
     (if keys = [] then s
      else s\<lparr>loopback := Some (mark_all (maxIfIndex s) keys (replicate (nat (maxIfIndex s)) False))\<rparr>)"

definition setStacked :: "InterfaceState \<Rightarrow> int list \<Rightarrow> InterfaceState" where
  "setStacked s keys =
     (if keys = [] then s
      else s\<lparr>stacked := Some (mark_all (maxIfIndex s) keys (replicate (nat (maxIfIndex s)) False))\<rparr>)"

definition NamedSubinterface :: "InterfaceState option \<Rightarrow> int \<Rightarrow> bool option" where
  "NamedSubinterface s ifIndex = do {
     p \<leftarrow> Parent s ifIndex;
     if p = 0 then Some False
     else (case s of None \<Rightarrow> None
           | Some s \<Rightarrow> (case stacked s of None \<Rightarrow> Some True
                       | Some st \<Rightarrow> map_option Not (at st (ifIndex - 1)))) }"

definition Linkless :: "InterfaceState option \<Rightarrow> int \<Rightarrow> bool option" where
  "Linkless s ifIndex = do {
     p \<leftarrow> Parent s ifIndex;
     if p \<noteq> 0 then Some True
     else (case s of None \<Rightarrow> Some False
           | Some s \<Rightarrow> (case loopback s of None \<Rightarrow> Some False
                       | Some lb \<Rightarrow> if 1 \<le> ifIndex \<and> ifIndex \<le> maxIfIndex s then at lb (ifIndex - 1)
                                   else Some False)) }"

section \<open>Readers\<close>

definition parentOper :: "InterfaceState \<Rightarrow> int \<Rightarrow> byte option" where
  "parentOper s slot =
     (case parent s of None \<Rightarrow> Some OperUp
      | Some par \<Rightarrow> do {
          p \<leftarrow> at par slot;
          if p = 0 then Some OperUp
          else do {
            w \<leftarrow> at (slots s) (p - 1);
            let (link, admin, _) = unpackState w;
            let (link, admin) = normaliseSlot link admin;
            Some (deriveOper admin link) } })"



definition LinkState :: "InterfaceState \<Rightarrow> int \<Rightarrow> byte option" where
  "LinkState s ifIndex =
     (let slot = ifIndex - 1
      in if slot < 0 \<or> maxIfIndex s \<le> slot then Some OperUnknown
         else do {
           w \<leftarrow> at (slots s) slot;
           let (link, _, _) = unpackState w;
           if link = 0 then Some OperUnknown else Some link })"

definition OperStatus :: "InterfaceState \<Rightarrow> int \<Rightarrow> byte option" where
  "OperStatus s ifIndex =
     (let slot = ifIndex - 1
      in if slot < 0 \<or> maxIfIndex s \<le> slot then Some OperUnknown
         else do {
           w \<leftarrow> at (slots s) slot;
           let (link, admin, _) = unpackState w;
           let (link, admin) = normaliseSlot link admin;
           pOper \<leftarrow> parentOper s slot;
           Some (deriveChildOper admin link pOper) })"

definition AdminStatus :: "InterfaceState \<Rightarrow> int \<Rightarrow> byte option" where
  "AdminStatus s ifIndex =
     (let slot = ifIndex - 1
      in if slot < 0 \<or> maxIfIndex s \<le> slot then Some AdminUp
         else do {
           w \<leftarrow> at (slots s) slot;
           let (_, admin, _) = unpackState w;
           if admin = 0 then Some AdminUp else Some admin })"

definition LastChangeNs :: "InterfaceState \<Rightarrow> int \<Rightarrow> u64 option" where
  "LastChangeNs s ifIndex =
     (let slot = ifIndex - 1
      in if slot < 0 \<or> maxIfIndex s \<le> slot then Some 0
         else do {
           w \<leftarrow> at (slots s) slot;
           let (_, _, rel) = unpackState w;
           if rel = lastChangeMask then Some LastChangeRewindSentinel
           else Some (bootTimeUnixNs s + rel) })"

section \<open>Mutators\<close>

datatype LinkMutation = LinkUnchanged | LinkMovedMasked | LinkMovedVisible

text \<open>The walk over the children of an interface that moved: the engine and the events so far.\<close>

fun cascade_loop ::
  "InterfaceState \<Rightarrow> int list \<Rightarrow> byte \<Rightarrow> byte \<Rightarrow> int \<Rightarrow> u64 \<Rightarrow> StateChange list
   \<Rightarrow> (InterfaceState \<times> StateChange list) option" where
  "cascade_loop s [] wasParent nowParent time relNs out = Some (s, out)"
| "cascade_loop s (c # cs) wasParent nowParent time relNs out = do {
     let slot = c - 1;
     cur \<leftarrow> at (slots s) slot;
     let (link, admin, _) = unpackState cur;
     let (link, admin) = normaliseSlot link admin;
     let was = deriveChildOper admin link wasParent;
     let now = deriveChildOper admin link nowParent;
     if was = now then cascade_loop s cs wasParent nowParent time relNs out
     else cascade_loop (store s slot (packState link admin relNs)) cs wasParent nowParent time relNs
       (out @ [\<lparr>IfIndex = c, Oper = now, PrevOper = was, Admin = admin, Link = link,
         ev_LastChangeNs = lastChangeAbs (bootTimeUnixNs s) relNs, Changed = LeafOperStatus, At = time\<rparr>]) }"

definition cascadeChildren ::
  "InterfaceState \<Rightarrow> int \<Rightarrow> byte \<Rightarrow> byte \<Rightarrow> int \<Rightarrow> u64 \<Rightarrow> (InterfaceState \<times> StateChange list) option" where
  "cascadeChildren s slot wasParent nowParent time relNs =
     (case children s of None \<Rightarrow> Some (s, [])
      | Some chi \<Rightarrow> do {
          cs \<leftarrow> at chi slot;
          cascade_loop s cs wasParent nowParent time relNs [] })"

definition SetLinkState ::
  "InterfaceState \<Rightarrow> int \<Rightarrow> int \<Rightarrow> byte \<Rightarrow> (InterfaceState \<times> LinkMutation \<times> StateChange list) option" where
  "SetLinkState s now ifIndex newLink =
     (let slot = ifIndex - 1
      in if slot < 0 \<or> maxIfIndex s \<le> slot then Some (s, LinkUnchanged, [])
         else if newLink < OperUp \<or> OperLowerLayerDn < newLink then Some (s, LinkUnchanged, [])
         else do {
           cur \<leftarrow> at (slots s) slot;
           let (curLink, curAdmin, curRel) = unpackState cur;
           let (curLink, curAdmin) = normaliseSlot curLink curAdmin;
           if curLink = newLink then Some (s, LinkUnchanged, [])
           else do {
             pOper \<leftarrow> parentOper s slot;
             let wasOper = deriveChildOper curAdmin curLink pOper;
             let nowOper = deriveChildOper curAdmin newLink pOper;
             if wasOper = nowOper
             then Some (store s slot (packState newLink curAdmin curRel), LinkMovedMasked, [])
             else do {
               let relNs = wallRelNs (word_of_int now) (bootTimeUnixNs s);
               let s' = invalidateLLDPServedCache (store s slot (packState newLink curAdmin relNs));
               let evts = [\<lparr>IfIndex = ifIndex, Oper = nowOper, PrevOper = wasOper, Admin = curAdmin, Link = newLink,
                 ev_LastChangeNs = lastChangeAbs (bootTimeUnixNs s) relNs, Changed = LeafOperStatus, At = now\<rparr>];
               (s'', more_evts) \<leftarrow> cascadeChildren s' slot wasOper nowOper now relNs;
               Some (s'', LinkMovedVisible, evts @ more_evts) } } })"

definition setAdminLeaf ::
  "InterfaceState \<Rightarrow> int \<Rightarrow> int \<Rightarrow> byte \<Rightarrow> (InterfaceState \<times> StateChange list) option" where
  "setAdminLeaf s now ifIndex newVal =
     (let slot = ifIndex - 1
      in if slot < 0 \<or> maxIfIndex s \<le> slot then Some (s, [])
         else if newVal < AdminUp \<or> AdminTesting < newVal then Some (s, [])
         else do {
           cur \<leftarrow> at (slots s) slot;
           let (curLink, curAdmin, curRel) = unpackState cur;
           let (curLink, curAdmin) = normaliseSlot curLink curAdmin;
           if curAdmin = newVal then Some (s, [])
           else do {
             pOper \<leftarrow> parentOper s slot;
             let wasOper = deriveChildOper curAdmin curLink pOper;
             let nowOper = deriveChildOper newVal curLink pOper;
             let operMoved = (wasOper \<noteq> nowOper);
             let relNs = (if operMoved then wallRelNs (word_of_int now) (bootTimeUnixNs s) else curRel);
             let s' = store s slot (packState curLink newVal relNs);
             let evts = [\<lparr>IfIndex = ifIndex, Oper = nowOper, PrevOper = wasOper, Admin = newVal, Link = curLink,
               ev_LastChangeNs = lastChangeAbs (bootTimeUnixNs s) relNs, Changed = LeafAdminStatus, At = now\<rparr>];
             if operMoved then do {
               let s' = invalidateLLDPServedCache s';
               let evts = evts @ [\<lparr>IfIndex = ifIndex, Oper = nowOper, PrevOper = wasOper, Admin = newVal,
                 Link = curLink, ev_LastChangeNs = lastChangeAbs (bootTimeUnixNs s) relNs,
                 Changed = LeafOperStatus, At = now\<rparr>];
               (s'', more_evts) \<leftarrow> cascadeChildren s' slot wasOper nowOper now relNs;
               Some (s'', evts @ more_evts) }
             else Some (s', evts) } })"

definition ApplyAdminStatus ::
  "InterfaceState \<Rightarrow> int \<Rightarrow> int \<Rightarrow> byte \<Rightarrow> (InterfaceState \<times> StateChange list) option" where
  "ApplyAdminStatus s now ifIndex target = setAdminLeaf s now ifIndex target"

section \<open>Listeners\<close>

definition AddListenerCounting :: "InterfaceState \<Rightarrow> listener \<Rightarrow> InterfaceState" where
  "AddListenerCounting s ch =
     (if ch_cap ch = 0 then s
      else s\<lparr>listeners := filter (\<lambda>l. ch_id l \<noteq> ch_id ch) (listeners s) @ [ch]\<rparr>)"

definition AddListener :: "InterfaceState \<Rightarrow> listener \<Rightarrow> InterfaceState" where
  "AddListener s ch = AddListenerCounting s (ch\<lparr>ch_drops := None\<rparr>)"

definition RemoveListener :: "InterfaceState \<Rightarrow> nat \<Rightarrow> InterfaceState" where
  "RemoveListener s ident = s\<lparr>listeners := filter (\<lambda>l. ch_id l \<noteq> ident) (listeners s)\<rparr>"

definition SetCounters :: "InterfaceState \<Rightarrow> u64 option \<Rightarrow> u64 option \<Rightarrow> InterfaceState" where
  "SetCounters s emitted dropped = s\<lparr>eventsEmitted := emitted, eventsDropped := dropped\<rparr>"

definition SetNotify :: "InterfaceState \<Rightarrow> bool \<Rightarrow> InterfaceState" where
  "SetNotify s fn = s\<lparr>notify := fn\<rparr>"

definition setOperHook :: "InterfaceState \<Rightarrow> bool \<Rightarrow> InterfaceState" where
  "setOperHook s fn = s\<lparr>onOper := fn\<rparr>"

text \<open>
  One call of the function passed to \<^verbatim>\<open>listeners.Range\<close>: the channel after it, the events emitted and
  dropped, and the function's result. A send to a closed channel panics; the deferred \<^verbatim>\<open>recover\<close> catches it
  and the function, whose result is unnamed, returns its zero value \<open>False\<close>, which ends the iteration.
\<close>

definition send_to :: "StateChange \<Rightarrow> listener \<Rightarrow> listener \<times> u64 \<times> u64 \<times> bool" where
  "send_to evt l =
     (if ch_closed l then (l, 0, 0, False)
      else if length (ch_buf l) < ch_cap l then (l\<lparr>ch_buf := ch_buf l @ [evt]\<rparr>, 1, 0, True)
      else
        let (l, d) = (case ch_buf l of [] \<Rightarrow> (l, 0)
              | _ # rest \<Rightarrow> (l\<lparr>ch_buf := rest, ch_drops := map_option (\<lambda>n. n + 1) (ch_drops l)\<rparr>, 1))
        in if length (ch_buf l) < ch_cap l then (l\<lparr>ch_buf := ch_buf l @ [evt]\<rparr>, 1, d, True)
           else (l\<lparr>ch_drops := map_option (\<lambda>n. n + 1) (ch_drops l)\<rparr>, 0, d + 1, True))"

fun send_all :: "StateChange \<Rightarrow> listener list \<Rightarrow> listener list \<times> u64 \<times> u64" where
  "send_all evt [] = ([], 0, 0)"
| "send_all evt (l # ls) =
     (let (l', e, d, go) = send_to evt l
      in if go then (let (ls', e', d') = send_all evt ls in (l' # ls', e + e', d + d'))
         else (l' # ls, e, d))"

datatype HookCall = OnOperHook int | NotifyHook StateChange

definition Broadcast :: "InterfaceState \<Rightarrow> StateChange \<Rightarrow> InterfaceState \<times> HookCall list" where
  "Broadcast s evt =
     (if Changed evt = 0 then (s, [])
      else
        let oper = (Changed evt AND LeafOperStatus \<noteq> 0);
            before = (if oper \<and> onOper s then [OnOperHook (IfIndex evt)] else []);
            (ls, e, d) = send_all evt (listeners s);
            s = s\<lparr>listeners := ls, eventsEmitted := map_option (\<lambda>n. n + e) (eventsEmitted s),
              eventsDropped := map_option (\<lambda>n. n + d) (eventsDropped s)\<rparr>;
            after = (if oper \<and> notify s then [NotifyHook evt] else [])
        in (s, before @ after))"

section \<open>One slot\<close>

lemma state_masks:
  "linkStateMask = mask 3" "adminStatusMask = mask 3" "lastChangeMask = mask 58"
  by (simp_all add: linkStateMask_def adminStatusMask_def lastChangeMask_def mask_eq_exp_minus_1)

lemma unpack_pack: "unpackState (packState l a r) = (l AND 7, a AND 7, r AND lastChangeMask)"
proof -
  have seven: "(7 :: byte) = mask 3"
    by (simp add: mask_eq_exp_minus_1)
  have "(ucast (packState l a r AND linkStateMask) :: byte) = l AND 7"
    unfolding seven state_masks packState_def
    by (rule bit_word_eqI) (auto simp: bit_simps)
  moreover have "(ucast (drop_bit 3 (packState l a r) AND adminStatusMask) :: byte) = a AND 7"
    unfolding seven state_masks packState_def
    by (rule bit_word_eqI) (auto simp: bit_simps)
  moreover have "drop_bit 6 (packState l a r) AND lastChangeMask = r AND lastChangeMask"
    unfolding state_masks packState_def
    by (rule bit_word_eqI) (auto simp: bit_simps)
  ultimately show ?thesis
    by (simp add: unpackState_def)
qed

lemma pack_unpack: "(case unpackState w of (l, a, r) \<Rightarrow> packState l a r) = w"
  unfolding unpackState_def packState_def state_masks prod.case
  apply (rule bit_word_eqI)
  subgoal for n
    by (cases "6 \<le> n") (auto simp: bit_simps)
  done

lemma byte_and_7: "(x :: byte) \<le> 7 \<Longrightarrow> x AND 7 = x"
proof -
  assume "x \<le> 7"
  then have "unat x < 2 ^ 3"
    by (simp add: word_le_nat_alt)
  then have "unat (take_bit 3 x) = unat x"
    by (simp add: unsigned_take_bit_eq take_bit_nat_eq_self)
  then have "take_bit 3 x = x"
    by (simp only: word_unat_eq_iff)
  then show ?thesis
    by (simp add: take_bit_eq_mask mask_eq_exp_minus_1)
qed

lemma unpack_link_le: "fst (unpackState w) \<le> 7"
proof -
  have "(7 :: byte) = mask 3"
    by (simp add: mask_eq_exp_minus_1)
  moreover have "fst (unpackState w) = ucast w AND mask 3"
    unfolding unpackState_def state_masks fst_conv by (rule bit_word_eqI) (auto simp: bit_simps)
  ultimately show ?thesis
    by (simp add: word_and_le1)
qed

lemma wallRelNs_masked: "wallRelNs a b AND lastChangeMask = wallRelNs a b"
  by (simp add: wallRelNs_def and.assoc)

lemma unpack_rel_masked: "snd (snd (unpackState w)) AND lastChangeMask = snd (snd (unpackState w))"
  by (simp add: unpackState_def and.assoc)

section \<open>The engine as the observers see it\<close>

text \<open>The normalised content of a slot, and the hierarchy tables with their nil case.\<close>

definition vw :: "InterfaceState \<Rightarrow> int \<Rightarrow> byte \<times> byte \<times> u64" where
  "vw s j = (case unpackState (slots s ! nat (j - 1)) of (l, a, r) \<Rightarrow>
     (fst (normaliseSlot l a), snd (normaliseSlot l a), r))"

definition par :: "InterfaceState \<Rightarrow> int \<Rightarrow> int" where
  "par s j = (case parent s of None \<Rightarrow> 0 | Some p \<Rightarrow> p ! nat (j - 1))"

definition kids :: "InterfaceState \<Rightarrow> int \<Rightarrow> int list" where
  "kids s i = (case children s of None \<Rightarrow> [] | Some c \<Rightarrow> c ! nat (i - 1))"

definition known :: "InterfaceState \<Rightarrow> int \<Rightarrow> bool" where
  "known s j \<longleftrightarrow> 1 \<le> j \<and> j \<le> maxIfIndex s"

definition sized :: "'a list option \<Rightarrow> int \<Rightarrow> bool" where
  "sized t n \<longleftrightarrow> (case t of None \<Rightarrow> True | Some xs \<Rightarrow> int (length xs) = n)"

text \<open>
  The invariant: the tables have the engine's size, the hierarchy has one level and the two tables agree on
  it, and every stored admin status is an IF-MIB value or unset.
\<close>

definition hierarchy :: "InterfaceState \<Rightarrow> bool" where
  "hierarchy s \<longleftrightarrow> (\<forall>j. known s j \<longrightarrow> par s j = 0 \<or> known s (par s j) \<and> par s (par s j) = 0)
     \<and> (\<forall>i. known s i \<longrightarrow> distinct (kids s i) \<and> set (kids s i) = {j. known s j \<and> par s j = i})"

definition wf_engine :: "InterfaceState \<Rightarrow> bool" where
  "wf_engine s \<longleftrightarrow> int (length (slots s)) = maxIfIndex s
     \<and> sized (parent s) (maxIfIndex s) \<and> sized (children s) (maxIfIndex s)
     \<and> sized (loopback s) (maxIfIndex s) \<and> sized (stacked s) (maxIfIndex s)
     \<and> hierarchy s \<and> (\<forall>w\<in>set (slots s). fst (snd (unpackState w)) \<le> 3)"

text \<open>The observable status over any assignment \<open>A\<close> of slot contents.\<close>

definition up_oper :: "(int \<Rightarrow> int) \<Rightarrow> (int \<Rightarrow> byte \<times> byte \<times> u64) \<Rightarrow> int \<Rightarrow> byte" where
  "up_oper pa A j = (if pa j = 0 then OperUp else (case A (pa j) of (l, a, _) \<Rightarrow> deriveOper a l))"

definition oper_of :: "(int \<Rightarrow> int) \<Rightarrow> (int \<Rightarrow> byte \<times> byte \<times> u64) \<Rightarrow> int \<Rightarrow> byte" where
  "oper_of pa A j = (case A j of (l, a, _) \<Rightarrow> deriveChildOper a l (up_oper pa A j))"

lemma at_slot: "wf_engine s \<Longrightarrow> known s j \<Longrightarrow> at (slots s) (j - 1) = Some (slots s ! nat (j - 1))"
  by (simp add: wf_engine_def known_def at_def)

lemma at_parent: "wf_engine s \<Longrightarrow> known s j \<Longrightarrow> parent s = Some p \<Longrightarrow> at p (j - 1) = Some (par s j)"
  by (simp add: wf_engine_def known_def at_def sized_def par_def)

lemma parent_known: "wf_engine s \<Longrightarrow> known s j \<Longrightarrow> par s j \<noteq> 0 \<Longrightarrow> known s (par s j) \<and> par s (par s j) = 0"
  by (auto simp: wf_engine_def hierarchy_def)

lemma kids_iff: "wf_engine s \<Longrightarrow> known s i \<Longrightarrow> c \<in> set (kids s i) \<longleftrightarrow> known s c \<and> par s c = i"
  by (simp add: wf_engine_def hierarchy_def)

lemma kids_distinct: "wf_engine s \<Longrightarrow> known s i \<Longrightarrow> distinct (kids s i)"
  by (simp add: wf_engine_def hierarchy_def)

lemma parentOper_eq: "wf_engine s \<Longrightarrow> known s j \<Longrightarrow> parentOper s (j - 1) = Some (up_oper (par s) (vw s) j)"
  using parent_known [of s j] at_parent [of s j] at_slot [of s "par s j"]
  by (cases "parent s")
    (auto simp: parentOper_def up_oper_def par_def [of s] vw_def split: prod.splits)

lemma OperStatus_eq: "wf_engine s \<Longrightarrow> known s j \<Longrightarrow> OperStatus s j = Some (oper_of (par s) (vw s) j)"
  by (auto simp: OperStatus_def at_slot parentOper_eq oper_of_def vw_def known_def split: prod.splits)

lemma AdminStatus_eq: "wf_engine s \<Longrightarrow> known s j \<Longrightarrow> AdminStatus s j = Some (fst (snd (vw s j)))"
  by (auto simp: AdminStatus_def at_slot vw_def known_def normaliseSlot_def split: prod.splits)

lemma LinkState_eq: "wf_engine s \<Longrightarrow> known s j \<Longrightarrow> LinkState s j = Some (fst (vw s j))"
  by (auto simp: LinkState_def at_slot vw_def known_def normaliseSlot_def split: prod.splits)

lemma LastChangeNs_eq:
  "wf_engine s \<Longrightarrow> known s j \<Longrightarrow> LastChangeNs s j = Some (lastChangeAbs (bootTimeUnixNs s) (snd (snd (vw s j))))"
  by (auto simp: LastChangeNs_def at_slot vw_def known_def lastChangeAbs_def split: prod.splits)


section \<open>Stores\<close>

lemma store_fields [simp]:
  "maxIfIndex (store s k w) = maxIfIndex s" "parent (store s k w) = parent s" "children (store s k w) = children s"
  "loopback (store s k w) = loopback s" "stacked (store s k w) = stacked s" "listeners (store s k w) = listeners s"
  "bootTimeUnixNs (store s k w) = bootTimeUnixNs s" "par (store s k w) = par s" "kids (store s k w) = kids s"
  "known (store s k w) = known s" "length (slots (store s k w)) = length (slots s)"
  by (simp_all add: store_def par_def kids_def known_def fun_eq_iff)

lemma invalidate_fields [simp]:
  "slots (invalidateLLDPServedCache s) = slots s"
  "maxIfIndex (invalidateLLDPServedCache s) = maxIfIndex s" "parent (invalidateLLDPServedCache s) = parent s"
  "children (invalidateLLDPServedCache s) = children s" "loopback (invalidateLLDPServedCache s) = loopback s"
  "stacked (invalidateLLDPServedCache s) = stacked s" "bootTimeUnixNs (invalidateLLDPServedCache s) = bootTimeUnixNs s"
  "par (invalidateLLDPServedCache s) = par s" "kids (invalidateLLDPServedCache s) = kids s"
  "known (invalidateLLDPServedCache s) = known s" "vw (invalidateLLDPServedCache s) = vw s"
  by (simp_all add: invalidateLLDPServedCache_def par_def kids_def known_def vw_def fun_eq_iff)

lemma invalidate_wf [simp]: "wf_engine (invalidateLLDPServedCache s) = wf_engine s"
  by (simp add: wf_engine_def hierarchy_def)

text \<open>Everything but the slots.\<close>

definition rest_of :: "InterfaceState \<Rightarrow> InterfaceState" where
  "rest_of s = s\<lparr>slots := []\<rparr>"

lemma rest_of_store [simp]: "rest_of (store s k w) = rest_of s"
  by (simp add: rest_of_def store_def)

lemma rest_of_invalidate:
  "rest_of s = rest_of t \<Longrightarrow> rest_of (invalidateLLDPServedCache s) = rest_of (invalidateLLDPServedCache t)"
  by (cases s; cases t) (simp add: rest_of_def invalidateLLDPServedCache_def)

lemma rest_of_eqD:
  assumes "rest_of s = rest_of t"
  shows "maxIfIndex s = maxIfIndex t" "bootTimeUnixNs s = bootTimeUnixNs t" "par s = par t" "kids s = kids t"
    "known s = known t" "listeners s = listeners t" "topoGen s = topoGen t"
  using assms by (cases s; cases t; simp add: rest_of_def par_def kids_def known_def fun_eq_iff)+

text \<open>\<open>legal l a\<close>: values a slot may be written with.\<close>

definition legal :: "byte \<Rightarrow> byte \<Rightarrow> bool" where
  "legal l a \<longleftrightarrow> l \<noteq> 0 \<and> l \<le> 7 \<and> a \<noteq> 0 \<and> a \<le> 3"

lemma legal_unpack: "legal l a \<Longrightarrow> unpackState (packState l a r) = (l, a, r AND lastChangeMask)"
  using order_trans [of a 3 7] by (simp add: legal_def unpack_pack byte_and_7)

lemma vw_legal:
  assumes "wf_engine s" and "known s j"
  shows "legal (fst (vw s j)) (fst (snd (vw s j)))"
proof -
  have "slots s ! nat (j - 1) \<in> set (slots s)"
    using assms by (intro nth_mem) (auto simp: wf_engine_def known_def)
  then have "fst (snd (unpackState (slots s ! nat (j - 1)))) \<le> 3"
    using assms(1) by (auto simp: wf_engine_def)
  then show ?thesis
    using unpack_link_le [of "slots s ! nat (j - 1)"]
    by (auto simp: legal_def vw_def normaliseSlot_def split: prod.splits)
qed

lemma vw_rel_masked: "snd (snd (vw s j)) AND lastChangeMask = snd (snd (vw s j))"
  using unpack_rel_masked [of "slots s ! nat (j - 1)"] by (auto simp: vw_def split: prod.splits)

lemma vw_store:
  assumes "wf_engine s" and "known s i" and "known s j" and "legal l a"
  shows "vw (store s (i - 1) (packState l a r)) j = (if j = i then (l, a, r AND lastChangeMask) else vw s j)"
proof -
  have "nat (j - 1) = nat (i - 1) \<longleftrightarrow> j = i" "nat (i - 1) < length (slots s)"
    using assms(1-3) by (auto simp: known_def wf_engine_def)
  then show ?thesis
    using assms(4) legal_unpack [OF assms(4), of r]
    by (auto simp: vw_def store_def nth_list_update normaliseSlot_def legal_def)
qed

lemma wf_store:
  assumes "wf_engine s" and "legal l a"
  shows "wf_engine (store s k (packState l a r))"
proof -
  have "fst (snd (unpackState w)) \<le> 3" if "w \<in> set (slots (store s k (packState l a r)))" for w
    using that assms set_update_subset_insert [of "slots s" "nat k" "packState l a r"]
    by (auto simp: store_def legal_unpack wf_engine_def legal_def)
  then show ?thesis
    using assms(1) by (simp add: wf_engine_def hierarchy_def)
qed

section \<open>The cascade\<close>

definition child_moved :: "byte \<Rightarrow> byte \<Rightarrow> byte \<times> byte \<times> u64 \<Rightarrow> bool" where
  "child_moved was now v = (case v of (l, a, _) \<Rightarrow> deriveChildOper a l was \<noteq> deriveChildOper a l now)"

definition child_event :: "u64 \<Rightarrow> byte \<Rightarrow> byte \<Rightarrow> int \<Rightarrow> u64 \<Rightarrow> int \<Rightarrow> byte \<times> byte \<times> u64 \<Rightarrow> StateChange" where
  "child_event boot was now time rel c v = (case v of (l, a, _) \<Rightarrow>
     \<lparr>IfIndex = c, Oper = deriveChildOper a l now, PrevOper = deriveChildOper a l was, Admin = a, Link = l,
      ev_LastChangeNs = lastChangeAbs boot rel, Changed = LeafOperStatus, At = time\<rparr>)"

lemma cascade_step:
  assumes "wf_engine s" and "known s c"
  shows "cascade_loop s (c # cs) was now time rel out =
    (if child_moved was now (vw s c)
     then cascade_loop (store s (c - 1) (packState (fst (vw s c)) (fst (snd (vw s c))) rel)) cs was now time rel
       (out @ [child_event (bootTimeUnixNs s) was now time rel c (vw s c)])
     else cascade_loop s cs was now time rel out)"
  by (auto simp: at_slot [OF assms] child_moved_def child_event_def vw_def Let_def split: prod.splits)

lemma cascade_loop_spec:
  assumes "wf_engine s" and "\<forall>c\<in>set cs. known s c" and "distinct cs" and "rel AND lastChangeMask = rel"
  shows "\<exists>s'. cascade_loop s cs was now time rel out = Some (s', out @
      map (\<lambda>c. child_event (bootTimeUnixNs s) was now time rel c (vw s c)) (filter (\<lambda>c. child_moved was now (vw s c)) cs))
    \<and> wf_engine s' \<and> rest_of s' = rest_of s
    \<and> (\<forall>j. known s j \<longrightarrow> vw s' j = (case vw s j of (l, a, r) \<Rightarrow>
        (l, a, if j \<in> set cs \<and> child_moved was now (vw s j) then rel else r)))"
  using assms(1-3)
proof (induction cs arbitrary: s out)
  case Nil
  then show ?case
    by (auto split: prod.splits)
next
  case (Cons c cs)
  note step = cascade_step [OF Cons.prems(1), of c cs was now time rel out]
  show ?case
  proof (cases "child_moved was now (vw s c)")
    case False
    then show ?thesis
      using Cons.IH [of s out] Cons.prems step by (auto split: prod.splits)
  next
    case True
    let ?s = "store s (c - 1) (packState (fst (vw s c)) (fst (snd (vw s c))) rel)"
    have k: "known s c"
      using Cons.prems(2) by simp
    have wf: "wf_engine ?s"
      by (rule wf_store [OF Cons.prems(1) vw_legal [OF Cons.prems(1) k]])
    have v: "vw ?s j = (if j = c then (fst (vw s c), fst (snd (vw s c)), rel) else vw s j)" if "known s j" for j
      using vw_store [OF Cons.prems(1) k that vw_legal [OF Cons.prems(1) k]] assms(4) by simp
    have same: "vw ?s c' = vw s c'" if "c' \<in> set cs" for c'
      using v [of c'] that Cons.prems(2,3) by auto
    then have cs: "filter (\<lambda>c. child_moved was now (vw ?s c)) cs = filter (\<lambda>c. child_moved was now (vw s c)) cs"
      "map (\<lambda>c. child_event b was now time rel c (vw ?s c)) (filter (\<lambda>c. child_moved was now (vw s c)) cs)
        = map (\<lambda>c. child_event b was now time rel c (vw s c)) (filter (\<lambda>c. child_moved was now (vw s c)) cs)" for b
      by (auto intro: filter_cong)
    obtain s' where s': "cascade_loop ?s cs was now time rel (out @ [child_event (bootTimeUnixNs s) was now time rel c (vw s c)])
        = Some (s', (out @ [child_event (bootTimeUnixNs s) was now time rel c (vw s c)]) @
          map (\<lambda>c. child_event (bootTimeUnixNs s) was now time rel c (vw s c)) (filter (\<lambda>c. child_moved was now (vw s c)) cs))"
      "wf_engine s'" "rest_of s' = rest_of s"
      "\<forall>j. known s j \<longrightarrow> vw s' j = (case vw ?s j of (l, a, r) \<Rightarrow>
        (l, a, if j \<in> set cs \<and> child_moved was now (vw ?s j) then rel else r))"
      using Cons.IH [OF wf, of "out @ [child_event (bootTimeUnixNs s) was now time rel c (vw s c)]"] Cons.prems(2,3) cs
      by (auto simp del: cascade_loop.simps)
    have "vw s' j = (case vw s j of (l, a, r) \<Rightarrow>
        (l, a, if j \<in> set (c # cs) \<and> child_moved was now (vw s j) then rel else r))" if "known s j" for j
      using s'(4) v [OF that] that True by (auto split: prod.splits)
    then show ?thesis
      using s'(1-3) step k True by (intro exI [of _ s']) (simp del: cascade_loop.simps)
  qed
qed

section \<open>The specification of a mutation\<close>

text \<open>
  \<open>leaf_set A i l a\<close> writes the link and admin leaf of one interface; \<open>spec_move\<close> in addition stamps \<open>rel\<close>
  on exactly the interfaces whose derived status moves with it. \<open>oper_event\<close> is the event such a move calls for.
\<close>

definition leaf_set ::
  "(int \<Rightarrow> byte \<times> byte \<times> u64) \<Rightarrow> int \<Rightarrow> byte \<Rightarrow> byte \<Rightarrow> int \<Rightarrow> byte \<times> byte \<times> u64" where
  "leaf_set A i l a = A(i := (l, a, snd (snd (A i))))"

definition oper_moved ::
  "(int \<Rightarrow> int) \<Rightarrow> (int \<Rightarrow> byte \<times> byte \<times> u64) \<Rightarrow> int \<Rightarrow> byte \<Rightarrow> byte \<Rightarrow> int \<Rightarrow> bool" where
  "oper_moved pa A i l a j \<longleftrightarrow> oper_of pa A j \<noteq> oper_of pa (leaf_set A i l a) j"

definition spec_move ::
  "(int \<Rightarrow> int) \<Rightarrow> (int \<Rightarrow> byte \<times> byte \<times> u64) \<Rightarrow> int \<Rightarrow> byte \<Rightarrow> byte \<Rightarrow> u64 \<Rightarrow> int \<Rightarrow> byte \<times> byte \<times> u64" where
  "spec_move pa A i l a rel j = (case leaf_set A i l a j of (l', a', r) \<Rightarrow>
     (l', a', if oper_moved pa A i l a j then rel else r))"

definition oper_event ::
  "u64 \<Rightarrow> (int \<Rightarrow> int) \<Rightarrow> (int \<Rightarrow> byte \<times> byte \<times> u64) \<Rightarrow> int \<Rightarrow> byte \<Rightarrow> byte \<Rightarrow> int \<Rightarrow> u64 \<Rightarrow> int \<Rightarrow> StateChange" where
  "oper_event boot pa A i l a time rel j = (case leaf_set A i l a j of (l', a', _) \<Rightarrow>
     \<lparr>IfIndex = j, Oper = oper_of pa (leaf_set A i l a) j, PrevOper = oper_of pa A j, Admin = a', Link = l',
      ev_LastChangeNs = lastChangeAbs boot rel, Changed = LeafOperStatus, At = time\<rparr>)"

lemma deriveChildOper_up [simp]: "deriveChildOper a l OperUp = deriveOper a l"
  by (simp add: deriveChildOper_def Let_def)

lemma not_own_parent: "wf_engine s \<Longrightarrow> known s i \<Longrightarrow> par s i \<noteq> i"
  using parent_known [of s i] by (auto simp: known_def)

lemma oper_of_child:
  assumes "wf_engine s" and "known s c" and "par s c = i" and "known s i"
  shows "oper_of (par s) A c = (case A c of (l, a, _) \<Rightarrow> deriveChildOper a l (oper_of (par s) A i))"
proof -
  have "par s i = 0"
    using parent_known [OF assms(1,2)] assms(3,4) by (auto simp: known_def)
  then show ?thesis
    using assms(3,4) by (auto simp: oper_of_def up_oper_def known_def split: prod.splits)
qed

lemma leaf_set_oper:
  assumes "j \<noteq> i" and "par s j \<noteq> i"
  shows "oper_of (par s) (leaf_set A i l a) j = oper_of (par s) A j"
  using assms by (simp add: oper_of_def up_oper_def leaf_set_def)

lemma oper_moved_family: "oper_moved (par s) A i l a j \<Longrightarrow> j = i \<or> par s j = i"
  using leaf_set_oper [of j i s A l a] unfolding oper_moved_def by metis

lemma child_moved_iff:
  assumes "wf_engine s" and "known s c" and "par s c = i" and "known s i"
  shows "child_moved (oper_of (par s) (vw s) i) (oper_of (par s) (leaf_set (vw s) i l a) i) (vw s c)
    \<longleftrightarrow> oper_moved (par s) (vw s) i l a c"
  using oper_of_child [OF assms, of "vw s"] oper_of_child [OF assms, of "leaf_set (vw s) i l a"]
    not_own_parent [OF assms(1,4)] assms(3)
  by (auto simp: child_moved_def oper_moved_def leaf_set_def split: prod.splits)

lemma child_event_eq:
  assumes "wf_engine s" and "known s c" and "par s c = i" and "known s i"
  shows "child_event boot (oper_of (par s) (vw s) i) (oper_of (par s) (leaf_set (vw s) i l a) i) time rel c (vw s c)
    = oper_event boot (par s) (vw s) i l a time rel c"
  using oper_of_child [OF assms, of "vw s"] oper_of_child [OF assms, of "leaf_set (vw s) i l a"]
    not_own_parent [OF assms(1,4)] assms(3)
  by (auto simp: child_event_def oper_event_def leaf_set_def split: prod.splits)

lemma unmoved_no_child:
  assumes "wf_engine s" and "known s i" and "known s j" and "\<not> oper_moved (par s) (vw s) i l a i"
  shows "\<not> oper_moved (par s) (vw s) i l a j"
proof
  assume moved: "oper_moved (par s) (vw s) i l a j"
  then have "par s j = i"
    using oper_moved_family assms(4) by blast
  then show False
    using child_moved_iff [OF assms(1,3) _ assms(2), of l a] moved assms(4)
    by (auto simp: oper_moved_def child_moved_def split: prod.splits)
qed

lemma cascadeChildren_eq:
  assumes "wf_engine s" and "known s i"
  shows "cascadeChildren s (i - 1) was now time rel = cascade_loop s (kids s i) was now time rel []"
  using assms by (auto simp: cascadeChildren_def kids_def at_def wf_engine_def known_def sized_def split: option.splits)

text \<open>The two outcomes of writing one leaf.\<close>

lemma masked_store:
  assumes "wf_engine s" and "known s i" and "legal l a" and "\<not> oper_moved (par s) (vw s) i l a i"
  shows "wf_engine (store s (i - 1) (packState l a (snd (snd (vw s i)))))"
    and "known s j \<Longrightarrow> vw (store s (i - 1) (packState l a (snd (snd (vw s i))))) j
      = spec_move (par s) (vw s) i l a rel j"
  using wf_store [OF assms(1,3)] vw_store [OF assms(1,2) _ assms(3)] unmoved_no_child [OF assms(1,2) _ assms(4)]
    vw_rel_masked [of s i]
  by (auto simp: spec_move_def leaf_set_def split: prod.splits)

lemma visible_store:
  assumes "wf_engine s" and "known s i" and "legal l a" and "oper_moved (par s) (vw s) i l a i"
    and "rel AND lastChangeMask = rel"
  shows "\<exists>s'. cascadeChildren (invalidateLLDPServedCache (store s (i - 1) (packState l a rel))) (i - 1)
        (oper_of (par s) (vw s) i) (oper_of (par s) (leaf_set (vw s) i l a) i) time rel
      = Some (s', map (oper_event (bootTimeUnixNs s) (par s) (vw s) i l a time rel)
          (filter (oper_moved (par s) (vw s) i l a) (kids s i)))
    \<and> wf_engine s' \<and> rest_of s' = rest_of (invalidateLLDPServedCache s)
    \<and> (\<forall>j. known s j \<longrightarrow> vw s' j = spec_move (par s) (vw s) i l a rel j)"
proof -
  let ?t = "invalidateLLDPServedCache (store s (i - 1) (packState l a rel))"
  let ?was = "oper_of (par s) (vw s) i" and ?now = "oper_of (par s) (leaf_set (vw s) i l a) i"
  have wf: "wf_engine ?t"
    using wf_store [OF assms(1,3)] by simp
  have v: "vw ?t j = (if j = i then (l, a, rel) else vw s j)" if "known s j" for j
    using vw_store [OF assms(1,2) that assms(3)] assms(5) by simp
  have kid: "known s c" "par s c = i" "c \<noteq> i" if "c \<in> set (kids s i)" for c
    using kids_iff [OF assms(1,2), of c] not_own_parent [OF assms(1,2)] that by metis+
  have dist: "distinct (kids ?t i)" and kn: "\<forall>c\<in>set (kids ?t i). known ?t c"
    using kids_distinct [OF assms(1,2)] kid(1) by simp_all
  obtain s' where s': "cascade_loop ?t (kids s i) ?was ?now time rel [] = Some (s',
      map (\<lambda>c. child_event (bootTimeUnixNs s) ?was ?now time rel c (vw ?t c)) (filter (\<lambda>c. child_moved ?was ?now (vw ?t c)) (kids s i)))"
    "wf_engine s'" "rest_of s' = rest_of ?t"
    "\<forall>j. known s j \<longrightarrow> vw s' j = (case vw ?t j of (l, a, r) \<Rightarrow>
        (l, a, if j \<in> set (kids s i) \<and> child_moved ?was ?now (vw ?t j) then rel else r))"
    using cascade_loop_spec [OF wf kn dist assms(5), of ?was ?now time "[]"]
    unfolding append_Nil store_fields invalidate_fields(2-10) by (elim exE conjE)
  have moved: "child_moved ?was ?now (vw ?t c) \<longleftrightarrow> oper_moved (par s) (vw s) i l a c"
    and ev: "child_event (bootTimeUnixNs s) ?was ?now time rel c (vw ?t c)
      = oper_event (bootTimeUnixNs s) (par s) (vw s) i l a time rel c" if "c \<in> set (kids s i)" for c
    using v [of c] kid [OF that] child_moved_iff [OF assms(1) _ _ assms(2)] child_event_eq [OF assms(1) _ _ assms(2)]
    by auto
  have evs: "map (\<lambda>c. child_event (bootTimeUnixNs s) ?was ?now time rel c (vw ?t c)) (filter (\<lambda>c. child_moved ?was ?now (vw ?t c)) (kids s i))
      = map (oper_event (bootTimeUnixNs s) (par s) (vw s) i l a time rel) (filter (oper_moved (par s) (vw s) i l a) (kids s i))"
    by (intro map_cong filter_cong [OF refl] moved) (simp_all only: set_filter mem_Collect_eq ev)
  have "vw s' j = spec_move (par s) (vw s) i l a rel j" if "known s j" for j
  proof (cases "j = i \<or> j \<in> set (kids s i)")
    case True
    then show ?thesis
      using s'(4) that v [OF that] moved [of j] kid [of j] assms(4)
      by (auto simp: spec_move_def leaf_set_def split: prod.splits)
  next
    case False
    then have "\<not> oper_moved (par s) (vw s) i l a j"
      using kids_iff [OF assms(1,2)] oper_moved_family that by blast
    then show ?thesis
      using False s'(4) that v [OF that] by (auto simp: spec_move_def leaf_set_def split: prod.splits)
  qed
  moreover have "rest_of s' = rest_of (invalidateLLDPServedCache s)"
    using s'(3) rest_of_invalidate [OF rest_of_store] by simp
  ultimately show ?thesis
    using s'(1,2) evs cascadeChildren_eq [OF wf, of i] assms(2) by (intro exI [of _ s']) simp
qed

section \<open>The mutators meet the specification\<close>

definition admin_event ::
  "u64 \<Rightarrow> (int \<Rightarrow> int) \<Rightarrow> (int \<Rightarrow> byte \<times> byte \<times> u64) \<Rightarrow> int \<Rightarrow> byte \<Rightarrow> byte \<Rightarrow> int \<Rightarrow> u64 \<Rightarrow> StateChange" where
  "admin_event boot pa A i l a time rel =
     \<lparr>IfIndex = i, Oper = oper_of pa (leaf_set A i l a) i, PrevOper = oper_of pa A i, Admin = a, Link = l,
      ev_LastChangeNs = lastChangeAbs boot (if oper_moved pa A i l a i then rel else snd (snd (A i))),
      Changed = LeafAdminStatus, At = time\<rparr>"

definition oper_events ::
  "InterfaceState \<Rightarrow> int \<Rightarrow> byte \<Rightarrow> byte \<Rightarrow> int \<Rightarrow> u64 \<Rightarrow> StateChange list" where
  "oper_events s i l a time rel = map (oper_event (bootTimeUnixNs s) (par s) (vw s) i l a time rel)
     (filter (oper_moved (par s) (vw s) i l a) (i # kids s i))"

lemma leaf_set_same: "vw s i = (l, a, r) \<Longrightarrow> leaf_set (vw s) i l a = vw s"
  by (auto simp: leaf_set_def)

lemma spec_move_same: "vw s i = (l, a, r) \<Longrightarrow> spec_move (par s) (vw s) i l a rel = vw s"
  by (auto simp: spec_move_def oper_moved_def leaf_set_same fun_eq_iff split: prod.splits)

lemma oper_events_unmoved:
  assumes "wf_engine s" and "known s i" and "\<not> oper_moved (par s) (vw s) i l a i"
  shows "oper_events s i l a time rel = []"
  using unmoved_no_child [OF assms(1,2) _ assms(3)] kids_iff [OF assms(1,2)] assms(3)
  by (auto simp: oper_events_def filter_empty_conv)

lemma slot_unpack:
  assumes "vw s i = (l, a, r)"
  obtains l0 a0 where "unpackState (slots s ! nat (i - 1)) = (l0, a0, r)" and "normaliseSlot l0 a0 = (l, a)"
proof (cases "unpackState (slots s ! nat (i - 1))")
  case (fields l0 a0 r0)
  then show ?thesis
    using that [of l0 a0] assms by (cases "normaliseSlot l0 a0") (simp add: vw_def)
qed

lemma derive_leaf:
  "vw s i = (l, a, r) \<Longrightarrow> deriveChildOper a l (up_oper (par s) (vw s) i) = oper_of (par s) (vw s) i"
  "wf_engine s \<Longrightarrow> known s i \<Longrightarrow>
     deriveChildOper a' l' (up_oper (par s) (vw s) i) = oper_of (par s) (leaf_set (vw s) i l' a') i"
  using not_own_parent [of s i] by (auto simp: oper_of_def up_oper_def leaf_set_def)

lemma SetLinkState_out:
  "\<not> (known s i \<and> 1 \<le> v \<and> v \<le> 7) \<Longrightarrow> SetLinkState s now i v = Some (s, LinkUnchanged, [])"
  by (auto simp: SetLinkState_def known_def Let_def not_le)

lemma SetLinkState_in:
  assumes "wf_engine s" and "known s i" and "1 \<le> v" and "v \<le> 7" and "vw s i = (l, a, r)"
    and "rel = wallRelNs (word_of_int now) (bootTimeUnixNs s)"
  shows "SetLinkState s now i v =
    (if l = v then Some (s, LinkUnchanged, [])
     else if \<not> oper_moved (par s) (vw s) i v a i
     then Some (store s (i - 1) (packState v a r), LinkMovedMasked, [])
     else do {
       (s', evs) \<leftarrow> cascadeChildren (invalidateLLDPServedCache (store s (i - 1) (packState v a rel))) (i - 1)
         (oper_of (par s) (vw s) i) (oper_of (par s) (leaf_set (vw s) i v a) i) now rel;
       Some (s', LinkMovedVisible, oper_event (bootTimeUnixNs s) (par s) (vw s) i v a now rel i # evs) })"
proof -
  have 1: "\<not> i - 1 < 0" "\<not> maxIfIndex s \<le> i - 1" "\<not> v < OperUp" "\<not> OperLowerLayerDn < v"
    using assms(2-4) by (auto simp: known_def)
  have 2: "oper_moved (par s) (vw s) i v a i
      \<longleftrightarrow> oper_of (par s) (vw s) i \<noteq> oper_of (par s) (leaf_set (vw s) i v a) i"
    by (simp add: oper_moved_def)
  have 3: "leaf_set (vw s) i v a i = (v, a, r)"
    using assms(5) by (simp add: leaf_set_def)
  obtain l0 a0 where 4: "unpackState (slots s ! nat (i - 1)) = (l0, a0, r)" "normaliseSlot l0 a0 = (l, a)"
    using slot_unpack [OF assms(5)] .
  show ?thesis
    using 1 assms(6)
    by (simp add: SetLinkState_def Let_def at_slot [OF assms(1,2)] 4 parentOper_eq [OF assms(1,2)]
        derive_leaf(1) [OF assms(5)] derive_leaf(2) [OF assms(1,2)] leaf_set_same [OF assms(5)] 2 oper_event_def 3)
qed

lemma SetLinkState_spec:
  assumes "wf_engine s" and "known s i" and "1 \<le> v" and "v \<le> 7" and "vw s i = (l, a, r)"
    and "rel = wallRelNs (word_of_int now) (bootTimeUnixNs s)"
  shows "\<exists>s'. SetLinkState s now i v = Some (s',
      if l = v then LinkUnchanged else if oper_moved (par s) (vw s) i v a i then LinkMovedVisible else LinkMovedMasked,
      oper_events s i v a now rel)
    \<and> wf_engine s' \<and> (\<forall>j. known s j \<longrightarrow> vw s' j = spec_move (par s) (vw s) i v a rel j)
    \<and> rest_of s' = rest_of (if oper_moved (par s) (vw s) i v a i then invalidateLLDPServedCache s else s)"
proof -
  have leg: "legal v a"
    using vw_legal [OF assms(1,2)] assms(3-5) by (auto simp: legal_def)
  have rel: "rel AND lastChangeMask = rel"
    unfolding assms(6) by (rule wallRelNs_masked)
  note eq = SetLinkState_in [OF assms]
  consider "l = v" | "l \<noteq> v" "\<not> oper_moved (par s) (vw s) i v a i" | "l \<noteq> v" "oper_moved (par s) (vw s) i v a i"
    by blast
  then show ?thesis
  proof cases
    case 1
    then have "\<not> oper_moved (par s) (vw s) i v a i"
      using leaf_set_same [OF assms(5)] by (simp add: oper_moved_def)
    then show ?thesis
      using 1 eq assms(1) oper_events_unmoved [OF assms(1,2)] spec_move_same [of s i v a r] assms(5) by simp
  next
    case 2
    then show ?thesis
      using eq masked_store [OF assms(1,2) leg 2(2)] oper_events_unmoved [OF assms(1,2) 2(2)] assms(5) by simp
  next
    case 3
    have evs: "oper_events s i v a now rel = oper_event (bootTimeUnixNs s) (par s) (vw s) i v a now rel i
        # map (oper_event (bootTimeUnixNs s) (par s) (vw s) i v a now rel) (filter (oper_moved (par s) (vw s) i v a) (kids s i))"
      using 3(2) by (simp add: oper_events_def)
    show ?thesis
      using eq visible_store [OF assms(1,2) leg 3(2) rel, of now] 3 unfolding evs by auto
  qed
qed

lemma setAdminLeaf_out:
  "\<not> (known s i \<and> 1 \<le> v \<and> v \<le> 3) \<Longrightarrow> setAdminLeaf s now i v = Some (s, [])"
  by (auto simp: setAdminLeaf_def known_def Let_def not_le)

lemma setAdminLeaf_in:
  assumes "wf_engine s" and "known s i" and "1 \<le> v" and "v \<le> 3" and "vw s i = (l, a, r)"
    and "rel = wallRelNs (word_of_int now) (bootTimeUnixNs s)"
  shows "setAdminLeaf s now i v =
    (if a = v then Some (s, [])
     else if \<not> oper_moved (par s) (vw s) i l v i
     then Some (store s (i - 1) (packState l v r), [admin_event (bootTimeUnixNs s) (par s) (vw s) i l v now rel])
     else do {
       (s', evs) \<leftarrow> cascadeChildren (invalidateLLDPServedCache (store s (i - 1) (packState l v rel))) (i - 1)
         (oper_of (par s) (vw s) i) (oper_of (par s) (leaf_set (vw s) i l v) i) now rel;
       Some (s', admin_event (bootTimeUnixNs s) (par s) (vw s) i l v now rel
         # oper_event (bootTimeUnixNs s) (par s) (vw s) i l v now rel i # evs) })"
proof -
  have 1: "\<not> i - 1 < 0" "\<not> maxIfIndex s \<le> i - 1" "\<not> v < AdminUp" "\<not> AdminTesting < v"
    using assms(2-4) by (auto simp: known_def)
  have 2: "oper_moved (par s) (vw s) i l v i
      \<longleftrightarrow> oper_of (par s) (vw s) i \<noteq> oper_of (par s) (leaf_set (vw s) i l v) i"
    by (simp add: oper_moved_def)
  have 3: "leaf_set (vw s) i l v i = (l, v, r)"
    using assms(5) by (simp add: leaf_set_def)
  obtain l0 a0 where 4: "unpackState (slots s ! nat (i - 1)) = (l0, a0, r)" "normaliseSlot l0 a0 = (l, a)"
    using slot_unpack [OF assms(5)] .
  show ?thesis
    using 1 assms(6)
    by (simp add: setAdminLeaf_def Let_def at_slot [OF assms(1,2)] 4 parentOper_eq [OF assms(1,2)]
        derive_leaf(1) [OF assms(5)] derive_leaf(2) [OF assms(1,2)] leaf_set_same [OF assms(5)] 2 oper_event_def 3
        admin_event_def assms(5))
qed

lemma ApplyAdminStatus_spec:
  assumes "wf_engine s" and "known s i" and "1 \<le> v" and "v \<le> 3" and "vw s i = (l, a, r)"
    and "rel = wallRelNs (word_of_int now) (bootTimeUnixNs s)"
  shows "\<exists>s'. ApplyAdminStatus s now i v = Some (s',
      if a = v then [] else admin_event (bootTimeUnixNs s) (par s) (vw s) i l v now rel # oper_events s i l v now rel)
    \<and> wf_engine s' \<and> (\<forall>j. known s j \<longrightarrow> vw s' j = spec_move (par s) (vw s) i l v rel j)
    \<and> rest_of s' = rest_of (if oper_moved (par s) (vw s) i l v i then invalidateLLDPServedCache s else s)"
  unfolding ApplyAdminStatus_def
proof -
  have leg: "legal l v"
    using vw_legal [OF assms(1,2)] assms(3-5) by (auto simp: legal_def)
  have rel: "rel AND lastChangeMask = rel"
    unfolding assms(6) by (rule wallRelNs_masked)
  note eq = setAdminLeaf_in [OF assms]
  consider "a = v" | "a \<noteq> v" "\<not> oper_moved (par s) (vw s) i l v i" | "a \<noteq> v" "oper_moved (par s) (vw s) i l v i"
    by blast
  then show "\<exists>s'. setAdminLeaf s now i v = Some (s',
      if a = v then [] else admin_event (bootTimeUnixNs s) (par s) (vw s) i l v now rel # oper_events s i l v now rel)
    \<and> wf_engine s' \<and> (\<forall>j. known s j \<longrightarrow> vw s' j = spec_move (par s) (vw s) i l v rel j)
    \<and> rest_of s' = rest_of (if oper_moved (par s) (vw s) i l v i then invalidateLLDPServedCache s else s)"
  proof cases
    case 1
    then have "\<not> oper_moved (par s) (vw s) i l v i"
      using leaf_set_same [OF assms(5)] by (simp add: oper_moved_def)
    then show ?thesis
      using 1 eq assms(1) spec_move_same [of s i l v r] assms(5) by simp
  next
    case 2
    then show ?thesis
      using eq masked_store [OF assms(1,2) leg 2(2)] oper_events_unmoved [OF assms(1,2) 2(2)] assms(5) by simp
  next
    case 3
    have evs: "oper_events s i l v now rel = oper_event (bootTimeUnixNs s) (par s) (vw s) i l v now rel i
        # map (oper_event (bootTimeUnixNs s) (par s) (vw s) i l v now rel) (filter (oper_moved (par s) (vw s) i l v) (kids s i))"
      using 3(2) by (simp add: oper_events_def)
    show ?thesis
      using eq visible_store [OF assms(1,2) leg 3(2) rel, of now] 3 unfolding evs by auto
  qed
qed

section \<open>Building an engine\<close>

definition valid_pair :: "int \<Rightarrow> (int \<Rightarrow> int) \<Rightarrow> int \<Rightarrow> bool" where
  "valid_pair n f c \<longleftrightarrow> 1 \<le> c \<and> c \<le> n \<and> 1 \<le> f c \<and> f c \<le> n"

lemma parents_loop_spec:
  assumes "int (length pa) = n" and "int (length ch) = n" and "distinct ks"
  shows "case parents_loop n f ks (pa, ch) of (pa', ch') \<Rightarrow>
    int (length pa') = n \<and> int (length ch') = n
    \<and> (\<forall>j. 1 \<le> j \<and> j \<le> n \<longrightarrow>
        pa' ! nat (j - 1) = (if j \<in> set ks \<and> valid_pair n f j then f j else pa ! nat (j - 1))
      \<and> ch' ! nat (j - 1) = ch ! nat (j - 1) @ filter (\<lambda>c. valid_pair n f c \<and> f c = j) ks)"
  using assms
proof (induction ks arbitrary: pa ch)
  case (Cons c ks)
  show ?case
  proof (cases "valid_pair n f c")
    case False
    then have "parents_loop n f (c # ks) (pa, ch) = parents_loop n f ks (pa, ch)"
      by (auto simp: valid_pair_def Let_def not_le not_less)
    then show ?thesis
      using Cons.IH [OF Cons.prems(1,2)] Cons.prems(3) False by (auto split: prod.splits)
  next
    case True
    let ?pa = "pa[nat (c - 1) := f c]" and ?ch = "ch[nat (f c - 1) := ch ! nat (f c - 1) @ [c]]"
    have eq: "parents_loop n f (c # ks) (pa, ch) = parents_loop n f ks (?pa, ?ch)"
      using True by (simp add: valid_pair_def Let_def)
    have nth: "?pa ! nat (j - 1) = (if j = c then f c else pa ! nat (j - 1))"
      "?ch ! nat (j - 1) = ch ! nat (j - 1) @ (if f c = j then [c] else [])" if "1 \<le> j \<and> j \<le> n" for j
      using that True Cons.prems(1,2) by (auto simp: nth_list_update valid_pair_def)
    show ?thesis
      unfolding eq using Cons.IH [of ?pa ?ch] Cons.prems nth True by (auto split: prod.splits)
  qed
qed simp

definition parent_fun :: "(int \<times> int) list \<Rightarrow> int \<Rightarrow> int" where
  "parent_fun parents c = (case map_of parents c of Some p \<Rightarrow> p | None \<Rightarrow> 0)"

lemma setParents_tables:
  assumes "0 \<le> maxIfIndex s" and "distinct (map fst parents)" and "parents \<noteq> []"
  obtains pa ch where "setParents s parents = s\<lparr>parent := Some pa, children := Some ch\<rparr>"
    and "int (length pa) = maxIfIndex s" and "int (length ch) = maxIfIndex s"
    and "\<And>j. 1 \<le> j \<Longrightarrow> j \<le> maxIfIndex s \<Longrightarrow> pa ! nat (j - 1)
      = (if valid_pair (maxIfIndex s) (parent_fun parents) j then parent_fun parents j else 0)"
    and "\<And>j. 1 \<le> j \<Longrightarrow> j \<le> maxIfIndex s \<Longrightarrow> ch ! nat (j - 1)
      = filter (\<lambda>c. valid_pair (maxIfIndex s) (parent_fun parents) c \<and> parent_fun parents c = j) (sort (map fst parents))"
proof -
  let ?n = "maxIfIndex s" and ?f = "parent_fun parents" and ?ks = "sort (map fst parents)"
  obtain pa ch where loop: "parents_loop ?n ?f ?ks (replicate (nat ?n) 0, replicate (nat ?n) []) = (pa, ch)"
    by fastforce
  have key: "j \<in> set (map fst parents)" if "valid_pair ?n ?f j" for j
    using that by (force simp: valid_pair_def parent_fun_def dest: map_of_SomeD split: option.splits)
  have "setParents s parents = s\<lparr>parent := Some pa, children := Some ch\<rparr>"
    using loop assms(3) by (simp add: setParents_def parent_fun_def [abs_def] Let_def)
  then show ?thesis
    using that parents_loop_spec [of "replicate (nat ?n) 0" ?n "replicate (nat ?n) []" ?ks ?f] assms(1,2) loop key
    by fastforce
qed

text \<open>The hierarchy the engine is given has one level: no parent is itself a child.\<close>

definition one_level :: "(int \<times> int) list \<Rightarrow> bool" where
  "one_level parents \<longleftrightarrow> distinct (map fst parents) \<and> (\<forall>(c, p)\<in>set parents. p \<notin> fst ` set parents)"

lemma setParents_wf:
  assumes "wf_engine s" and "one_level parents"
  shows "wf_engine (setParents s parents)"
proof (cases "parents = []")
  case False
  have pos: "0 \<le> maxIfIndex s"
    using assms(1) by (auto simp: wf_engine_def)
  have dist: "distinct (map fst parents)"
    using assms(2) by (simp add: one_level_def)
  obtain pa ch where eq: "setParents s parents = s\<lparr>parent := Some pa, children := Some ch\<rparr>"
    and len: "int (length pa) = maxIfIndex s" "int (length ch) = maxIfIndex s"
    and pa: "\<And>j. 1 \<le> j \<Longrightarrow> j \<le> maxIfIndex s \<Longrightarrow> pa ! nat (j - 1)
      = (if valid_pair (maxIfIndex s) (parent_fun parents) j then parent_fun parents j else 0)"
    and ch: "\<And>j. 1 \<le> j \<Longrightarrow> j \<le> maxIfIndex s \<Longrightarrow> ch ! nat (j - 1)
      = filter (\<lambda>c. valid_pair (maxIfIndex s) (parent_fun parents) c \<and> parent_fun parents c = j) (sort (map fst parents))"
    by (rule setParents_tables [OF pos dist False]) (rule that; assumption)
  have top: "parent_fun parents (parent_fun parents c) = 0" if "valid_pair (maxIfIndex s) (parent_fun parents) c" for c
  proof -
    have "(c, parent_fun parents c) \<in> set parents"
      using that by (auto simp: valid_pair_def parent_fun_def dest: map_of_SomeD split: option.splits)
    then have "parent_fun parents c \<notin> fst ` set parents"
      using assms(2) by (auto simp: one_level_def)
    then have "map_of parents (parent_fun parents c) = None"
      by (simp add: map_of_eq_None_iff)
    then show ?thesis
      by (simp add: parent_fun_def [of _ "parent_fun parents c"])
  qed
  have key: "c \<in> fst ` set parents" if "valid_pair (maxIfIndex s) (parent_fun parents) c" for c
    using that by (force simp: valid_pair_def parent_fun_def dest: map_of_SomeD split: option.splits)
  let ?t = "setParents s parents"
  have known: "known ?t j \<longleftrightarrow> 1 \<le> j \<and> j \<le> maxIfIndex s" for j
    by (simp add: eq known_def)
  have par: "par ?t j = (if valid_pair (maxIfIndex s) (parent_fun parents) j then parent_fun parents j else 0)"
    if "known ?t j" for j
    using pa that by (simp add: eq par_def known_def)
  have kids: "kids ?t j
      = filter (\<lambda>c. valid_pair (maxIfIndex s) (parent_fun parents) c \<and> parent_fun parents c = j) (sort (map fst parents))"
    if "known ?t j" for j
    using ch that by (simp add: eq kids_def known_def)
  have "hierarchy ?t"
    unfolding hierarchy_def
  proof (intro conjI allI impI)
    fix j
    assume j: "known ?t j"
    show "par ?t j = 0 \<or> known ?t (par ?t j) \<and> par ?t (par ?t j) = 0"
      using par [OF j] par [of "parent_fun parents j"] top [of j] by (auto simp: known valid_pair_def)
    show "distinct (kids ?t j)"
      using kids [OF j] dist by simp
    show "set (kids ?t j) = {c. known ?t c \<and> par ?t c = j}"
      using kids [OF j] par key j by (auto simp: known valid_pair_def split: if_splits)
  qed
  then show ?thesis
    using assms(1) len by (simp add: wf_engine_def eq sized_def)
qed (use assms in \<open>simp add: setParents_def\<close>)

lemma new_wf: "newInterfaceStateWithClock n e d now g = Some s \<Longrightarrow> wf_engine s"
  by (auto simp: newInterfaceStateWithClock_def wf_engine_def sized_def hierarchy_def par_def kids_def unpackState_def
      known_def split: if_splits)

lemma Seed_cases:
  obtains "Seed s i l a = s" | "known s i" "legal l a" "Seed s i l a = store s (i - 1) (packState l a 0)"
proof (cases "known s i \<and> l \<noteq> 0 \<and> l \<le> 7 \<and> a \<noteq> 0 \<and> a \<le> 3")
  case True
  then have "Seed s i l a = store s (i - 1) (packState l a 0)"
    by (auto simp: Seed_def Let_def known_def)
  then show ?thesis
    using that(2) True by (simp add: legal_def)
next
  case False
  then have "Seed s i l a = s"
    by (auto simp: Seed_def Let_def known_def not_le)
  then show ?thesis
    by (rule that(1))
qed

lemma Seed_wf: "wf_engine s \<Longrightarrow> wf_engine (Seed s i l a)"
  using wf_store by (cases rule: Seed_cases [of s i l a]) simp_all

lemma mark_all_length [simp]: "length (mark_all n ks fs) = length fs"
  by (induction ks arbitrary: fs) simp_all

lemma other_fields [simp]:
  "par (s\<lparr>loopback := x_loopback\<rparr>) = par s" "kids (s\<lparr>loopback := x_loopback\<rparr>) = kids s" "known (s\<lparr>loopback := x_loopback\<rparr>) = known s"
  "par (s\<lparr>stacked := x_stacked\<rparr>) = par s" "kids (s\<lparr>stacked := x_stacked\<rparr>) = kids s" "known (s\<lparr>stacked := x_stacked\<rparr>) = known s"
  "par (s\<lparr>listeners := x_listeners\<rparr>) = par s" "kids (s\<lparr>listeners := x_listeners\<rparr>) = kids s" "known (s\<lparr>listeners := x_listeners\<rparr>) = known s"
  "par (s\<lparr>eventsEmitted := x_eventsEmitted\<rparr>) = par s" "kids (s\<lparr>eventsEmitted := x_eventsEmitted\<rparr>) = kids s" "known (s\<lparr>eventsEmitted := x_eventsEmitted\<rparr>) = known s"
  "par (s\<lparr>eventsDropped := x_eventsDropped\<rparr>) = par s" "kids (s\<lparr>eventsDropped := x_eventsDropped\<rparr>) = kids s" "known (s\<lparr>eventsDropped := x_eventsDropped\<rparr>) = known s"
  "par (s\<lparr>notify := x_notify\<rparr>) = par s" "kids (s\<lparr>notify := x_notify\<rparr>) = kids s" "known (s\<lparr>notify := x_notify\<rparr>) = known s"
  "par (s\<lparr>onOper := x_onOper\<rparr>) = par s" "kids (s\<lparr>onOper := x_onOper\<rparr>) = kids s" "known (s\<lparr>onOper := x_onOper\<rparr>) = known s"
  by (simp_all add: par_def kids_def known_def fun_eq_iff)

lemma wf_fields:
  "wf_engine s \<Longrightarrow> wf_engine (setLoopbacks s ks)" "wf_engine s \<Longrightarrow> wf_engine (setStacked s ks)"
  "wf_engine s \<Longrightarrow> wf_engine (s\<lparr>listeners := ls\<rparr>)" "wf_engine s \<Longrightarrow> wf_engine (s\<lparr>eventsEmitted := e\<rparr>)"
  "wf_engine s \<Longrightarrow> wf_engine (s\<lparr>eventsDropped := e\<rparr>)" "wf_engine s \<Longrightarrow> wf_engine (s\<lparr>notify := b\<rparr>)"
  "wf_engine s \<Longrightarrow> wf_engine (s\<lparr>onOper := b\<rparr>)"
  by (auto simp: wf_engine_def hierarchy_def setLoopbacks_def setStacked_def) (auto simp: sized_def)

lemma Broadcast_wf: "wf_engine s \<Longrightarrow> wf_engine (fst (Broadcast s evt))"
  by (simp add: Broadcast_def Let_def wf_fields(3-) case_prod_beta)

section \<open>Observers after a mutation\<close>

lemma oper_of_cong:
  assumes "wf_engine s" and "known s j"
    and "\<And>k. known s k \<Longrightarrow> fst (A k) = fst (B k) \<and> fst (snd (A k)) = fst (snd (B k))"
  shows "oper_of (par s) A j = oper_of (par s) B j"
proof -
  have "up_oper (par s) A j = up_oper (par s) B j"
    using assms(3) [of "par s j"] parent_known [OF assms(1,2)] by (auto simp: up_oper_def split: prod.splits)
  then show ?thesis
    using assms(3) [OF assms(2)] by (auto simp: oper_of_def split: prod.splits)
qed

lemma spec_move_leaves:
  "fst (spec_move pa A i l a rel k) = fst (leaf_set A i l a k)"
  "fst (snd (spec_move pa A i l a rel k)) = fst (snd (leaf_set A i l a k))"
  "snd (snd (spec_move pa A i l a rel k)) = (if oper_moved pa A i l a k then rel else snd (snd (A k)))"
  by (auto simp: spec_move_def leaf_set_def split: prod.splits)

lemma observers_after:
  assumes "wf_engine s" and "wf_engine s'" and "rest_of s' = rest_of t"
    and "t = s \<or> t = invalidateLLDPServedCache s"
    and "\<forall>j. known s j \<longrightarrow> vw s' j = spec_move (par s) (vw s) i l a rel j" and "known s j"
  shows "OperStatus s' j = Some (oper_of (par s) (leaf_set (vw s) i l a) j)"
    and "LinkState s' j = (if j = i then Some l else LinkState s j)"
    and "AdminStatus s' j = (if j = i then Some a else AdminStatus s j)"
    and "LastChangeNs s' j = (if oper_moved (par s) (vw s) i l a j
      then Some (lastChangeAbs (bootTimeUnixNs s) rel) else LastChangeNs s j)"
proof -
  have eqs: "par s' = par s" "known s' = known s" "bootTimeUnixNs s' = bootTimeUnixNs s"
    using rest_of_eqD [OF assms(3)] assms(4) by auto
  have v: "vw s' j = spec_move (par s) (vw s) i l a rel j"
    using assms(5,6) by simp
  have "oper_of (par s) (vw s') j = oper_of (par s) (leaf_set (vw s) i l a) j"
    by (rule oper_of_cong [OF assms(1,6)]) (simp add: assms(5) spec_move_leaves)
  then show "OperStatus s' j = Some (oper_of (par s) (leaf_set (vw s) i l a) j)"
    using OperStatus_eq [OF assms(2), of j] assms(6) by (simp add: eqs)
  show "LinkState s' j = (if j = i then Some l else LinkState s j)"
    using LinkState_eq [OF assms(2), of j] LinkState_eq [OF assms(1,6)] assms(6)
    by (simp add: eqs v spec_move_leaves leaf_set_def)
  show "AdminStatus s' j = (if j = i then Some a else AdminStatus s j)"
    using AdminStatus_eq [OF assms(2), of j] AdminStatus_eq [OF assms(1,6)] assms(6)
    by (simp add: eqs v spec_move_leaves leaf_set_def)
  show "LastChangeNs s' j = (if oper_moved (par s) (vw s) i l a j
      then Some (lastChangeAbs (bootTimeUnixNs s) rel) else LastChangeNs s j)"
    using LastChangeNs_eq [OF assms(2), of j] LastChangeNs_eq [OF assms(1,6)] assms(6)
    by (simp add: eqs v spec_move_leaves)
qed

lemma filter_one: "distinct xs \<Longrightarrow> filter (\<lambda>k. k = j \<and> P k) xs = (if j \<in> set xs \<and> P j then [j] else [])"
  by (induction xs) auto

lemma oper_events_of:
  assumes "wf_engine s" and "known s i" and "known s j"
  shows "filter (\<lambda>e. IfIndex e = j) (oper_events s i l a time rel)
    = (if oper_moved (par s) (vw s) i l a j
       then [oper_event (bootTimeUnixNs s) (par s) (vw s) i l a time rel j] else [])"
proof -
  let ?m = "oper_moved (par s) (vw s) i l a"
  have idx: "IfIndex (oper_event b pa A i l a time rel k) = k" for b pa A k
    by (simp add: oper_event_def split: prod.splits)
  have dist: "distinct (i # kids s i)"
    using kids_distinct [OF assms(1,2)] kids_iff [OF assms(1,2), of i] not_own_parent [OF assms(1,2)] by auto
  have "filter (\<lambda>e. IfIndex e = j) (oper_events s i l a time rel)
      = map (oper_event (bootTimeUnixNs s) (par s) (vw s) i l a time rel) (filter (\<lambda>k. k = j \<and> ?m k) (i # kids s i))"
    unfolding oper_events_def filter_map o_def idx filter_filter by (simp add: conj_commute)
  also have "filter (\<lambda>k. k = j \<and> ?m k) (i # kids s i) = (if ?m j then [j] else [])"
    unfolding filter_one [OF dist]
    using oper_moved_family [of s "vw s" i l a j] kids_iff [OF assms(1,2), of j] assms(3) by auto
  finally show ?thesis
    by simp
qed

lemma ApplyAdminStatus_observed:
  assumes "wf_engine s" and "known s i" and "1 \<le> v \<and> v \<le> 3" and "vw s i = (l, a, r)"
    and "ApplyAdminStatus s now i v = Some (s', evs)"
  shows "wf_engine s'" and "known s' = known s" and "par s' = par s"
    and "known s j \<Longrightarrow> fst (vw s' j) = fst (vw s j)"
    and "known s j \<Longrightarrow> fst (snd (vw s' j)) = (if j = i then v else fst (snd (vw s j)))"
    and "known s j \<Longrightarrow> OperStatus s' j = Some (oper_of (par s) (leaf_set (vw s) i l v) j)"
    and "known s j \<Longrightarrow> \<not> oper_moved (par s) (vw s) i l v j \<Longrightarrow> LastChangeNs s' j = LastChangeNs s j"
proof -
  let ?rel = "wallRelNs (word_of_int now) (bootTimeUnixNs s)"
  have wf: "wf_engine s'" and v: "\<forall>j. known s j \<longrightarrow> vw s' j = spec_move (par s) (vw s) i l v ?rel j"
    and rest: "rest_of s' = rest_of (if oper_moved (par s) (vw s) i l v i then invalidateLLDPServedCache s else s)"
    using ApplyAdminStatus_spec [OF assms(1,2) _ _ assms(4) refl, of v now] assms(3,5) by auto
  show "wf_engine s'" "known s' = known s" "par s' = par s"
    using wf rest_of_eqD [OF rest] by (auto split: if_splits)
  show "fst (vw s' j) = fst (vw s j)" "fst (snd (vw s' j)) = (if j = i then v else fst (snd (vw s j)))" if "known s j"
    using v that assms(4) by (auto simp: spec_move_leaves leaf_set_def)
  show "OperStatus s' j = Some (oper_of (par s) (leaf_set (vw s) i l v) j)" if "known s j"
    using observers_after(1) [OF assms(1) wf rest _ v that] by (auto split: if_splits)
  show "LastChangeNs s' j = LastChangeNs s j" if "known s j" "\<not> oper_moved (par s) (vw s) i l v j"
    using observers_after(4) [OF assms(1) wf rest _ v that(1)] that(2) by (auto split: if_splits)
qed

section \<open>Reachable engines\<close>

text \<open>An engine is built, given its hierarchy, and then operated by any sequence of calls.\<close>

inductive engine_step :: "InterfaceState \<Rightarrow> InterfaceState \<Rightarrow> bool" where
  seed: "engine_step s (Seed s i l a)"
| link: "SetLinkState s now i v = Some (s', m, evs) \<Longrightarrow> engine_step s s'"
| admin: "ApplyAdminStatus s now i v = Some (s', evs) \<Longrightarrow> engine_step s s'"
| broadcast: "engine_step s (fst (Broadcast s evt))"
| add_listener: "engine_step s (AddListenerCounting s ch)"
| remove_listener: "engine_step s (RemoveListener s ident)"
| counters: "engine_step s (SetCounters s e d)"
| notify: "engine_step s (SetNotify s b)"

inductive reachable_engine :: "InterfaceState \<Rightarrow> bool" where
  built: "newInterfaceStateWithClock n e d now g = Some s \<Longrightarrow> one_level parents \<Longrightarrow>
    reachable_engine (setOperHook (setLoopbacks (setStacked (setParents s parents) st) lb) hook)"
| operated: "reachable_engine s \<Longrightarrow> engine_step s s' \<Longrightarrow> reachable_engine s'"

lemma SetLinkState_total:
  assumes "wf_engine s"
  shows "safe (SetLinkState s now i v) (\<lambda>(s', _). wf_engine s')"
proof (cases "known s i \<and> 1 \<le> v \<and> v \<le> 7")
  case True
  obtain l a r where "vw s i = (l, a, r)"
    by (cases "vw s i")
  then show ?thesis
    using SetLinkState_spec [OF assms _ _ _ _ refl, of i v l a r now] True by (auto simp: safe_def)
qed (use SetLinkState_out assms in \<open>auto simp: safe_def\<close>)

lemma ApplyAdminStatus_total:
  assumes "wf_engine s"
  shows "safe (ApplyAdminStatus s now i v) (\<lambda>(s', _). wf_engine s')"
proof (cases "known s i \<and> 1 \<le> v \<and> v \<le> 3")
  case True
  obtain l a r where "vw s i = (l, a, r)"
    by (cases "vw s i")
  then show ?thesis
    using ApplyAdminStatus_spec [OF assms _ _ _ _ refl, of i v l a r now] True by (auto simp: safe_def)
qed (use setAdminLeaf_out assms in \<open>auto simp: safe_def ApplyAdminStatus_def\<close>)

lemma step_wf: "engine_step s s' \<Longrightarrow> wf_engine s \<Longrightarrow> wf_engine s'"
proof (induction rule: engine_step.induct)
  case (link s now i v s' m evs)
  then show ?case
    using SetLinkState_total [of s now i v] by (auto simp: safe_def)
next
  case (admin s now i v s' evs)
  then show ?case
    using ApplyAdminStatus_total [of s now i v] by (auto simp: safe_def)
qed (auto simp: Seed_wf Broadcast_wf wf_fields AddListenerCounting_def RemoveListener_def SetCounters_def SetNotify_def)

lemma reachable_wf: "reachable_engine s \<Longrightarrow> wf_engine s"
  by (induction rule: reachable_engine.induct)
    (auto simp: setOperHook_def wf_fields setParents_wf step_wf dest: new_wf)

section \<open>Delivery\<close>

lemma send_to_open:
  assumes "\<not> ch_closed l" and "0 < ch_cap l" and "length (ch_buf l) \<le> ch_cap l"
  shows "send_to evt l =
    (l\<lparr>ch_buf := (if length (ch_buf l) < ch_cap l then ch_buf l else tl (ch_buf l)) @ [evt],
       ch_drops := (if length (ch_buf l) < ch_cap l then ch_drops l else map_option (\<lambda>n. n + 1) (ch_drops l))\<rparr>,
     1, if length (ch_buf l) < ch_cap l then 0 else 1, True)"
  using assms by (cases "ch_buf l") (auto simp: send_to_def)

definition deliver :: "StateChange \<Rightarrow> listener \<Rightarrow> listener" where
  "deliver evt l = fst (send_to evt l)"

definition ready :: "listener \<Rightarrow> bool" where
  "ready l \<longleftrightarrow> \<not> ch_closed l \<and> 0 < ch_cap l \<and> length (ch_buf l) \<le> ch_cap l"


lemma send_all_closed:
  assumes "ch_closed l" and "\<forall>k\<in>set pre. ready k"
  shows "\<exists>e d. send_all evt (pre @ l # post) = (map (deliver evt) pre @ l # post, e, d)"
  using assms(2)
proof (induction pre)
  case Nil
  then show ?case
    using assms(1) by (simp add: send_to_def)
next
  case (Cons k pre)
  then show ?case
    using send_to_open [of k evt] by (auto simp: deliver_def ready_def)
qed



text \<open>A device with two interfaces, the second a subinterface of the first, and one listener, for the
  concrete instances below.\<close>

definition sample_base :: InterfaceState where
  "sample_base = the (newInterfaceStateWithClock 2 (Some 0) (Some 0) 0 (Some 0))"

definition sample_engine :: InterfaceState where
  "sample_engine = setOperHook (setLoopbacks (setStacked (setParents sample_base [(2, 1)]) []) []) True"

definition sample_event :: StateChange where
  "sample_event = \<lparr>IfIndex = 1, Oper = 2, PrevOper = 4, Admin = 1, Link = 2, ev_LastChangeNs = 0,
     Changed = LeafOperStatus, At = 0\<rparr>"

definition sample_listener :: "bool \<Rightarrow> listener" where
  "sample_listener closed = \<lparr>ch_id = 0, ch_cap = 1, ch_buf = [sample_event], ch_closed = closed, ch_drops = None\<rparr>"

lemma sample_reachable: "reachable_engine sample_engine"
proof -
  have "newInterfaceStateWithClock 2 (Some 0) (Some 0) 0 (Some 0) = Some sample_base"
    by (simp add: newInterfaceStateWithClock_def sample_base_def)
  moreover have "one_level [(2, 1)]"
    by (simp add: one_level_def)
  ultimately show ?thesis
    unfolding sample_engine_def by (rule reachable_engine.built)
qed

lemma sample_fields:
  "maxIfIndex sample_engine = 2" "bootTimeUnixNs sample_engine = 0" "slots sample_engine = [0, 0]"
  by (simp_all add: sample_engine_def sample_base_def newInterfaceStateWithClock_def setOperHook_def setLoopbacks_def
      setStacked_def setParents_def Let_def numeral_2_eq_2)

lemma sample_view: "vw sample_engine 1 = (4, 1, 0)" "AdminStatus sample_engine 1 = Some 1"
  by (simp_all add: vw_def AdminStatus_def sample_fields unpackState_def normaliseSlot_def at_def)

section \<open>Properties\<close>

text \<open>
  C19: the packed slot loses nothing. What was packed is unpacked for every legal content, and packing what
  was unpacked gives the same word, so one atomic word carries the three leaves.
\<close>

theorem slot_roundtrip:
  "(l \<le> 7 \<and> a \<le> 7 \<and> r AND lastChangeMask = r \<longrightarrow> unpackState (packState l a r) = (l, a, r))
    \<and> (case unpackState w of (l, a, r) \<Rightarrow> packState l a r) = w"
  using pack_unpack [of w] by (auto simp: unpack_pack byte_and_7)

theorem slot_roundtrip_witness: "unpackState (packState 1 2 5) = (1, 2, 5)"
  using slot_roundtrip [of 1 2 5] by (simp add: lastChangeMask_def)



text \<open>
  C21: the mutators refine the specification of a state change. Seen as an assignment of link, admin and
  last-change to interfaces, a link or admin mutation writes its one leaf and stamps the time on exactly the
  interfaces whose derived status moves with it, and returns exactly the events this calls for, the
  interface first and its subinterfaces in table order; an admin change is announced before.
\<close>

theorem mutators_refine_spec:
  assumes "reachable_engine s" and "1 \<le> i \<and> i \<le> maxIfIndex s" and "vw s i = (l, a, r)"
    and "1 \<le> link \<and> link \<le> 7" and "1 \<le> admin \<and> admin \<le> 3"
    and "rel = wallRelNs (word_of_int now) (bootTimeUnixNs s)"
  shows "(\<exists>s' m. SetLinkState s now i link = Some (s', m, oper_events s i link a now rel)
        \<and> (\<forall>j. 1 \<le> j \<and> j \<le> maxIfIndex s \<longrightarrow> vw s' j = spec_move (par s) (vw s) i link a rel j))
    \<and> (\<exists>s'. ApplyAdminStatus s now i admin
          = Some (s', if a = admin then [] else
              admin_event (bootTimeUnixNs s) (par s) (vw s) i l admin now rel # oper_events s i l admin now rel)
        \<and> (\<forall>j. 1 \<le> j \<and> j \<le> maxIfIndex s \<longrightarrow> vw s' j = spec_move (par s) (vw s) i l admin rel j))"
  using SetLinkState_spec [OF reachable_wf [OF assms(1)] _ _ _ assms(3,6), of link]
    ApplyAdminStatus_spec [OF reachable_wf [OF assms(1)] _ _ _ assms(3,6), of admin] assms(2,4,5)
  unfolding known_def by blast

theorem mutators_refine_spec_witness:
  "(\<exists>s' m. SetLinkState sample_engine 5 1 2
        = Some (s', m, oper_events sample_engine 1 2 1 5 (wallRelNs (word_of_int 5) (bootTimeUnixNs sample_engine)))
      \<and> vw s' 2 = spec_move (par sample_engine) (vw sample_engine) 1 2 1 (wallRelNs (word_of_int 5) (bootTimeUnixNs sample_engine)) 2)"
  using mutators_refine_spec [OF sample_reachable _ sample_view(1) _ _ refl, of 2 2 5] sample_fields(1) by auto

text \<open>
  C22: what the observers see of a link move. The link of the one interface changes and no admin status does;
  for every interface there is one oper event if its status moved, carrying the status before and after, and
  none otherwise; last-change moves with the status only; the outcome says whether the move was visible.
\<close>

theorem link_move_observed:
  assumes "reachable_engine s" and "1 \<le> i \<and> i \<le> maxIfIndex s" and "1 \<le> link \<and> link \<le> 7"
    and "SetLinkState s now i link = Some (s', m, evs)" and "1 \<le> j \<and> j \<le> maxIfIndex s"
  shows "LinkState s' j = (if j = i then Some link else LinkState s j) \<and> AdminStatus s' j = AdminStatus s j
    \<and> (OperStatus s' j = OperStatus s j \<longrightarrow> LastChangeNs s' j = LastChangeNs s j)
    \<and> map (\<lambda>e. (Some (PrevOper e), Some (Oper e), Some (ev_LastChangeNs e), Changed e)) (filter (\<lambda>e. IfIndex e = j) evs)
      = (if OperStatus s' j = OperStatus s j then []
         else [(OperStatus s j, OperStatus s' j, LastChangeNs s' j, LeafOperStatus)])
    \<and> (m = LinkUnchanged \<longleftrightarrow> LinkState s i = Some link)
    \<and> (m = LinkMovedVisible \<longleftrightarrow> OperStatus s' i \<noteq> OperStatus s i)"
proof -
  note wf = reachable_wf [OF assms(1)]
  have k: "known s i" "known s j"
    using assms(2,5) by (auto simp: known_def)
  obtain l a r where v: "vw s i = (l, a, r)"
    by (cases "vw s i")
  let ?rel = "wallRelNs (word_of_int now) (bootTimeUnixNs s)"
  have "wf_engine s'" and m: "m = (if l = link then LinkUnchanged
      else if oper_moved (par s) (vw s) i link a i then LinkMovedVisible else LinkMovedMasked)"
    and evs: "evs = oper_events s i link a now ?rel"
    and "\<forall>j. known s j \<longrightarrow> vw s' j = spec_move (par s) (vw s) i link a ?rel j"
    and "rest_of s' = rest_of (if oper_moved (par s) (vw s) i link a i then invalidateLLDPServedCache s else s)"
    using SetLinkState_spec [OF wf k(1) _ _ v refl, of link now] assms(3,4) by auto
  then have obs: "known s j \<Longrightarrow> OperStatus s' j = Some (oper_of (par s) (leaf_set (vw s) i link a) j)"
    "known s j \<Longrightarrow> LinkState s' j = (if j = i then Some link else LinkState s j)"
    "known s j \<Longrightarrow> AdminStatus s' j = (if j = i then Some a else AdminStatus s j)"
    "known s j \<Longrightarrow> LastChangeNs s' j = (if oper_moved (par s) (vw s) i link a j
      then Some (lastChangeAbs (bootTimeUnixNs s) ?rel) else LastChangeNs s j)" for j
    using observers_after [OF wf, of s' _ i link a ?rel j] by auto
  have moved: "oper_moved (par s) (vw s) i link a j \<longleftrightarrow> OperStatus s' j \<noteq> OperStatus s j" if "known s j" for j
    using obs(1) [OF that] OperStatus_eq [OF wf that] by (auto simp: oper_moved_def)
  have same: "l = link \<longleftrightarrow> LinkState s i = Some link"
    using LinkState_eq [OF wf k(1)] v by simp
  have "l = link \<Longrightarrow> \<not> oper_moved (par s) (vw s) i link a i"
    using leaf_set_same [OF v] by (simp add: oper_moved_def)
  then show ?thesis
    using obs [OF k(2)] moved [OF k(2)] moved [OF k(1)] m same AdminStatus_eq [OF wf k(1)] v OperStatus_eq [OF wf k(2)]
    unfolding evs oper_events_of [OF wf k] by (auto simp: oper_event_def split: prod.splits if_splits)
qed

theorem link_move_observed_witness:
  "\<exists>s' m evs. SetLinkState sample_engine 5 1 2 = Some (s', m, evs)
    \<and> LinkState s' 1 = Some 2 \<and> AdminStatus s' 1 = AdminStatus sample_engine 1
    \<and> (m = LinkMovedVisible \<longleftrightarrow> OperStatus s' 1 \<noteq> OperStatus sample_engine 1)"
proof -
  obtain s' m evs where run: "SetLinkState sample_engine 5 1 2 = Some (s', m, evs)"
    using SetLinkState_total [OF reachable_wf [OF sample_reachable], of 5 1 2] by (auto simp: safe_def)
  then show ?thesis
    using link_move_observed [OF sample_reachable _ _ run, of 1] sample_fields(1) by auto
qed

text \<open>
  C23: an admin bounce neither repairs nor damages anything. Shutting an interface makes it oper-down;
  unshutting it again brings every interface of the device back to the status, link and admin state it had,
  whatever its link was, and an interface whose status did not move keeps its last-change.
\<close>

theorem admin_bounce:
  assumes "reachable_engine s" and "1 \<le> i \<and> i \<le> maxIfIndex s" and "AdminStatus s i = Some AdminUp"
    and "ApplyAdminStatus s t1 i AdminDown = Some (s1, evs1)" and "ApplyAdminStatus s1 t2 i AdminUp = Some (s2, evs2)"
    and "1 \<le> j \<and> j \<le> maxIfIndex s"
  shows "OperStatus s1 i = Some OperDown \<and> OperStatus s2 j = OperStatus s j
    \<and> LinkState s2 j = LinkState s j \<and> AdminStatus s2 j = AdminStatus s j
    \<and> (OperStatus s1 j = OperStatus s j \<longrightarrow> LastChangeNs s1 j = LastChangeNs s j)"
proof -
  note wf = reachable_wf [OF assms(1)]
  have k: "known s i" "known s j"
    using assms(2,6) by (auto simp: known_def)
  obtain l r where v: "vw s i = (l, 1, r)"
    using AdminStatus_eq [OF wf k(1)] assms(3) by (cases "vw s i") auto
  note A = ApplyAdminStatus_observed [OF wf k(1) _ v assms(4)]
  have v1: "vw s1 i = (l, 2, snd (snd (vw s1 i)))"
    using A(4,5) [OF _ k(1)] v by (auto simp: prod_eq_iff)
  have k1: "known s1 i" "known s1 j" and wf1: "wf_engine s1"
    using A(1,2) k by auto
  note B = ApplyAdminStatus_observed [OF wf1 k1(1) _ v1 assms(5)]
  have wf2: "wf_engine s2" and k2: "known s2 j"
    using B(1,2) k1 by auto
  have "oper_of (par s) (leaf_set (vw s1) i l 1) j = oper_of (par s) (vw s) j"
    by (rule oper_of_cong [OF wf k(2)]) (use A(4,5) v in \<open>auto simp: leaf_set_def\<close>)
  then have "OperStatus s2 j = OperStatus s j"
    using B(6) [OF _ k1(2)] A(3) OperStatus_eq [OF wf k(2)] by simp
  moreover have "LinkState s2 j = LinkState s j" "AdminStatus s2 j = AdminStatus s j"
    using LinkState_eq [OF wf k(2)] LinkState_eq [OF wf2 k2] AdminStatus_eq [OF wf k(2)] AdminStatus_eq [OF wf2 k2]
      A(4,5) [OF _ k(2)] B(4,5) [OF _ k1(2)] v by auto
  moreover have "OperStatus s1 i = Some OperDown"
    using A(6) [OF _ k(1)] by (simp add: oper_of_def leaf_set_def deriveChildOper_def deriveOper_def)
  moreover have "LastChangeNs s1 j = LastChangeNs s j" if "OperStatus s1 j = OperStatus s j"
    using A(7) [OF _ k(2)] A(6) [OF _ k(2)] OperStatus_eq [OF wf k(2)] that by (auto simp: oper_moved_def)
  ultimately show ?thesis
    by blast
qed

theorem admin_bounce_witness:
  "\<exists>s1 evs1 s2 evs2. ApplyAdminStatus sample_engine 5 1 2 = Some (s1, evs1) \<and> ApplyAdminStatus s1 6 1 1 = Some (s2, evs2)
    \<and> OperStatus s1 1 = Some OperDown \<and> OperStatus s2 2 = OperStatus sample_engine 2"
proof -
  obtain s1 evs1 where run1: "ApplyAdminStatus sample_engine 5 1 2 = Some (s1, evs1)" and wf: "wf_engine s1"
    using ApplyAdminStatus_total [OF reachable_wf [OF sample_reachable], of 5 1 2] by (auto simp: safe_def)
  obtain s2 evs2 where run2: "ApplyAdminStatus s1 6 1 1 = Some (s2, evs2)"
    using ApplyAdminStatus_total [OF wf, of 6 1 1] by (auto simp: safe_def)
  show ?thesis
    using admin_bounce [OF sample_reachable _ sample_view(2) run1 run2, of 2] sample_fields(1) run1 run2 by auto
qed



text \<open>
  C25: one subscriber that closed its channel without deregistering silences others: the listeners the
  iteration reaches after it receive nothing, because the recovered callback returns false and ends the
  iteration. The hooks still run.
\<close>

theorem closed_listener_silences:
  assumes "listeners s = pre @ l # post" and "ch_closed l"
    and "\<forall>k\<in>set pre. \<not> ch_closed k \<and> 0 < ch_cap k \<and> length (ch_buf k) \<le> ch_cap k"
  shows "drop (length pre) (listeners (fst (Broadcast s evt))) = l # post"
proof -
  obtain e d where "send_all evt (listeners s) = (map (deliver evt) pre @ l # post, e, d)"
    using send_all_closed [OF assms(2), of pre evt post] assms(1,3) by (auto simp: ready_def)
  then show ?thesis
    by (simp add: Broadcast_def Let_def assms(1))
qed

theorem closed_listener_silences_witness:
  "listeners (fst (Broadcast (sample_engine\<lparr>listeners := [sample_listener True, sample_listener False]\<rparr>) sample_event))
    = [sample_listener True, sample_listener False]"
  using closed_listener_silences [of "sample_engine\<lparr>listeners := [sample_listener True, sample_listener False]\<rparr>" "[]"
      "sample_listener True" "[sample_listener False]" sample_event]
  by (simp add: sample_listener_def)

end
