(* ===== verification/Snmp_Set.thy ===== *)
theory Snmp_Set
  imports Snmp_Response Snmp_Echo If_State
begin

text \<open>
  SNMP SET, \<^verbatim>\<open>snmp_set.go\<close>: the writable set, the RFC 3416 test ladder, the apply step over the interface
  state engine, the v1/v2c handler and the two admission rules.

  A device's engine and the ifIndex list its counter cycler owns are the two components of \<open>set_device\<close>;
  both are absent on a device without a cycler. The clock is a function from the position of a binding to
  the reading its mutator takes. The loop over the validated assignments is stated for any engine with an
  admin mutator and a broadcast, and the locale \<open>admin_funnel\<close> is the contract it relies on.
\<close>

section \<open>The writable set\<close>

record writableObject =
  wo_column :: string
  wo_tag :: byte
  wo_inRange :: "int \<Rightarrow> bool"

definition ifAdminStatusColumn :: string where
  "ifAdminStatusColumn = ''1.3.6.1.2.1.2.2.1.7''"

definition writableColumns :: "writableObject list" where
  "writableColumns =
     [\<lparr>wo_column = ''1.3.6.1.2.1.2.2.1.7'', wo_tag = ASN1_INTEGER,
       wo_inRange = (\<lambda>v. uint AdminUp \<le> v \<and> v \<le> uint AdminTesting)\<rparr>]"

record setVerdict =
  errStatus :: int
  errIndex :: int

record setAction =
  act_column :: string
  act_ifIndex :: int
  act_value :: int

fun writable_in :: "writableObject list \<Rightarrow> string \<Rightarrow> (writableObject \<times> string) option" where
  "writable_in [] n = None"
| "writable_in (w # ws) n =
     (if n = wo_column w then Some (w, [])
      else if HasPrefix n (wo_column w @ [dot]) then Some (w, drop (length (wo_column w) + 1) n)
      else writable_in ws n)"

definition writableFor :: "string \<Rightarrow> (writableObject \<times> string) option" where
  "writableFor name = writable_in writableColumns (TrimPrefix name ''.'')"

definition instanceIndex :: "string \<Rightarrow> int option" where
  "instanceIndex suffix =
     (if suffix = [] \<or> dot \<in> set suffix then None
      else case Atoi suffix of
             None \<Rightarrow> None
           | Some n \<Rightarrow> if n \<le> 0 \<or> Itoa n \<noteq> suffix then None else Some n)"

section \<open>Validation\<close>

text \<open>The tests on one binding, in the order of the code: the status of the first that fails, or the action.\<close>

definition set_tests :: "(int \<Rightarrow> bool) \<Rightarrow> snmpVarBind \<Rightarrow> (int + setAction) option" where
  "set_tests ownsIfIndex b =
     (case writableFor (vb_name b) of
        None \<Rightarrow> Some (Inl snmpErrNotWritable)
      | Some (row, suffix) \<Rightarrow>
          if vb_tag b \<noteq> wo_tag row then Some (Inl snmpErrWrongType)
          else do {
            (v, ok) \<leftarrow> parseBERInt (vb_content b) 0 (int (length (vb_content b)));
            if \<not> ok then Some (Inl snmpErrWrongEncoding)
            else if \<not> wo_inRange row v then Some (Inl snmpErrWrongValue)
            else (case instanceIndex suffix of
                    None \<Rightarrow> Some (Inl snmpErrNoCreation)
                  | Some n \<Rightarrow>
                      if \<not> ownsIfIndex n then Some (Inl snmpErrNoCreation)
                      else Some (Inr \<lparr>act_column = wo_column row, act_ifIndex = n, act_value = v\<rparr>)) })"

fun validate_loop :: "(int \<Rightarrow> bool) \<Rightarrow> snmpVarBind list \<Rightarrow> int \<Rightarrow> setAction list \<Rightarrow> (setAction list \<times> setVerdict) option" where
  "validate_loop ownsIfIndex [] idx actions = Some (actions, \<lparr>errStatus = snmpErrNoError, errIndex = 0\<rparr>)"
| "validate_loop ownsIfIndex (b # bs) idx actions = do {
     r \<leftarrow> set_tests ownsIfIndex b;
     (case r of
        Inl st \<Rightarrow> Some ([], \<lparr>errStatus = st, errIndex = idx\<rparr>)
      | Inr a \<Rightarrow> validate_loop ownsIfIndex bs (idx + 1) (actions @ [a])) }"

definition validateSetBindings :: "(int \<Rightarrow> bool) \<Rightarrow> snmpVarBind list \<Rightarrow> (setAction list \<times> setVerdict) option" where
  "validateSetBindings ownsIfIndex binds = validate_loop ownsIfIndex binds 1 []"

section \<open>The apply step\<close>

record set_device =
  dev_state :: "InterfaceState option"
  dev_indices :: "int list"

definition ownsIfIndex :: "set_device \<Rightarrow> int \<Rightarrow> bool" where
  "ownsIfIndex d n \<longleftrightarrow> n \<in> set (dev_indices d)"

text \<open>The inner loop: every event of one mutation is broadcast, in order.\<close>

fun broadcast_all :: "('e \<Rightarrow> 'v \<Rightarrow> 'e \<times> 'c list) \<Rightarrow> 'e \<Rightarrow> 'v list \<Rightarrow> 'c list \<Rightarrow> 'e \<times> 'c list" where
  "broadcast_all bcast e [] calls = (e, calls)"
| "broadcast_all bcast e (v # vs) calls =
     (let (e', cs) = bcast e v in broadcast_all bcast e' vs (calls @ cs))"

fun apply_loop ::
  "('e \<Rightarrow> int \<Rightarrow> int \<Rightarrow> byte \<Rightarrow> ('e \<times> 'v list) option) \<Rightarrow> ('e \<Rightarrow> 'v \<Rightarrow> 'e \<times> 'c list) \<Rightarrow> (int \<Rightarrow> int)
   \<Rightarrow> setAction list \<Rightarrow> int \<Rightarrow> 'e option \<Rightarrow> 'c list \<Rightarrow> ('e option \<times> 'c list \<times> setVerdict) option" where
  "apply_loop app bcast clock [] i e calls = Some (e, calls, \<lparr>errStatus = snmpErrNoError, errIndex = 0\<rparr>)"
| "apply_loop app bcast clock (a # as) i e calls =
     (case e of
        None \<Rightarrow> Some (e, calls, \<lparr>errStatus = snmpErrGenErr, errIndex = i + 1\<rparr>)
      | Some e0 \<Rightarrow>
          if act_column a \<noteq> ifAdminStatusColumn
          then Some (e, calls, \<lparr>errStatus = snmpErrGenErr, errIndex = i + 1\<rparr>)
          else do {
            (e1, evts) \<leftarrow> app e0 (clock i) (act_ifIndex a) (word_of_int (act_value a));
            let (e2, calls) = broadcast_all bcast e1 evts calls;
            apply_loop app bcast clock as (i + 1) (Some e2) calls })"

definition applySetActions ::
  "set_device \<Rightarrow> (int \<Rightarrow> int) \<Rightarrow> setAction list \<Rightarrow> (set_device \<times> HookCall list \<times> setVerdict) option" where
  "applySetActions d clock actions = do {
     (e, calls, v) \<leftarrow> apply_loop ApplyAdminStatus Broadcast clock actions 0 (dev_state d) [];
     Some (d\<lparr>dev_state := e\<rparr>, calls, v) }"

definition decideSet ::
  "set_device \<Rightarrow> (int \<Rightarrow> int) \<Rightarrow> snmpVarBind list \<Rightarrow> (set_device \<times> HookCall list \<times> setVerdict) option" where
  "decideSet d clock binds = do {
     (actions, verdict) \<leftarrow> validateSetBindings (ownsIfIndex d) binds;
     if errStatus verdict \<noteq> snmpErrNoError then Some (d, [], verdict)
     else applySetActions d clock actions }"


section \<open>Admission\<close>

datatype snmpSecurityLevel =
  securityLevelUnset | securityLevelNoAuthNoPriv | securityLevelAuthNoPriv | securityLevelAuthPriv

fun level_rank :: "snmpSecurityLevel \<Rightarrow> nat" where
  "level_rank securityLevelUnset = 0"
| "level_rank securityLevelNoAuthNoPriv = 1"
| "level_rank securityLevelAuthNoPriv = 2"
| "level_rank securityLevelAuthPriv = 3"

instantiation snmpSecurityLevel :: linorder
begin

definition less_eq_snmpSecurityLevel :: "snmpSecurityLevel \<Rightarrow> snmpSecurityLevel \<Rightarrow> bool" where
  "less_eq_snmpSecurityLevel a b \<longleftrightarrow> level_rank a \<le> level_rank b"

definition less_snmpSecurityLevel :: "snmpSecurityLevel \<Rightarrow> snmpSecurityLevel \<Rightarrow> bool" where
  "less_snmpSecurityLevel a b \<longleftrightarrow> level_rank a < level_rank b"

instance
proof
  fix a b :: snmpSecurityLevel
  show "a \<le> b \<Longrightarrow> b \<le> a \<Longrightarrow> a = b"
    by (cases a; cases b) (simp_all add: less_eq_snmpSecurityLevel_def)
qed (auto simp: less_eq_snmpSecurityLevel_def less_snmpSecurityLevel_def)

end

record setAdmissionConfig =
  WriteCommunity :: string
  MinSecurityLevel :: snmpSecurityLevel

definition effectiveMinSecurityLevel :: "setAdmissionConfig \<Rightarrow> snmpSecurityLevel" where
  "effectiveMinSecurityLevel c =
     (if MinSecurityLevel c = securityLevelUnset then securityLevelAuthNoPriv else MinSecurityLevel c)"

abbreviation (input) SNMPV3_MSG_FLAG_AUTH :: byte where "SNMPV3_MSG_FLAG_AUTH \<equiv> 0x01"
abbreviation (input) SNMPV3_MSG_FLAG_PRIV :: byte where "SNMPV3_MSG_FLAG_PRIV \<equiv> 0x02"

definition securityLevelOf :: "byte \<Rightarrow> snmpSecurityLevel" where
  "securityLevelOf flags =
     (let auth = (and flags SNMPV3_MSG_FLAG_AUTH \<noteq> 0); priv = (and flags SNMPV3_MSG_FLAG_PRIV \<noteq> 0)
      in if auth \<and> priv then securityLevelAuthPriv
         else if auth then securityLevelAuthNoPriv
         else securityLevelNoAuthNoPriv)"

definition admitSetV2c :: "setAdmissionConfig \<Rightarrow> SNMPRequest \<Rightarrow> bool" where
  "admitSetV2c cfg req =
     (let want = WriteCommunity cfg
      in if want = [] then False
         else if \<not> CommunityParsed req then False
         else Community req = want)"

definition admitSetV3 :: "setAdmissionConfig \<Rightarrow> byte \<Rightarrow> bool" where
  "admitSetV3 cfg msgFlags \<longleftrightarrow> effectiveMinSecurityLevel cfg \<le> securityLevelOf msgFlags"

section \<open>The contract with the state engine\<close>

text \<open>The value an interface ends with when the assignments are made in order.\<close>

definition assigned :: "setAction list \<Rightarrow> int \<Rightarrow> byte option \<Rightarrow> byte option" where
  "assigned as j = fold (\<lambda>a m. if act_ifIndex a = j then Some (word_of_int (act_value a)) else m) as"

definition good_action :: "(int \<Rightarrow> bool) \<Rightarrow> setAction \<Rightarrow> bool" where
  "good_action own a \<longleftrightarrow> act_column a = ifAdminStatusColumn \<and> own (act_ifIndex a) \<and> 1 \<le> act_value a \<and> act_value a \<le> 3"

locale admin_funnel =
  fixes app :: "'e \<Rightarrow> int \<Rightarrow> int \<Rightarrow> byte \<Rightarrow> ('e \<times> 'v list) option"
    and bcast :: "'e \<Rightarrow> 'v \<Rightarrow> 'e \<times> 'c list"
    and ok :: "'e \<Rightarrow> bool" and owns :: "'e \<Rightarrow> int \<Rightarrow> bool" and admin_of :: "'e \<Rightarrow> int \<Rightarrow> byte option"
  assumes app_law: "ok e \<Longrightarrow> owns e i \<Longrightarrow> 1 \<le> v \<Longrightarrow> v \<le> 3 \<Longrightarrow>
      \<exists>e' evs. app e now i v = Some (e', evs) \<and> ok e' \<and> owns e' = owns e
        \<and> (\<forall>j. owns e j \<longrightarrow> admin_of e' j = (if j = i then Some v else admin_of e j))"
    and bcast_law: "ok e \<Longrightarrow> ok (fst (bcast e ev)) \<and> owns (fst (bcast e ev)) = owns e
      \<and> admin_of (fst (bcast e ev)) = admin_of e"
begin

lemma broadcast_all_keeps:
  assumes "ok e"
  shows "ok (fst (broadcast_all bcast e evs calls)) \<and> owns (fst (broadcast_all bcast e evs calls)) = owns e
    \<and> admin_of (fst (broadcast_all bcast e evs calls)) = admin_of e"
  using assms
proof (induction evs arbitrary: e calls)
  case (Cons v vs)
  then show ?case
    using bcast_law [of e v] by (simp add: Let_def case_prod_beta)
qed simp

lemma apply_loop_all:
  assumes "ok e" and "\<forall>a\<in>set as. good_action (owns e) a"
  shows "\<exists>e' calls'. apply_loop app bcast clock as i (Some e) calls
      = Some (Some e', calls', \<lparr>errStatus = snmpErrNoError, errIndex = 0\<rparr>)
    \<and> ok e' \<and> owns e' = owns e \<and> (\<forall>j. owns e j \<longrightarrow> admin_of e' j = assigned as j (admin_of e j))"
  using assms
proof (induction as arbitrary: e i calls)
  case (Cons a as)
  let ?v = "word_of_int (act_value a) :: byte"
  have a: "act_column a = ifAdminStatusColumn" "owns e (act_ifIndex a)" "1 \<le> act_value a" "act_value a \<le> 3"
    using Cons.prems(2) by (auto simp: good_action_def)
  have "1 \<le> ?v" "?v \<le> 3"
    using a(3,4) by (simp_all add: word_le_def uint_word_of_int take_bit_eq_mod)
  then obtain e1 evs where e1: "app e (clock i) (act_ifIndex a) ?v = Some (e1, evs)" "ok e1" "owns e1 = owns e"
    "\<forall>j. owns e j \<longrightarrow> admin_of e1 j = (if j = act_ifIndex a then Some ?v else admin_of e j)"
    using app_law [OF Cons.prems(1) a(2)] by metis
  obtain e2 calls2 where e2: "broadcast_all bcast e1 evs calls = (e2, calls2)"
    by fastforce
  then have k: "ok e2" "owns e2 = owns e" "admin_of e2 = admin_of e1"
    using broadcast_all_keeps [OF e1(2), of evs calls] e1(3) by auto
  obtain e' calls' where "apply_loop app bcast clock as (i + 1) (Some e2) calls2
      = Some (Some e', calls', \<lparr>errStatus = snmpErrNoError, errIndex = 0\<rparr>)" "ok e'" "owns e' = owns e2"
    "\<forall>j. owns e2 j \<longrightarrow> admin_of e' j = assigned as j (admin_of e2 j)"
    using Cons.IH [OF k(1), of "i + 1" calls2] Cons.prems(2) k(2) by auto
  then show ?case
    using a(1) e1 e2 k by (auto simp: assigned_def)
qed (simp add: assigned_def)

end

lemma AdminStatus_Broadcast: "AdminStatus (fst (Broadcast e ev)) = AdminStatus e"
  by (simp add: fun_eq_iff AdminStatus_def Broadcast_def Let_def case_prod_beta)

lemma known_Broadcast: "known (fst (Broadcast e ev)) = known e"
  by (simp add: Broadcast_def Let_def case_prod_beta)

lemma ApplyAdminStatus_admin:
  assumes "reachable_engine e" and "known e i" and "1 \<le> v" and "v \<le> 3"
  shows "\<exists>e' evs. ApplyAdminStatus e now i v = Some (e', evs) \<and> reachable_engine e' \<and> known e' = known e
    \<and> (\<forall>j. known e j \<longrightarrow> AdminStatus e' j = (if j = i then Some v else AdminStatus e j))"
proof -
  note wf = reachable_wf [OF assms(1)]
  obtain l a r where vw: "vw e i = (l, a, r)"
    by (cases "vw e i")
  obtain e' evs where run: "ApplyAdminStatus e now i v = Some (e', evs)"
    using ApplyAdminStatus_total [OF wf, of now i v] by (auto simp: safe_def)
  note obs = ApplyAdminStatus_observed [OF wf assms(2) _ vw run]
  have "AdminStatus e' j = (if j = i then Some v else AdminStatus e j)" if "known e j" for j
    using AdminStatus_eq [OF wf that] AdminStatus_eq [OF obs(1), of j] obs(2,5) that assms(3,4) by auto
  then show ?thesis
    using run operated [OF assms(1) engine_step.admin [OF run]] obs(2) assms(3,4) by blast
qed

interpretation funnel: admin_funnel ApplyAdminStatus Broadcast reachable_engine known AdminStatus
proof unfold_locales
  fix e i and v :: byte and now
  assume "reachable_engine e" "known e i" "1 \<le> v" "v \<le> 3"
  then show "\<exists>e' evs. ApplyAdminStatus e now i v = Some (e', evs) \<and> reachable_engine e' \<and> known e' = known e
      \<and> (\<forall>j. known e j \<longrightarrow> AdminStatus e' j = (if j = i then Some v else AdminStatus e j))"
    by (rule ApplyAdminStatus_admin)
next
  fix e ev
  assume "reachable_engine e"
  then show "reachable_engine (fst (Broadcast e ev)) \<and> known (fst (Broadcast e ev)) = known e
      \<and> AdminStatus (fst (Broadcast e ev)) = AdminStatus e"
    using operated engine_step.broadcast AdminStatus_Broadcast known_Broadcast by blast
qed

section \<open>The ladder\<close>

lemma set_tests_total: "safe (set_tests own b) (\<lambda>r. case r of Inl st \<Rightarrow> st \<noteq> snmpErrNoError | Inr a \<Rightarrow> good_action own a)"
proof (cases "writableFor (vb_name b)")
  case None
  then show ?thesis
    by (simp add: set_tests_def)
next
  case (Some ws)
  obtain row suffix where ws: "ws = (row, suffix)"
    by (cases ws)
  then have row: "row = \<lparr>wo_column = ''1.3.6.1.2.1.2.2.1.7'', wo_tag = ASN1_INTEGER,
       wo_inRange = (\<lambda>v. uint AdminUp \<le> v \<and> v \<le> uint AdminTesting)\<rparr>"
    using Some by (auto simp: writableFor_def writableColumns_def split: if_splits)
  have "safe (parseBERInt (vb_content b) 0 (int (length (vb_content b)))) (\<lambda>_. True)"
    by (intro safe_intros) simp_all
  then obtain v ok where "parseBERInt (vb_content b) 0 (int (length (vb_content b))) = Some (v, ok)"
    by (auto simp: safe_def)
  then show ?thesis
    using Some by (auto simp: set_tests_def ws row good_action_def ifAdminStatusColumn_def safe_def split: option.splits)
qed

text \<open>The verdict as the first failing binding, and the assignments when none fails.\<close>

lemma validate_loop_cases:
  "(\<exists>acts. map (set_tests own) bs = map (Some \<circ> Inr) acts \<and> (\<forall>a\<in>set acts. good_action own a)
      \<and> validate_loop own bs idx pre = Some (pre @ acts, \<lparr>errStatus = snmpErrNoError, errIndex = 0\<rparr>))
   \<or> (\<exists>k st. k < length bs \<and> set_tests own (bs ! k) = Some (Inl st) \<and> st \<noteq> snmpErrNoError
      \<and> (\<forall>m<k. \<exists>a. set_tests own (bs ! m) = Some (Inr a))
      \<and> validate_loop own bs idx pre = Some ([], \<lparr>errStatus = st, errIndex = idx + int k\<rparr>))"
proof (induction bs arbitrary: idx pre)
  case (Cons b bs)
  obtain r where r: "set_tests own b = Some r"
    and good: "case r of Inl st \<Rightarrow> st \<noteq> snmpErrNoError | Inr a \<Rightarrow> good_action own a"
    using set_tests_total [of own b] by (auto simp: safe_def)
  show ?case
  proof (cases r)
    case (Inl st)
    then show ?thesis
      using r good by (intro disjI2 exI [of _ 0] exI [of _ st]) simp
  next
    case (Inr a)
    from Cons.IH [of "idx + 1" "pre @ [a]"] show ?thesis
    proof
      assume "\<exists>acts. map (set_tests own) bs = map (Some \<circ> Inr) acts \<and> (\<forall>a\<in>set acts. good_action own a)
        \<and> validate_loop own bs (idx + 1) (pre @ [a]) = Some ((pre @ [a]) @ acts, \<lparr>errStatus = snmpErrNoError, errIndex = 0\<rparr>)"
      then obtain acts where "map (set_tests own) bs = map (Some \<circ> Inr) acts" "\<forall>a\<in>set acts. good_action own a"
        "validate_loop own bs (idx + 1) (pre @ [a]) = Some ((pre @ [a]) @ acts, \<lparr>errStatus = snmpErrNoError, errIndex = 0\<rparr>)"
        by blast
      then show ?thesis
        using r Inr good by (intro disjI1 exI [of _ "a # acts"]) simp
    next
      assume "\<exists>k st. k < length bs \<and> set_tests own (bs ! k) = Some (Inl st) \<and> st \<noteq> snmpErrNoError
        \<and> (\<forall>m<k. \<exists>a. set_tests own (bs ! m) = Some (Inr a))
        \<and> validate_loop own bs (idx + 1) (pre @ [a]) = Some ([], \<lparr>errStatus = st, errIndex = idx + 1 + int k\<rparr>)"
      then obtain k st where k: "k < length bs" "set_tests own (bs ! k) = Some (Inl st)" "st \<noteq> snmpErrNoError"
        "\<forall>m<k. \<exists>a. set_tests own (bs ! m) = Some (Inr a)"
        "validate_loop own bs (idx + 1) (pre @ [a]) = Some ([], \<lparr>errStatus = st, errIndex = idx + 1 + int k\<rparr>)"
        by blast
      have "\<exists>a. set_tests own ((b # bs) ! m) = Some (Inr a)" if "m < Suc k" for m
        using that k(4) r Inr by (cases m) auto
      then show ?thesis
        using r Inr k by (intro disjI2 exI [of _ "Suc k"] exI [of _ st]) simp
    qed
  qed
qed simp








section \<open>Properties\<close>

text \<open>
  C30: a SET is all or nothing. On a device whose owned indices the engine knows, the ladder either stops at
  the first binding that fails one of the tests, with that binding's status and 1-based index and the device
  unchanged and no hook run, or every binding passes and then every assignment is made, in order, with
  noError: each owned interface ends with the admin status last assigned to it. Neither part panics, and the
  genErr branch of the apply step is never taken.
\<close>

theorem set_all_or_nothing:
  assumes "dev_state d = Some e" and "reachable_engine e" and "\<forall>i\<in>set (dev_indices d). known e i"
  shows "(\<exists>k st. k < length binds \<and> set_tests (ownsIfIndex d) (binds ! k) = Some (Inl st) \<and> st \<noteq> snmpErrNoError
      \<and> (\<forall>m<k. \<exists>a. set_tests (ownsIfIndex d) (binds ! m) = Some (Inr a))
      \<and> decideSet d clock binds = Some (d, [], \<lparr>errStatus = st, errIndex = int k + 1\<rparr>))
    \<or> (\<exists>acts e' calls. map (set_tests (ownsIfIndex d)) binds = map (Some \<circ> Inr) acts
      \<and> decideSet d clock binds = Some (d\<lparr>dev_state := Some e'\<rparr>, calls, \<lparr>errStatus = snmpErrNoError, errIndex = 0\<rparr>)
      \<and> reachable_engine e'
      \<and> (\<forall>j. known e j \<longrightarrow> AdminStatus e' j = assigned acts j (AdminStatus e j)))"
proof -
  from validate_loop_cases [of "ownsIfIndex d" binds 1 "[]"] show ?thesis
  proof
    assume "\<exists>acts. map (set_tests (ownsIfIndex d)) binds = map (Some \<circ> Inr) acts
        \<and> (\<forall>a\<in>set acts. good_action (ownsIfIndex d) a)
        \<and> validate_loop (ownsIfIndex d) binds 1 [] = Some ([] @ acts, \<lparr>errStatus = snmpErrNoError, errIndex = 0\<rparr>)"
    then obtain acts where acts: "map (set_tests (ownsIfIndex d)) binds = map (Some \<circ> Inr) acts"
      "\<forall>a\<in>set acts. good_action (ownsIfIndex d) a"
      "validate_loop (ownsIfIndex d) binds 1 [] = Some (acts, \<lparr>errStatus = snmpErrNoError, errIndex = 0\<rparr>)"
      by auto
    have "\<forall>a\<in>set acts. good_action (known e) a"
      using acts(2) assms(3) by (auto simp: good_action_def ownsIfIndex_def)
    then obtain e' calls where "apply_loop ApplyAdminStatus Broadcast clock acts 0 (Some e) []
        = Some (Some e', calls, \<lparr>errStatus = snmpErrNoError, errIndex = 0\<rparr>)" "reachable_engine e'"
      "\<forall>j. known e j \<longrightarrow> AdminStatus e' j = assigned acts j (AdminStatus e j)"
      using funnel.apply_loop_all [OF assms(2), of acts clock 0 "[]"] by blast
    then show ?thesis
      using acts by (intro disjI2 exI [of _ acts] exI [of _ e'] exI [of _ calls])
        (simp add: decideSet_def validateSetBindings_def applySetActions_def assms(1))
  next
    assume "\<exists>k st. k < length binds \<and> set_tests (ownsIfIndex d) (binds ! k) = Some (Inl st) \<and> st \<noteq> snmpErrNoError
        \<and> (\<forall>m<k. \<exists>a. set_tests (ownsIfIndex d) (binds ! m) = Some (Inr a))
        \<and> validate_loop (ownsIfIndex d) binds 1 [] = Some ([], \<lparr>errStatus = st, errIndex = 1 + int k\<rparr>)"
    then show ?thesis
      by (intro disjI1) (auto simp: decideSet_def validateSetBindings_def add.commute)
  qed
qed


definition sample_device :: set_device where
  "sample_device = \<lparr>dev_state = Some sample_engine, dev_indices = [1]\<rparr>"

theorem set_all_or_nothing_witness:
  "decideSet sample_device (\<lambda>_. 0) [\<lparr>vb_name = ''.1.2'', vb_tag = ASN1_INTEGER, vb_content = [2]\<rparr>]
    = Some (sample_device, [], \<lparr>errStatus = snmpErrNotWritable, errIndex = 1\<rparr>)"
proof -
  have "set_tests (ownsIfIndex sample_device) \<lparr>vb_name = ''.1.2'', vb_tag = ASN1_INTEGER, vb_content = [2]\<rparr>
      = Some (Inl snmpErrNotWritable)"
    by (simp add: set_tests_def writableFor_def writableColumns_def TrimPrefix_def HasPrefix_def)
  then show ?thesis
    using set_all_or_nothing [of sample_device sample_engine
        "[\<lparr>vb_name = ''.1.2'', vb_tag = ASN1_INTEGER, vb_content = [2]\<rparr>]" "\<lambda>_. 0"] sample_reachable sample_fields(1)
    by (auto simp: sample_device_def known_def)
qed


end
