(* ===== verification/If_Cas.thy ===== *)
theory If_Cas
  imports If_State
begin









definition swap :: "InterfaceState \<Rightarrow> int \<Rightarrow> u64 \<Rightarrow> bool \<Rightarrow> InterfaceState" where
  "swap s i w visible =
     (if visible then invalidateLLDPServedCache (store s (i - 1) w) else store s (i - 1) w)"


section \<open>Steps keep what a running thread relies on\<close>




lemma swap_fields [simp]:
  "par (swap s i w b) = par s" "kids (swap s i w b) = kids s" "known (swap s i w b) = known s"
  "bootTimeUnixNs (swap s i w b) = bootTimeUnixNs s"
  by (simp_all add: swap_def)







section \<open>Properties\<close>





end
