(* ===== verification/If_Hierarchy.thy ===== *)
theory If_Hierarchy
  imports If_State Go_Strconv
begin

text \<open>
  The interface hierarchy of \<^verbatim>\<open>interface_hierarchy.go\<close>: which interface is a subinterface of which, from the
  interface names and the ifStackTable rows of a profile. A Go map is an association list with distinct keys
  where it is enumerated, and a function where it is only read and written; warnings are left out.
\<close>

section \<open>Names\<close>

text \<open>\<^verbatim>\<open>strings.LastIndexByte(name, '.')\<close>.\<close>

fun last_dot :: "string \<Rightarrow> int \<Rightarrow> int \<Rightarrow> int" where
  "last_dot [] pos found = found"
| "last_dot (c # s) pos found = last_dot s (pos + 1) (if c = dot then pos else found)"

definition splitSubinterfaceName :: "string \<Rightarrow> (string \<times> string) option" where
  "splitSubinterfaceName name =
     (let d = last_dot name 0 (- 1)
      in if d \<le> 0 then None
         else let suffix = drop (nat (d + 1)) name
              in case ParseUint suffix 32 of
                   None \<Rightarrow> None
                 | Some v \<Rightarrow> if FormatUint v \<noteq> suffix then None else Some (take (nat d) name, suffix))"

section \<open>The stack table\<close>









section \<open>Parents\<close>

definition name_of :: "(int \<times> string) list \<Rightarrow> int \<Rightarrow> string" where
  "name_of names i = (case map_of names i of Some s \<Rightarrow> s | None \<Rightarrow> [])"

fun by_name :: "(int \<times> string) list \<Rightarrow> int list \<Rightarrow> (string \<rightharpoonup> int) \<Rightarrow> (string \<rightharpoonup> int)" where
  "by_name names [] m = m"
| "by_name names (i # is) m =
     by_name names is (if m (name_of names i) = None \<and> name_of names i \<noteq> [] then m(name_of names i \<mapsto> i) else m)"

fun name_parents :: "(int \<times> string) list \<Rightarrow> (string \<rightharpoonup> int) \<Rightarrow> int list \<Rightarrow> (int \<times> int) list" where
  "name_parents names byName [] = []"
| "name_parents names byName (i # is) =
     (case splitSubinterfaceName (name_of names i) of
        None \<Rightarrow> name_parents names byName is
      | Some (p, _) \<Rightarrow>
          (case byName p of
             Some pIdx \<Rightarrow> (if pIdx \<noteq> i then (i, pIdx) # name_parents names byName is else name_parents names byName is)
           | None \<Rightarrow> name_parents names byName is))"

definition interfaceParents :: "(int \<times> string) list \<Rightarrow> (int \<times> int) list \<Rightarrow> (int \<times> int) list" where
  "interfaceParents names stacked_if =
     (let idxs = sort (map fst names);
          byName = by_name names idxs Map.empty;
          parents = name_parents names byName idxs;
          parents = parents @ filter (\<lambda>(h, l). map_of parents h = None) stacked_if;
          nested = filter (\<lambda>idx. case map_of parents idx of
            Some p \<Rightarrow> map_of parents p \<noteq> None | None \<Rightarrow> False) idxs
      in filter (\<lambda>(c, p). c \<notin> set nested) parents)"

definition subinterfaceParents :: "(int \<times> string) list \<Rightarrow> (int \<times> int) list" where
  "subinterfaceParents names = interfaceParents names []"

section \<open>One level\<close>








section \<open>Properties\<close>




end
