(* ===== verification/Topology.thy ===== *)
theory Topology
  imports Go_Netip If_State
begin

text \<open>
  The inter-device link graph (\<^verbatim>\<open>topology.go\<close>): endpoint normalisation, the atomic batch insert with its
  rejections, removal, pruning of a deleted device, and the device-centric adjacency index that answers
  \<^verbatim>\<open>LinksFor\<close>. The graph refines a partial matching of ports; the invariant (one link per port, no
  self-loop, the index mirrors the list) holds in every reachable graph.

  A Go map is the function of its entries, an absent key being the empty slice that indexing yields. The lock
  brackets whole operations, so an operation is one step.
\<close>

section \<open>Data\<close>

record linkEndpoint =
  ep_IP :: string
  ep_IfIndex :: int

record topoLink =
  lk_A :: linkEndpoint
  lk_B :: linkEndpoint

record localLink =
  LocalIfIndex :: int
  PeerIP :: string
  PeerIfIndex :: int

record Topology =
  links :: "topoLink list"
  adj :: "string \<Rightarrow> localLink list"
  gen :: u64

record LinkEndpointJSON =
  js_IP :: string
  js_IfIndex :: int

record LinkJSON =
  js_A :: LinkEndpointJSON
  js_B :: LinkEndpointJSON

datatype TopologyError =
    InvalidIPv4 string
  | IfIndexTooSmall int
  | EndpointA TopologyError
  | EndpointB TopologyError
  | SelfLoop linkEndpoint
  | DuplicateLink topoLink
  | PortAlreadyLinked linkEndpoint

section \<open>Operations\<close>

definition bumpGen :: "Topology \<Rightarrow> Topology" where
  "bumpGen t = t\<lparr>gen := gen t + 1\<rparr>"

definition NewTopology :: Topology where
  "NewTopology = \<lparr>links = [], adj = (\<lambda>_. []), gen = 0\<rparr>"

definition indexLink :: "(string \<Rightarrow> localLink list) \<Rightarrow> topoLink \<Rightarrow> string \<Rightarrow> localLink list" where
  "indexLink m l =
     (let m1 = m(ep_IP (lk_A l) := m (ep_IP (lk_A l)) @
              [\<lparr>LocalIfIndex = ep_IfIndex (lk_A l), PeerIP = ep_IP (lk_B l), PeerIfIndex = ep_IfIndex (lk_B l)\<rparr>])
      in m1(ep_IP (lk_B l) := m1 (ep_IP (lk_B l)) @
              [\<lparr>LocalIfIndex = ep_IfIndex (lk_B l), PeerIP = ep_IP (lk_A l), PeerIfIndex = ep_IfIndex (lk_A l)\<rparr>]))"

definition rebuildAdj :: "Topology \<Rightarrow> Topology" where
  "rebuildAdj t = t\<lparr>adj := foldl indexLink (\<lambda>_. []) (links t)\<rparr>"

text \<open>\<^verbatim>\<open>net.IP.String\<close> of a four-byte address.\<close>

definition ip4_String :: "byte list \<Rightarrow> string" where
  "ip4_String b = Join (map (\<lambda>x. FormatUint (unat x)) b)"

text \<open>The canonical dotted quad of an IPv4 text, as four of the operations compute it.\<close>

definition normIPv4 :: "string \<Rightarrow> string option" where
  "normIPv4 s = (case ParseIP s of None \<Rightarrow> None | Some ip \<Rightarrow> map_option ip4_String (To4 (Some ip)))"

definition normEndpoint :: "LinkEndpointJSON \<Rightarrow> TopologyError + linkEndpoint" where
  "normEndpoint e =
     (case normIPv4 (js_IP e) of
        None \<Rightarrow> Inl (InvalidIPv4 (js_IP e))
      | Some ip \<Rightarrow> if js_IfIndex e < 1 then Inl (IfIndexTooSmall (js_IfIndex e))
                   else Inr \<lparr>ep_IP = ip, ep_IfIndex = js_IfIndex e\<rparr>)"

fun pending_links :: "LinkJSON list \<Rightarrow> TopologyError + topoLink list" where
  "pending_links [] = Inr []"
| "pending_links (l # ls) =
     (case normEndpoint (js_A l) of
        Inl err \<Rightarrow> Inl (EndpointA err)
      | Inr ae \<Rightarrow>
          (case normEndpoint (js_B l) of
             Inl err \<Rightarrow> Inl (EndpointB err)
           | Inr be \<Rightarrow>
               if ae = be then Inl (SelfLoop ae)
               else (case pending_links ls of
                       Inl err \<Rightarrow> Inl err
                     | Inr ps \<Rightarrow> Inr (\<lparr>lk_A = ae, lk_B = be\<rparr> # ps))))"

fun validateAgainstLinks :: "topoLink list \<Rightarrow> topoLink \<Rightarrow> TopologyError option" where
  "validateAgainstLinks [] nl = None"
| "validateAgainstLinks (l # ls) nl =
     (if lk_A l = lk_A nl \<and> lk_B l = lk_B nl \<or> lk_A l = lk_B nl \<and> lk_B l = lk_A nl then Some (DuplicateLink nl)
      else if lk_A l = lk_A nl \<or> lk_B l = lk_A nl then Some (PortAlreadyLinked (lk_A nl))
      else if lk_A l = lk_B nl \<or> lk_B l = lk_B nl then Some (PortAlreadyLinked (lk_B nl))
      else validateAgainstLinks ls nl)"

text \<open>The commit loop of the batch: the links so far, or the rejection (the caller restores the list).\<close>

fun commit_links :: "topoLink list \<Rightarrow> topoLink list \<Rightarrow> TopologyError + topoLink list" where
  "commit_links cur [] = Inr cur"
| "commit_links cur (nl # nls) =
     (case validateAgainstLinks cur nl of
        Some err \<Rightarrow> Inl err
      | None \<Rightarrow> commit_links (cur @ [nl]) nls)"

definition AddLinks :: "Topology \<Rightarrow> LinkJSON list \<Rightarrow> Topology \<times> TopologyError option" where
  "AddLinks t ls =
     (case pending_links ls of
        Inl err \<Rightarrow> (t, Some err)
      | Inr pending \<Rightarrow>
          (case commit_links (links t) pending of
             Inl err \<Rightarrow> (t, Some err)
           | Inr all \<Rightarrow> (bumpGen (t\<lparr>links := all, adj := foldl indexLink (adj t) pending\<rparr>), None)))"

definition AddLink :: "Topology \<Rightarrow> LinkEndpointJSON \<Rightarrow> LinkEndpointJSON \<Rightarrow> Topology \<times> TopologyError option" where
  "AddLink t a b = AddLinks t [\<lparr>js_A = a, js_B = b\<rparr>]"

definition Clear :: "Topology \<Rightarrow> Topology" where
  "Clear t = bumpGen (t\<lparr>links := [], adj := (\<lambda>_. [])\<rparr>)"

fun remove_first :: "linkEndpoint \<Rightarrow> linkEndpoint \<Rightarrow> topoLink list \<Rightarrow> topoLink list option" where
  "remove_first ae be [] = None"
| "remove_first ae be (l # ls) =
     (if lk_A l = ae \<and> lk_B l = be \<or> lk_A l = be \<and> lk_B l = ae then Some ls
      else map_option ((#) l) (remove_first ae be ls))"

definition RemoveLink :: "Topology \<Rightarrow> LinkEndpointJSON \<Rightarrow> LinkEndpointJSON \<Rightarrow> Topology \<times> bool" where
  "RemoveLink t a b =
     (case normEndpoint a of
        Inl _ \<Rightarrow> (t, False)
      | Inr ae \<Rightarrow>
          (case normEndpoint b of
             Inl _ \<Rightarrow> (t, False)
           | Inr be \<Rightarrow>
               (case remove_first ae be (links t) of
                  None \<Rightarrow> (t, False)
                | Some ls \<Rightarrow> (bumpGen (rebuildAdj (t\<lparr>links := ls\<rparr>)), True))))"

definition PruneDevice :: "Topology \<Rightarrow> string \<Rightarrow> Topology" where
  "PruneDevice t ip =
     (case normIPv4 ip of
        None \<Rightarrow> t
      | Some norm \<Rightarrow>
          bumpGen (rebuildAdj (t\<lparr>links := filter (\<lambda>l. \<not> (ep_IP (lk_A l) = norm \<or> ep_IP (lk_B l) = norm)) (links t)\<rparr>)))"

definition LinksFor :: "Topology \<Rightarrow> string \<Rightarrow> localLink list" where
  "LinksFor t ip = (case normIPv4 ip of None \<Rightarrow> [] | Some norm \<Rightarrow> sort_key LocalIfIndex (adj t norm))"

definition ListLinks :: "Topology \<Rightarrow> LinkJSON list" where
  "ListLinks t =
     map (\<lambda>l. \<lparr>js_A = \<lparr>js_IP = ep_IP (lk_A l), js_IfIndex = ep_IfIndex (lk_A l)\<rparr>,
              js_B = \<lparr>js_IP = ep_IP (lk_B l), js_IfIndex = ep_IfIndex (lk_B l)\<rparr>\<rparr>) (links t)"

definition Count :: "Topology \<Rightarrow> int" where
  "Count t = int (length (links t))"

section \<open>The matching of ports\<close>

text \<open>Every link read in both directions; the ports in use; the peer of a port.\<close>

definition pairs :: "topoLink list \<Rightarrow> (linkEndpoint \<times> linkEndpoint) list" where
  "pairs ls = concat (map (\<lambda>l. [(lk_A l, lk_B l), (lk_B l, lk_A l)]) ls)"

definition ports :: "topoLink list \<Rightarrow> linkEndpoint list" where
  "ports ls = map fst (pairs ls)"

definition peer :: "Topology \<Rightarrow> linkEndpoint \<Rightarrow> linkEndpoint option" where
  "peer t = map_of (pairs (links t))"

definition local_view :: "linkEndpoint \<times> linkEndpoint \<Rightarrow> localLink" where
  "local_view p = \<lparr>LocalIfIndex = ep_IfIndex (fst p), PeerIP = ep_IP (snd p), PeerIfIndex = ep_IfIndex (snd p)\<rparr>"

text \<open>The invariant: no port is used twice (a self-loop would), every port index is positive, and the index holds
  exactly the local views of the list.\<close>

definition wf_topology :: "Topology \<Rightarrow> bool" where
  "wf_topology t \<longleftrightarrow> distinct (ports (links t)) \<and> (\<forall>e\<in>set (ports (links t)). 1 \<le> ep_IfIndex e)
     \<and> (\<forall>ip. adj t ip = map local_view (filter (\<lambda>p. ep_IP (fst p) = ip) (pairs (links t))))"

lemma pairs_simps [simp]:
  "pairs [] = []" "pairs (l # ls) = (lk_A l, lk_B l) # (lk_B l, lk_A l) # pairs ls" "pairs (ls @ ms) = pairs ls @ pairs ms"
  by (simp_all add: pairs_def)

lemma ports_simps [simp]:
  "ports [] = []" "ports (l # ls) = lk_A l # lk_B l # ports ls" "ports (ls @ ms) = ports ls @ ports ms"
  by (simp_all add: ports_def)

lemma foldl_indexLink:
  "foldl indexLink m ls ip = m ip @ map local_view (filter (\<lambda>p. ep_IP (fst p) = ip) (pairs ls))"
  by (induction ls arbitrary: m) (auto simp: indexLink_def local_view_def Let_def)

lemma validate_free: "validateAgainstLinks ls nl = None \<longleftrightarrow> lk_A nl \<notin> set (ports ls) \<and> lk_B nl \<notin> set (ports ls)"
  by (induction ls) auto

lemma commit_ok:
  "distinct (ports cur) \<Longrightarrow> \<forall>l\<in>set nls. lk_A l \<noteq> lk_B l \<Longrightarrow>
     commit_links cur nls = Inr all \<longleftrightarrow> all = cur @ nls \<and> distinct (ports (cur @ nls))"
proof (induction nls arbitrary: cur)
  case (Cons nl nls)
  show ?case
  proof (cases "validateAgainstLinks cur nl")
    case None
    then show ?thesis
      using Cons.IH [of "cur @ [nl]"] Cons.prems validate_free [of cur nl] by auto
  next
    case (Some err)
    then show ?thesis
      using validate_free [of cur nl] by auto
  qed
qed auto

lemma pending_ok:
  "pending_links js = Inr ps \<Longrightarrow>
     (\<forall>l\<in>set ps. lk_A l \<noteq> lk_B l) \<and> (\<forall>e\<in>set (ports ps). 1 \<le> ep_IfIndex e) \<and> length ps = length js"
  by (induction js arbitrary: ps)
    (auto simp: normEndpoint_def split: sum.splits if_splits option.splits)

lemma remove_first_Some:
  "remove_first a b ls = Some ls' \<Longrightarrow> \<exists>xs l ys. ls = xs @ l # ys \<and> ls' = xs @ ys \<and> {lk_A l, lk_B l} = {a, b}"
proof (induction ls arbitrary: ls')
  case (Cons l ls)
  show ?case
  proof (cases "lk_A l = a \<and> lk_B l = b \<or> lk_A l = b \<and> lk_B l = a")
    case True
    then show ?thesis
      using Cons.prems by (intro exI [of _ "[]"] exI [of _ l] exI [of _ ls]) auto
  next
    case False
    then obtain ls'' where r: "remove_first a b ls = Some ls''" "ls' = l # ls''"
      using Cons.prems by auto
    obtain xs l' ys where "ls = xs @ l' # ys" "ls'' = xs @ ys" "{lk_A l', lk_B l'} = {a, b}"
      using Cons.IH [OF r(1)] by blast
    then show ?thesis
      using r(2) by (intro exI [of _ "l # xs"] exI [of _ l'] exI [of _ ys]) auto
  qed
qed simp

lemma remove_first_None:
  "remove_first a b ls = None \<longleftrightarrow> (\<forall>l\<in>set ls. \<not> (lk_A l = a \<and> lk_B l = b \<or> lk_A l = b \<and> lk_B l = a))"
  by (induction ls) auto

lemma in_pairs: "(a, b) \<in> set (pairs ls) \<longleftrightarrow> (\<exists>l\<in>set ls. lk_A l = a \<and> lk_B l = b \<or> lk_A l = b \<and> lk_B l = a)"
  by (auto simp: pairs_def)

lemma peer_iff: "distinct (ports (links t)) \<Longrightarrow> peer t a = Some b \<longleftrightarrow> (a, b) \<in> set (pairs (links t))"
  by (simp add: peer_def ports_def map_of_eq_Some_iff)

section \<open>Every operation preserves the invariant\<close>

lemma wf_new: "wf_topology NewTopology"
  by (simp add: wf_topology_def NewTopology_def)

lemma wf_bumpGen [simp]: "wf_topology (bumpGen t) = wf_topology t" "peer (bumpGen t) = peer t" "links (bumpGen t) = links t"
  by (simp_all add: wf_topology_def bumpGen_def peer_def)

lemma wf_rebuilt:
  assumes "distinct (ports (links t))" and "\<forall>e\<in>set (ports (links t)). 1 \<le> ep_IfIndex e"
  shows "wf_topology (rebuildAdj t)"
  using assms by (simp add: wf_topology_def rebuildAdj_def foldl_indexLink)

lemma wf_Clear: "wf_topology (Clear t)"
  by (simp add: Clear_def) (simp add: wf_topology_def)

lemma AddLinks_cases:
  assumes "wf_topology t"
  shows "(\<exists>ps. pending_links js = Inr ps \<and> distinct (ports (links t @ ps))
      \<and> AddLinks t js = (bumpGen (t\<lparr>links := links t @ ps, adj := foldl indexLink (adj t) ps\<rparr>), None))
    \<or> (\<exists>err. AddLinks t js = (t, Some err) \<and> (\<forall>ps. pending_links js = Inr ps \<longrightarrow> \<not> distinct (ports (links t @ ps))))"
proof (cases "pending_links js")
  case (Inr ps)
  have "distinct (ports (links t))"
    using assms by (simp add: wf_topology_def)
  then have ok: "commit_links (links t) ps = Inr all \<longleftrightarrow> all = links t @ ps \<and> distinct (ports (links t @ ps))" for all
    using commit_ok pending_ok [OF Inr] by blast
  show ?thesis
  proof (cases "commit_links (links t) ps")
    case (Inl err)
    then have "\<not> distinct (ports (links t @ ps))"
      using ok by fastforce
    then show ?thesis
      using Inr Inl by (simp add: AddLinks_def)
  next
    case (Inr all)
    then show ?thesis
      using \<open>pending_links js = Inr ps\<close> ok [of all] by (simp add: AddLinks_def)
  qed
qed (simp add: AddLinks_def)

lemma wf_AddLinks: "wf_topology t \<Longrightarrow> wf_topology (fst (AddLinks t js))"
proof -
  assume wf: "wf_topology t"
  show ?thesis
    using AddLinks_cases [OF wf, of js]
  proof (elim disjE exE conjE)
    fix ps assume ps: "pending_links js = Inr ps" "distinct (ports (links t @ ps))"
      "AddLinks t js = (bumpGen (t\<lparr>links := links t @ ps, adj := foldl indexLink (adj t) ps\<rparr>), None)"
    have "wf_topology (t\<lparr>links := links t @ ps, adj := foldl indexLink (adj t) ps\<rparr>)"
      using wf ps(2) pending_ok [OF ps(1)] by (auto simp: wf_topology_def foldl_indexLink)
    then show ?thesis
      by (simp add: ps(3))
  qed (simp add: wf)
qed

lemma RemoveLink_cases:
  assumes "normEndpoint a = Inr ae" and "normEndpoint b = Inr be"
  shows "(\<exists>xs l ys. links t = xs @ l # ys \<and> {lk_A l, lk_B l} = {ae, be}
      \<and> RemoveLink t a b = (bumpGen (rebuildAdj (t\<lparr>links := xs @ ys\<rparr>)), True))
    \<or> (RemoveLink t a b = (t, False) \<and> (ae, be) \<notin> set (pairs (links t)))"
proof (cases "remove_first ae be (links t)")
  case None
  then show ?thesis
    using assms remove_first_None [of ae be "links t"] by (simp add: RemoveLink_def in_pairs)
next
  case (Some ls)
  then show ?thesis
    using assms remove_first_Some [OF Some] by (auto simp: RemoveLink_def)
qed

lemma wf_RemoveLink: "wf_topology t \<Longrightarrow> wf_topology (fst (RemoveLink t a b))"
proof (cases "normEndpoint a")
  case (Inr ae)
  assume wf: "wf_topology t"
  show ?thesis
  proof (cases "normEndpoint b")
    case (Inr be)
    show ?thesis
      using RemoveLink_cases [OF \<open>normEndpoint a = Inr ae\<close> Inr, of t]
    proof (elim disjE exE conjE)
      fix xs l ys assume "links t = xs @ l # ys" "RemoveLink t a b = (bumpGen (rebuildAdj (t\<lparr>links := xs @ ys\<rparr>)), True)"
      then show ?thesis
        using wf wf_rebuilt [of "t\<lparr>links := xs @ ys\<rparr>"] by (auto simp: wf_topology_def [of t])
    qed (simp add: wf)
  qed (simp add: RemoveLink_def Inr wf)
qed (simp add: RemoveLink_def)

lemma ports_filter: "set (ports (filter P ls)) \<subseteq> set (ports ls)" "distinct (ports ls) \<Longrightarrow> distinct (ports (filter P ls))"
proof -
  show sub: "set (ports (filter P ls)) \<subseteq> set (ports ls)" for ls
    by (induction ls) auto
  show "distinct (ports ls) \<Longrightarrow> distinct (ports (filter P ls))"
    by (induction ls) (use sub in auto)
qed

lemma wf_PruneDevice: "wf_topology t \<Longrightarrow> wf_topology (PruneDevice t ip)"
  using ports_filter(2) [of "links t"]
  by (auto simp: PruneDevice_def wf_topology_def [of t] split: option.split intro!: wf_rebuilt
      dest!: subsetD [OF ports_filter(1)])

inductive reachable_topology :: "Topology \<Rightarrow> bool" where
  new: "reachable_topology NewTopology"
| add: "reachable_topology t \<Longrightarrow> reachable_topology (fst (AddLinks t js))"
| clear: "reachable_topology t \<Longrightarrow> reachable_topology (Clear t)"
| remove: "reachable_topology t \<Longrightarrow> reachable_topology (fst (RemoveLink t a b))"
| prune: "reachable_topology t \<Longrightarrow> reachable_topology (PruneDevice t ip)"
| bump: "reachable_topology t \<Longrightarrow> reachable_topology (bumpGen t)"

lemma reachable_topology_wf: "reachable_topology t \<Longrightarrow> wf_topology t"
  by (induction rule: reachable_topology.induct)
    (simp_all add: wf_new wf_AddLinks wf_Clear wf_RemoveLink wf_PruneDevice)

section \<open>Properties\<close>

lemma no_loop: "distinct (ports ls) \<Longrightarrow> l \<in> set ls \<Longrightarrow> lk_A l \<noteq> lk_B l"
  by (induction ls) auto

lemma peer_symmetric:
  assumes "wf_topology t" and "peer t a = Some b"
  shows "peer t b = Some a \<and> a \<noteq> b"
proof -
  have d: "distinct (ports (links t))"
    using assms(1) by (simp add: wf_topology_def)
  obtain l where "l \<in> set (links t)" "lk_A l = a \<and> lk_B l = b \<or> lk_A l = b \<and> lk_B l = a"
    using assms(2) peer_iff [OF d] in_pairs by blast
  then show ?thesis
    using peer_iff [OF d, of b a] no_loop [OF d] by (metis in_pairs)
qed

text \<open>
  C34: in every reachable link graph each port carries at most one link: the peer relation is a symmetric matching
  without self-loops, port indexes are positive, and the adjacency index mirrors the link list.
\<close>

theorem topology_matching:
  assumes "reachable_topology t"
  shows "wf_topology t \<and> (\<forall>a b. peer t a = Some b \<longrightarrow> peer t b = Some a \<and> a \<noteq> b)"
  using reachable_topology_wf [OF assms] peer_symmetric by blast

definition sample_link :: LinkJSON where
  "sample_link = \<lparr>js_A = \<lparr>js_IP = ''10.0.0.1'', js_IfIndex = 1\<rparr>, js_B = \<lparr>js_IP = ''10.0.0.2'', js_IfIndex = 3\<rparr>\<rparr>"

theorem topology_matching_witness:
  "wf_topology (fst (AddLinks NewTopology [sample_link]))"
  using topology_matching [OF reachable_topology.add [OF reachable_topology.new]] by blast

lemma peer_AddLinks:
  assumes "wf_topology t"
  shows "case AddLinks t js of
      (t', None) \<Rightarrow> \<exists>ps. pending_links js = Inr ps \<and> distinct (ports ps) \<and> set (ports ps) \<inter> dom (peer t) = {}
                        \<and> peer t' = peer t ++ map_of (pairs ps)
    | (t', Some _) \<Rightarrow> t' = t \<and> (\<forall>ps. pending_links js = Inr ps \<longrightarrow>
                        \<not> (distinct (ports ps) \<and> set (ports ps) \<inter> dom (peer t) = {}))"
proof -
  have used: "dom (peer t) = set (ports (links t))"
    by (simp add: peer_def ports_def dom_map_of_conv_image_fst)
  have d: "distinct (ports (links t))"
    using assms by (simp add: wf_topology_def)
  have merge: "map_of (pairs ps) ++ peer t = peer t ++ map_of (pairs ps)" if "set (ports ps) \<inter> dom (peer t) = {}" for ps
    using that by (intro map_add_comm) (auto simp: ports_def dom_map_of_conv_image_fst)
  show ?thesis
    using AddLinks_cases [OF assms, of js]
  proof (elim disjE exE conjE)
    fix ps assume ps: "pending_links js = Inr ps" "distinct (ports (links t @ ps))"
      "AddLinks t js = (bumpGen (t\<lparr>links := links t @ ps, adj := foldl indexLink (adj t) ps\<rparr>), None)"
    then have free: "distinct (ports ps)" "set (ports ps) \<inter> dom (peer t) = {}"
      using used by auto
    have "peer (fst (AddLinks t js)) = peer t ++ map_of (pairs ps)"
      using merge [OF free(2)] by (simp add: ps(3)) (simp add: peer_def map_of_append)
    then show ?thesis
      using ps free by simp
  qed (use used d in auto)
qed

lemma peer_remove:
  assumes "distinct (ports (xs @ l # ys))"
  shows "map_of (pairs (xs @ ys)) = (map_of (pairs (xs @ l # ys)))(lk_A l := None, lk_B l := None)"
proof -
  have some: "map_of (pairs ls) e = Some f \<longleftrightarrow> (e, f) \<in> set (pairs ls)" if "distinct (ports ls)" for ls e f
    using that by (simp add: ports_def map_of_eq_Some_iff)
  have key: "e \<in> set (ports (xs @ ys))" if "(e, f) \<in> set (pairs (xs @ ys))" for e f
    using that by (force simp: ports_def)
  have "map_of (pairs (xs @ ys)) e = Some f
      \<longleftrightarrow> ((map_of (pairs (xs @ l # ys)))(lk_A l := None, lk_B l := None)) e = Some f" for e f
    using some [of "xs @ ys" e f] some [OF assms, of e f] key [of e f] assms by auto
  then show ?thesis
    by (metis (no_types, lifting) not_Some_eq ext)
qed

lemma peer_RemoveLink:
  assumes "wf_topology t" and "normEndpoint a = Inr ae" and "normEndpoint b = Inr be"
  shows "case RemoveLink t a b of (t', ok) \<Rightarrow>
    ok = (peer t ae = Some be) \<and> peer t' = (if ok then (peer t)(ae := None, be := None) else peer t)"
proof -
  have d: "distinct (ports (links t))"
    using assms by (simp add: wf_topology_def)
  show ?thesis
    using RemoveLink_cases [OF assms(2,3), of t]
  proof (elim disjE exE conjE)
    fix xs l ys
    assume r: "links t = xs @ l # ys" "{lk_A l, lk_B l} = {ae, be}"
      "RemoveLink t a b = (bumpGen (rebuildAdj (t\<lparr>links := xs @ ys\<rparr>)), True)"
    have "(ae, be) \<in> set (pairs (links t))"
      using r(1,2) by (auto simp: in_pairs doubleton_eq_iff)
    moreover have "(peer t)(lk_A l := None, lk_B l := None) = (peer t)(ae := None, be := None)"
      using r(2) by (auto simp: doubleton_eq_iff)
    moreover have "peer (fst (RemoveLink t a b)) = map_of (pairs (xs @ ys))"
      by (simp add: r(3)) (simp add: peer_def rebuildAdj_def)
    ultimately show ?thesis
      using peer_remove [of xs l ys] d r peer_iff [OF d] by (simp add: peer_def)
  qed (simp add: peer_iff [OF d])
qed

lemma peer_PruneDevice:
  assumes "wf_topology t" and "normIPv4 ip = Some n"
  shows "peer (PruneDevice t ip) e = Some f \<longleftrightarrow> peer t e = Some f \<and> ep_IP e \<noteq> n \<and> ep_IP f \<noteq> n"
proof -
  have "peer (PruneDevice t ip) e = Some f \<longleftrightarrow> (e, f) \<in> set (pairs (links (PruneDevice t ip)))"
    using wf_PruneDevice [OF assms(1), of ip] by (intro peer_iff) (simp add: wf_topology_def)
  moreover have "peer t e = Some f \<longleftrightarrow> (e, f) \<in> set (pairs (links t))"
    using assms(1) by (intro peer_iff) (simp add: wf_topology_def)
  ultimately show ?thesis
    by (auto simp: in_pairs PruneDevice_def assms(2) rebuildAdj_def)
qed

lemma LinksFor_spec:
  assumes "wf_topology t" and "normIPv4 ip = Some n"
  shows "sorted_wrt (<) (map LocalIfIndex (LinksFor t ip))
    \<and> set (LinksFor t ip) = {local_view (e, f) |e f. peer t e = Some f \<and> ep_IP e = n}"
proof
  have adj: "adj t n = map local_view (filter (\<lambda>p. ep_IP (fst p) = n) (pairs (links t)))"
    and d: "distinct (ports (links t))"
    using assms(1) by (simp_all add: wf_topology_def)
  have "distinct (filter (\<lambda>e. ep_IP e = n) (ports (links t)))"
    using d by simp
  then have "distinct (map ep_IfIndex (filter (\<lambda>e. ep_IP e = n) (ports (links t))))"
    by (auto simp: distinct_map inj_on_def)
  moreover have "map LocalIfIndex (adj t n) = map ep_IfIndex (filter (\<lambda>e. ep_IP e = n) (ports (links t)))"
    by (simp add: adj ports_def filter_map comp_def local_view_def)
  ultimately have "distinct (map LocalIfIndex (sort_key LocalIfIndex (adj t n)))"
    by (metis distinct_map distinct_sort set_sort)
  then show "sorted_wrt (<) (map LocalIfIndex (LinksFor t ip))"
    by (simp add: LinksFor_def assms(2) strict_sorted_iff)
  show "set (LinksFor t ip) = {local_view (e, f) |e f. peer t e = Some f \<and> ep_IP e = n}"
    unfolding peer_iff [OF d] by (force simp: LinksFor_def assms(2) adj)
qed

text \<open>
  C35: the link graph refines a partial matching of ports. A batch is inserted whole, exactly when every endpoint is
  valid, no link is a loop and the batch's ports are distinct and free, and is otherwise rejected with the graph
  unchanged; removing a link frees both its ports and answers whether the link was there; pruning a device removes
  exactly the links that touch it; clearing empties the matching; and \<^verbatim>\<open>LinksFor\<close> lists a device's links in
  ascending port order.
\<close>

theorem topology_refines_matching:
  assumes "reachable_topology t"
  shows "(case AddLinks t js of
      (t', None) \<Rightarrow> \<exists>ps. pending_links js = Inr ps \<and> distinct (ports ps) \<and> set (ports ps) \<inter> dom (peer t) = {}
                        \<and> peer t' = peer t ++ map_of (pairs ps)
    | (t', Some _) \<Rightarrow> t' = t \<and> (\<forall>ps. pending_links js = Inr ps \<longrightarrow>
                        \<not> (distinct (ports ps) \<and> set (ports ps) \<inter> dom (peer t) = {})))
    \<and> (normEndpoint a = Inr ae \<longrightarrow> normEndpoint b = Inr be \<longrightarrow>
        (case RemoveLink t a b of (t', ok) \<Rightarrow>
          ok = (peer t ae = Some be) \<and> peer t' = (if ok then (peer t)(ae := None, be := None) else peer t)))
    \<and> (normIPv4 ip = Some n \<longrightarrow>
        (\<forall>e f. peer (PruneDevice t ip) e = Some f \<longleftrightarrow> peer t e = Some f \<and> ep_IP e \<noteq> n \<and> ep_IP f \<noteq> n))
    \<and> peer (Clear t) = Map.empty
    \<and> (normIPv4 ip = Some n \<longrightarrow>
        sorted_wrt (<) (map LocalIfIndex (LinksFor t ip))
        \<and> set (LinksFor t ip) = {local_view (e, f) |e f. peer t e = Some f \<and> ep_IP e = n})"
  using peer_AddLinks [OF reachable_topology_wf [OF assms], of js]
    peer_RemoveLink [OF reachable_topology_wf [OF assms], of a ae b be]
    peer_PruneDevice [OF reachable_topology_wf [OF assms], of ip n] LinksFor_spec [OF reachable_topology_wf [OF assms], of ip n]
  by (simp add: Clear_def) (simp add: peer_def)

lemma sample_ip: "normIPv4 ''10.0.0.1'' = Some ''10.0.0.1''" "normIPv4 ''10.0.0.2'' = Some ''10.0.0.2''"
  by (simp_all add: normIPv4_def ParseIP_def To4_def parseIPv4Fields_def is_digit_def digit_val_def dot_def
      ip4_String_def v4InV6Prefix_def FormatUint.simps digit_char_def char_of_def bit_0)

lemma padded_address: "normIPv4 ''10.000.000.001'' = None"
  by (simp add: normIPv4_def ParseIP_def To4_def parseIPv4Fields_def is_digit_def digit_val_def dot_def)

lemma sample_added:
  "pending_links [sample_link] =
     Inr [\<lparr>lk_A = \<lparr>ep_IP = ''10.0.0.1'', ep_IfIndex = 1\<rparr>, lk_B = \<lparr>ep_IP = ''10.0.0.2'', ep_IfIndex = 3\<rparr>\<rparr>]"
  by (simp add: sample_link_def normEndpoint_def sample_ip)

theorem topology_refines_matching_witness:
  "LinksFor (fst (AddLinks NewTopology [sample_link])) ''10.0.0.2''
     = [\<lparr>LocalIfIndex = 3, PeerIP = ''10.0.0.1'', PeerIfIndex = 1\<rparr>]
   \<and> snd (AddLinks (fst (AddLinks NewTopology [sample_link])) [sample_link]) \<noteq> None"
proof
  let ?t = "fst (AddLinks NewTopology [sample_link])"
  let ?e = "\<lparr>ep_IP = ''10.0.0.1'', ep_IfIndex = 1\<rparr>" and ?f = "\<lparr>ep_IP = ''10.0.0.2'', ep_IfIndex = 3\<rparr>"
  have "reachable_topology ?t"
    by (intro reachable_topology.intros)
  note main = topology_refines_matching [OF this, of "[sample_link]" _ _ _ _ "''10.0.0.2''" "''10.0.0.2''"]
  have peer: "peer ?t = [?f \<mapsto> ?e, ?e \<mapsto> ?f]"
    using sample_added by (simp add: AddLinks_def NewTopology_def peer_def bumpGen_def fun_upd_twist)
  have "set (LinksFor ?t ''10.0.0.2'') = {\<lparr>LocalIfIndex = 3, PeerIP = ''10.0.0.1'', PeerIfIndex = 1\<rparr>}"
    using main by (auto simp: sample_ip peer local_view_def split: if_splits)
  moreover have "distinct (LinksFor ?t ''10.0.0.2'')"
    using main by (simp add: sample_ip strict_sorted_iff distinct_map)
  ultimately show "LinksFor ?t ''10.0.0.2'' = [\<lparr>LocalIfIndex = 3, PeerIP = ''10.0.0.1'', PeerIfIndex = 1\<rparr>]"
    by (cases "LinksFor ?t ''10.0.0.2''") (auto simp: subset_singleton_iff)
  show "snd (AddLinks ?t [sample_link]) \<noteq> None"
  proof
    assume "snd (AddLinks ?t [sample_link]) = None"
    then obtain t' where t': "AddLinks ?t [sample_link] = (t', None)"
      by (metis prod.collapse)
    obtain ps where "pending_links [sample_link] = Inr ps" "set (ports ps) \<inter> dom (peer ?t) = {}"
      using conjunct1 [OF main] unfolding t' prod.case option.case by blast
    then show False
      using sample_added by (auto simp: peer simp del: pending_links.simps)
  qed
qed

text \<open>
  The canonical form makes two spellings of one address equal, but a dotted quad with padded fields is not among
  them: the address reader refuses it.
\<close>

theorem padded_endpoint_rejected:
  "normEndpoint \<lparr>js_IP = ''10.000.000.001'', js_IfIndex = i\<rparr> = Inl (InvalidIPv4 ''10.000.000.001'')"
  by (simp add: normEndpoint_def padded_address)

end
