(* ===== verification/Go_Search.thy ===== *)
theory Go_Search
  imports Snmp_Oid
begin

text \<open>
  Searching: \<^verbatim>\<open>strings.IndexByte\<close> for a dot, \<^verbatim>\<open>sort.SearchInts\<close> and \<^verbatim>\<open>sort.Slice\<close> over OIDs, the
  64-bit \<^verbatim>\<open>int\<close> increment, and the binary search loop that the walk code writes out twice
  (\<^verbatim>\<open>findNextOIDWithServed\<close>, \<^verbatim>\<open>lldpNextFromServed\<close>). The loop is shown to end and to find
  the first OID beyond a position of an ascending list; the textual OIDs of the walk are related to arc lists.
\<close>

section \<open>Library functions\<close>

definition index_dot :: "string \<Rightarrow> int" where
  "index_dot s = (if dot \<in> set s then int (length (takeWhile (\<lambda>c. c \<noteq> dot) s)) else - 1)"

text \<open>On an ascending slice: the position of the first element at or after \<open>x\<close>.\<close>

definition SearchInts :: "int list \<Rightarrow> int \<Rightarrow> nat" where
  "SearchInts xs x = length (takeWhile (\<lambda>y. y < x) xs)"

definition incr :: "int \<Rightarrow> int" where
  "incr i = (i + 1 + 2 ^ 63) mod 2 ^ 64 - 2 ^ 63"

definition sort_oids :: "('a \<Rightarrow> string) \<Rightarrow> 'a list \<Rightarrow> 'a list" where
  "sort_oids f xs = sort_key (\<lambda>x. oid_key (f x)) xs"

section \<open>The binary search\<close>

function upper_bound :: "string list \<Rightarrow> string \<Rightarrow> nat \<Rightarrow> nat \<Rightarrow> nat" where
  "upper_bound oids cur lo hi =
     (if lo < hi
      then (let mid = (lo + hi) div 2
            in if compareOIDs (oids ! mid) cur \<le> 0 then upper_bound oids cur (mid + 1) hi
               else upper_bound oids cur lo mid)
      else lo)"
  by pat_completeness auto
termination
  by (relation "measure (\<lambda>(oids, cur, lo, hi). hi - lo)") auto

declare upper_bound.simps [simp del]

text \<open>On a sorted list, repetitions included, the loop splits it at \<open>cur\<close>.\<close>

lemma sorted_keys_nth:
  "sorted (map oid_key oids) \<Longrightarrow> j \<le> k \<Longrightarrow> k < length oids \<Longrightarrow> oid_key (oids ! j) \<le> oid_key (oids ! k)"
  using sorted_nth_mono [of "map oid_key oids" j k] by simp

lemma ascending_sorted: "oid.ascending oids \<Longrightarrow> sorted (map oid_key oids)"
  unfolding oid.ascending_def sorted_map by (erule sorted_wrt_mono_rel [rotated]) (simp add: oid.cmp_neg)

lemma upper_bound_splits:
  assumes "sorted (map oid_key oids)" and "lo \<le> hi" and "hi \<le> length oids"
    and "\<forall>j<lo. compareOIDs (oids ! j) cur \<le> 0" and "\<forall>j<length oids. hi \<le> j \<longrightarrow> 0 < compareOIDs (oids ! j) cur"
  shows "upper_bound oids cur lo hi \<le> length oids
    \<and> (\<forall>j<upper_bound oids cur lo hi. compareOIDs (oids ! j) cur \<le> 0)
    \<and> (\<forall>j<length oids. upper_bound oids cur lo hi \<le> j \<longrightarrow> 0 < compareOIDs (oids ! j) cur)"
  using assms
proof (induction oids cur lo hi rule: upper_bound.induct)
  case (1 oids cur lo hi)
  let ?mid = "(lo + hi) div 2"
  show ?case
  proof (cases "lo < hi")
    case True
    then have mid: "lo \<le> ?mid" "?mid < hi"
      by auto
    have below: "\<forall>j<?mid + 1. compareOIDs (oids ! j) cur \<le> 0" if "compareOIDs (oids ! ?mid) cur \<le> 0"
    proof (intro allI impI)
      fix j assume "j < ?mid + 1"
      then have "j = ?mid \<or> j < ?mid"
        by auto
      then show "compareOIDs (oids ! j) cur \<le> 0"
        using that sorted_keys_nth [OF "1.prems"(1), of j ?mid] mid "1.prems"(3)
        by (auto simp: oid.cmp_le intro: order.trans)
    qed
    have above: "\<forall>j<length oids. ?mid \<le> j \<longrightarrow> 0 < compareOIDs (oids ! j) cur" if "\<not> compareOIDs (oids ! ?mid) cur \<le> 0"
    proof (intro allI impI)
      fix j assume "j < length oids" "?mid \<le> j"
      then have "oid_key (oids ! ?mid) \<le> oid_key (oids ! j)"
        by (intro sorted_keys_nth [OF "1.prems"(1)])
      then show "0 < compareOIDs (oids ! j) cur"
        using that by (auto simp: oid.cmp_le oid.cmp_pos)
    qed
    show ?thesis
    proof (cases "compareOIDs (oids ! ?mid) cur \<le> 0")
      case True
      then show ?thesis
        using "1.IH"(1) [OF \<open>lo < hi\<close> refl True "1.prems"(1) _ "1.prems"(3) below [OF True] "1.prems"(5)] mid \<open>lo < hi\<close>
        by (subst (1 2 3) upper_bound.simps) (simp add: Let_def)
    next
      case False
      then show ?thesis
        using "1.IH"(2) [OF \<open>lo < hi\<close> refl False "1.prems"(1) _ _ "1.prems"(4) above [OF False]] mid \<open>lo < hi\<close> "1.prems"(3)
        by (subst (1 2 3) upper_bound.simps) (simp add: Let_def)
    qed
  next
    case False
    then have "upper_bound oids cur lo hi = lo"
      by (subst upper_bound.simps) simp
    then show ?thesis
      using "1.prems" False by simp
  qed
qed

lemma upper_bound_sorted:
  assumes "sorted (map oid_key oids)"
  shows "upper_bound oids cur 0 (length oids) \<le> length oids
    \<and> (\<forall>j<upper_bound oids cur 0 (length oids). compareOIDs (oids ! j) cur \<le> 0)
    \<and> (\<forall>j<length oids. upper_bound oids cur 0 (length oids) \<le> j \<longrightarrow> 0 < compareOIDs (oids ! j) cur)"
  using upper_bound_splits [OF assms, of 0 "length oids" cur] by simp

lemmas upper_bound_full = upper_bound_sorted [OF ascending_sorted]

text \<open>The reference: the first element beyond \<open>cur\<close>, by a linear scan.\<close>

lemma upper_bound_find:
  assumes "oid.ascending oids"
  shows "(if upper_bound oids cur 0 (length oids) < length oids
          then Some (oids ! upper_bound oids cur 0 (length oids)) else None)
    = find (\<lambda>o'. 0 < compareOIDs o' cur) oids"
proof (cases "upper_bound oids cur 0 (length oids) < length oids")
  case True
  have "\<not> 0 < compareOIDs (oids ! j) cur" if "j < upper_bound oids cur 0 (length oids)" for j
    using upper_bound_full [OF assms, of cur] that by (simp add: not_less)
  moreover have "0 < compareOIDs (oids ! upper_bound oids cur 0 (length oids)) cur"
    using upper_bound_full [OF assms, of cur] True by simp
  ultimately have "find (\<lambda>o'. 0 < compareOIDs o' cur) oids = Some (oids ! upper_bound oids cur 0 (length oids))"
    using True unfolding find_Some_iff by (intro exI [of _ "upper_bound oids cur 0 (length oids)"]) simp
  then show ?thesis
    using True by simp
next
  case False
  then have "\<forall>x\<in>set oids. \<not> 0 < compareOIDs x cur"
    using upper_bound_full [OF assms, of cur] by (auto simp: in_set_conv_nth not_less)
  then show ?thesis
    using False by (auto simp: find_None_iff intro!: sym [of "find _ _"])
qed

section \<open>Textual OIDs\<close>

lemma index_dot_join:
  assumes "dotless s"
  shows "index_dot (s @ dot # t) = int (length s)" and "index_dot s = - 1"
proof -
  have "takeWhile (\<lambda>c. c \<noteq> dot) (s @ dot # t) = s"
    using assms by (subst takeWhile_append2) (auto simp: dotless_def)
  then show "index_dot (s @ dot # t) = int (length s)"
    by (simp add: index_dot_def)
  show "index_dot s = - 1"
    using assms by (simp add: index_dot_def dotless_def)
qed

lemma Join_append: "xs \<noteq> [] \<Longrightarrow> ys \<noteq> [] \<Longrightarrow> Join (xs @ ys) = Join xs @ dot # Join ys"
proof (induction xs rule: Join.induct)
  case (2 p)
  then show ?case
    by (cases ys) auto
qed auto

lemma oid_text_append: "xs \<noteq> [] \<Longrightarrow> ys \<noteq> [] \<Longrightarrow> oid_text (xs @ ys) = oid_text xs @ dot # Join (map FormatUint ys)"
  by (simp add: oid_text_def Join_append)

text \<open>A canonical OID begins with a canonical prefix and a dot exactly when its arcs properly extend the prefix's.\<close>

lemma Join_prefix:
  assumes "xs \<noteq> []" and "zs \<noteq> []" and "Join (map FormatUint zs) = Join (map FormatUint xs) @ dot # t"
  shows "\<exists>ys. zs = xs @ ys \<and> ys \<noteq> [] \<and> t = Join (map FormatUint ys)"
proof -
  have split_l: "Split (Join (map FormatUint zs)) = map FormatUint zs"
    using assms(2) by (intro Split_Join) auto
  have split_t: "Join (Split t) = t"
    by (rule Join_Split)
  have "Join (map FormatUint xs) @ dot # t = Join (map FormatUint xs @ Split t)"
    using split_t assms(1) by (subst Join_append) auto
  moreover have "Split (Join (map FormatUint xs @ Split t)) = map FormatUint xs @ Split t"
    using Split_dotless_parts [of t] by (intro Split_Join) auto
  ultimately have "map FormatUint zs = map FormatUint xs @ Split t"
    using split_l assms(3) by simp
  then obtain us vs where uv: "zs = us @ vs" "map FormatUint us = map FormatUint xs" "Split t = map FormatUint vs"
    by (auto simp: map_eq_append_conv)
  have "inj FormatUint"
    by (simp add: inj_on_def)
  then have "us = xs"
    using uv(2) by (simp add: inj_map_eq_map)
  moreover have "t = Join (map FormatUint vs)" "vs \<noteq> []"
    using uv(3) split_t Split_not_Nil [of t] by auto
  ultimately show ?thesis
    using uv(1) by blast
qed

lemma HasPrefix_text:
  assumes "xs \<noteq> []" and "zs \<noteq> []"
  shows "HasPrefix (oid_text zs) (oid_text xs @ [dot]) \<longleftrightarrow> (\<exists>ys. zs = xs @ ys \<and> ys \<noteq> [])"
proof
  assume "HasPrefix (oid_text zs) (oid_text xs @ [dot])"
  then obtain t where "Join (map FormatUint zs) = Join (map FormatUint xs) @ dot # t"
    by (auto simp: HasPrefix_iff oid_text_def)
  then show "\<exists>ys. zs = xs @ ys \<and> ys \<noteq> []"
    using Join_prefix [OF assms] by blast
next
  assume "\<exists>ys. zs = xs @ ys \<and> ys \<noteq> []"
  then obtain ys where "zs = xs @ ys" "ys \<noteq> []"
    by blast
  then show "HasPrefix (oid_text zs) (oid_text xs @ [dot])"
    using oid_text_append [OF assms(1), of ys] by (auto simp: HasPrefix_iff)
qed

lemma oid_text_drop:
  assumes "xs \<noteq> []" and "ys \<noteq> []"
  shows "drop (length (oid_text xs @ [dot])) (oid_text (xs @ ys)) = Join (map FormatUint ys)"
  using oid_text_append [OF assms] by simp

lemma oid_less_text:
  assumes "as \<noteq> []" and "\<forall>v\<in>set as. v < 2 ^ 63" and "bs \<noteq> []" and "\<forall>v\<in>set bs. v < 2 ^ 63"
  shows "0 < compareOIDs (oid_text as) (oid_text bs) \<longleftrightarrow> bs < as"
    and "compareOIDs (oid_text as) (oid_text bs) < 0 \<longleftrightarrow> as < bs"
    and "compareOIDs (oid_text as) (oid_text bs) \<le> 0 \<longleftrightarrow> as \<le> bs"
  using compareOIDs_text [OF assms] by (auto simp: sign_of_def)

end
