(* ===== verification/If_Counters.thy ===== *)
theory If_Counters
  imports Go_Search If_State
begin

text \<open>
  The dynamic IF-MIB columns (\<^verbatim>\<open>if_counters.go\<close>): the set of interfaces a device's resource file gives
  counters to, the value of one (column, interface) cell, and the walk over the cells.

  The octet dial, the packet sizes and the ratios are floating-point numbers in the source. What the integer code
  takes from them is a value of the record \<open>dial\<close>: the octets counted so far in each direction at the evaluation
  instant (\<^verbatim>\<open>heldDeltasAt\<close>), and the packet counts \<^verbatim>\<open>uint64(float64(octets) / pktSize * ratio)\<close>
  and \<^verbatim>\<open>uint64(float64(delta) / pktSize)\<close>. Everything around them, including the reduction to 32 bits, is
  modelled; no law of the dial is assumed.
\<close>

section \<open>Columns\<close>

definition ifTablePrefix :: string where
  "ifTablePrefix = ''.1.3.6.1.2.1.2.2.1.''"

definition ifXTablePrefix :: string where
  "ifXTablePrefix = ''.1.3.6.1.2.1.31.1.1.1.''"

abbreviation (input) colIfInMulticastPkts :: int where "colIfInMulticastPkts \<equiv> 2"
abbreviation (input) colIfInBroadcastPkts :: int where "colIfInBroadcastPkts \<equiv> 3"
abbreviation (input) colIfOutMulticastPkts :: int where "colIfOutMulticastPkts \<equiv> 4"
abbreviation (input) colIfOutBroadcastPkts :: int where "colIfOutBroadcastPkts \<equiv> 5"
abbreviation (input) colIfHCInOctets :: int where "colIfHCInOctets \<equiv> 6"
abbreviation (input) colIfHCInUcastPkts :: int where "colIfHCInUcastPkts \<equiv> 7"
abbreviation (input) colIfHCInMulticastPkts :: int where "colIfHCInMulticastPkts \<equiv> 8"
abbreviation (input) colIfHCInBroadcastPkts :: int where "colIfHCInBroadcastPkts \<equiv> 9"
abbreviation (input) colIfHCOutOctets :: int where "colIfHCOutOctets \<equiv> 10"
abbreviation (input) colIfHCOutUcastPkts :: int where "colIfHCOutUcastPkts \<equiv> 11"
abbreviation (input) colIfHCOutMulticastPkts :: int where "colIfHCOutMulticastPkts \<equiv> 12"
abbreviation (input) colIfHCOutBroadcastPkts :: int where "colIfHCOutBroadcastPkts \<equiv> 13"

abbreviation (input) colIfAdminStatus :: int where "colIfAdminStatus \<equiv> 7"
abbreviation (input) colIfOperStatus :: int where "colIfOperStatus \<equiv> 8"
abbreviation (input) colIfLastChange :: int where "colIfLastChange \<equiv> 9"
abbreviation (input) colIfInOctets :: int where "colIfInOctets \<equiv> 10"
abbreviation (input) colIfInUcastPkts :: int where "colIfInUcastPkts \<equiv> 11"
abbreviation (input) colIfInDiscards :: int where "colIfInDiscards \<equiv> 13"
abbreviation (input) colIfInErrors :: int where "colIfInErrors \<equiv> 14"
abbreviation (input) colIfOutOctets :: int where "colIfOutOctets \<equiv> 16"
abbreviation (input) colIfOutUcastPkts :: int where "colIfOutUcastPkts \<equiv> 17"
abbreviation (input) colIfOutDiscards :: int where "colIfOutDiscards \<equiv> 19"
abbreviation (input) colIfOutErrors :: int where "colIfOutErrors \<equiv> 20"

definition ifCyclerColumns :: "(string \<times> int) list" where
  "ifCyclerColumns =
     [(ifTablePrefix, colIfAdminStatus), (ifTablePrefix, colIfOperStatus), (ifTablePrefix, colIfLastChange),
      (ifTablePrefix, colIfInOctets), (ifTablePrefix, colIfInUcastPkts), (ifTablePrefix, colIfInDiscards),
      (ifTablePrefix, colIfInErrors), (ifTablePrefix, colIfOutOctets), (ifTablePrefix, colIfOutUcastPkts),
      (ifTablePrefix, colIfOutDiscards), (ifTablePrefix, colIfOutErrors),
      (ifXTablePrefix, colIfInMulticastPkts), (ifXTablePrefix, colIfInBroadcastPkts),
      (ifXTablePrefix, colIfOutMulticastPkts), (ifXTablePrefix, colIfOutBroadcastPkts),
      (ifXTablePrefix, colIfHCInOctets), (ifXTablePrefix, colIfHCInUcastPkts),
      (ifXTablePrefix, colIfHCInMulticastPkts), (ifXTablePrefix, colIfHCInBroadcastPkts),
      (ifXTablePrefix, colIfHCOutOctets), (ifXTablePrefix, colIfHCOutUcastPkts),
      (ifXTablePrefix, colIfHCOutMulticastPkts), (ifXTablePrefix, colIfHCOutBroadcastPkts)]"

definition operEnumString :: "byte \<Rightarrow> string" where
  "operEnumString v = (if v < OperUp \<or> OperLowerLayerDn < v then ''0'' else FormatUint (unat v))"

definition adminEnumString :: "byte \<Rightarrow> string" where
  "adminEnumString v = (if v < AdminUp \<or> AdminTesting < v then ''0'' else FormatUint (unat v))"

definition isStateCol :: "int \<Rightarrow> string \<Rightarrow> bool" where
  "isStateCol col prefix \<longleftrightarrow>
     prefix = ifTablePrefix \<and> (col = colIfAdminStatus \<or> col = colIfOperStatus \<or> col = colIfLastChange)"

definition column_oid :: "string \<times> int \<Rightarrow> int \<Rightarrow> string" where
  "column_oid c ifIndex = fst c @ Itoa (snd c) @ dot # Itoa ifIndex"

section \<open>The cycler\<close>

datatype pkt_kind = Ucast | Mcast | Bcast

text \<open>What the floating-point dial yields at one evaluation instant; the flag is \<^verbatim>\<open>inbound\<close>.\<close>

record dial =
  heldDeltasAt :: "int \<Rightarrow> u64 \<times> u64"
  ratioPkts :: "int \<Rightarrow> u64 \<Rightarrow> bool \<Rightarrow> pkt_kind \<Rightarrow> u64"
  totalPkts :: "int \<Rightarrow> u64 \<Rightarrow> bool \<Rightarrow> u64"

record IfCounterCycler =
  ic_maxIfIndex :: int
  knownIfIndexes :: "int list"
  sortedIfIndexes :: "int list"
  firstDynOID :: string
  lastDynOID :: string
  baseInOctets :: "u64 list"
  baseOutOctets :: "u64 list"
  baseInUcast :: "u64 list"
  baseInMcast :: "u64 list"
  baseInBcast :: "u64 list"
  baseOutUcast :: "u64 list"
  baseOutMcast :: "u64 list"
  baseOutBcast :: "u64 list"
  errPpmIn :: "32 word list"
  errPpmOut :: "32 word list"
  discPpmIn :: "32 word list"
  discPpmOut :: "32 word list"
  baseInErr :: "u64 list"
  baseOutErr :: "u64 list"
  baseInDisc :: "u64 list"
  baseOutDisc :: "u64 list"
  ic_state :: "InterfaceState option"

abbreviation (input) maxResourceIfIndex :: int where "maxResourceIfIndex \<equiv> 65535"

definition hcInOIDPrefix :: string where
  "hcInOIDPrefix = ifXTablePrefix @ ''6.''"

text \<open>The interfaces a resource file gives counters to, from the keys of its OID index.\<close>

definition resource_ifindex :: "string \<Rightarrow> int option" where
  "resource_ifindex oid =
     (if HasPrefix oid hcInOIDPrefix
      then (case Atoi (drop (length hcInOIDPrefix) oid) of
              None \<Rightarrow> None
            | Some idx \<Rightarrow> if 0 < idx \<and> \<not> maxResourceIfIndex < idx then Some idx else None)
      else None)"

definition knownIdxs :: "string list \<Rightarrow> int list" where
  "knownIdxs keys = remdups (List.map_filter resource_ifindex keys)"

definition init_indexes :: "string list \<Rightarrow> (int \<times> int list \<times> int list \<times> string \<times> string) option" where
  "init_indexes keys =
     (let known = knownIdxs keys
      in if known = [] then None
         else let maxIdx = foldl (\<lambda>m idx. if m < idx then idx else m) 0 known;
                  srt = sort known
              in Some (maxIdx, known, srt, column_oid (hd ifCyclerColumns) (hd srt),
                       column_oid (last ifCyclerColumns) (last srt)))"

section \<open>The value of a cell\<close>

definition fmtU64 :: "u64 \<Rightarrow> string" where
  "fmtU64 v = FormatUint (unat v)"

definition fmtU32 :: "32 word \<Rightarrow> string" where
  "fmtU32 v = FormatUint (unat v)"

definition low32 :: "u64 \<Rightarrow> string" where
  "low32 v = fmtU32 (ucast (v AND 0xFFFFFFFF))"

text \<open>\<^verbatim>\<open>packets\<close> panics when no kind is named.\<close>

definition packets :: "IfCounterCycler \<Rightarrow> dial \<Rightarrow> int \<Rightarrow> u64 \<Rightarrow> bool \<Rightarrow> bool \<Rightarrow> bool \<Rightarrow> bool \<Rightarrow> u64 option" where
  "packets ic d slot octets inbound mcast bcast uni =
     (if \<not> uni \<and> \<not> mcast \<and> \<not> bcast then None
      else let kind = (if uni then Ucast else if mcast then Mcast else Bcast);
               bases = (if inbound
                        then (case kind of Ucast \<Rightarrow> baseInUcast ic | Mcast \<Rightarrow> baseInMcast ic | Bcast \<Rightarrow> baseInBcast ic)
                        else (case kind of Ucast \<Rightarrow> baseOutUcast ic | Mcast \<Rightarrow> baseOutMcast ic | Bcast \<Rightarrow> baseOutBcast ic))
           in do { base \<leftarrow> at bases slot; Some (base + ratioPkts d slot octets inbound kind) })"

text \<open>\<^verbatim>\<open>ifLastChange\<close> in hundredths of a second since the engine was built.\<close>

definition lastChangeTicks :: "u64 \<Rightarrow> u64 \<Rightarrow> string" where
  "lastChangeTicks boot lastUnixNs =
     (if lastUnixNs = LastChangeRewindSentinel \<or> lastUnixNs \<le> boot then ''0''
      else FormatUint (unat ((lastUnixNs - boot) div 10000000)))"

text \<open>The three state columns; the outer \<open>None\<close> is a column this switch does not have.\<close>

definition state_column :: "IfCounterCycler \<Rightarrow> int \<Rightarrow> int \<Rightarrow> string option option" where
  "state_column ic col ifIndex =
     (case ic_state ic of
        None \<Rightarrow> None
      | Some st \<Rightarrow>
          if col = colIfAdminStatus then Some (map_option adminEnumString (AdminStatus st ifIndex))
          else if col = colIfOperStatus then Some (map_option operEnumString (OperStatus st ifIndex))
          else if col = colIfLastChange then
            Some (map_option (lastChangeTicks (bootTimeUnixNs st)) (LastChangeNs st ifIndex))
          else None)"

definition ifx_column :: "IfCounterCycler \<Rightarrow> dial \<Rightarrow> int \<Rightarrow> u64 \<Rightarrow> u64 \<Rightarrow> int \<Rightarrow> string option" where
  "ifx_column ic d slot inDelta outDelta col =
     (if col = colIfInMulticastPkts then map_option low32 (packets ic d slot inDelta True True False False)
      else if col = colIfInBroadcastPkts then map_option low32 (packets ic d slot inDelta True False True False)
      else if col = colIfOutMulticastPkts then map_option low32 (packets ic d slot outDelta False True False False)
      else if col = colIfOutBroadcastPkts then map_option low32 (packets ic d slot outDelta False False True False)
      else if col = colIfHCInOctets then map_option (\<lambda>b. fmtU64 (b + inDelta)) (at (baseInOctets ic) slot)
      else if col = colIfHCInUcastPkts then map_option fmtU64 (packets ic d slot inDelta True False False True)
      else if col = colIfHCInMulticastPkts then map_option fmtU64 (packets ic d slot inDelta True True False False)
      else if col = colIfHCInBroadcastPkts then map_option fmtU64 (packets ic d slot inDelta True False True False)
      else if col = colIfHCOutOctets then map_option (\<lambda>b. fmtU64 (b + outDelta)) (at (baseOutOctets ic) slot)
      else if col = colIfHCOutUcastPkts then map_option fmtU64 (packets ic d slot outDelta False False False True)
      else if col = colIfHCOutMulticastPkts then map_option fmtU64 (packets ic d slot outDelta False True False False)
      else if col = colIfHCOutBroadcastPkts then map_option fmtU64 (packets ic d slot outDelta False False True False)
      else Some [])"

text \<open>An error or discard column: the base plus the rate in parts per million of the packets counted.\<close>

definition ppm_column :: "u64 list \<Rightarrow> 32 word list \<Rightarrow> int \<Rightarrow> u64 \<Rightarrow> string option" where
  "ppm_column bases ppms slot totalDeltaPkts =
     do { base \<leftarrow> at bases slot; ppm \<leftarrow> at ppms slot;
          Some (low32 (base + totalDeltaPkts * ucast ppm div 1000000)) }"

definition if_column :: "IfCounterCycler \<Rightarrow> dial \<Rightarrow> int \<Rightarrow> u64 \<Rightarrow> u64 \<Rightarrow> int \<Rightarrow> string option" where
  "if_column ic d slot inDelta outDelta col =
     (if col = colIfInOctets then map_option (\<lambda>b. low32 (b + inDelta)) (at (baseInOctets ic) slot)
      else if col = colIfOutOctets then map_option (\<lambda>b. low32 (b + outDelta)) (at (baseOutOctets ic) slot)
      else if col = colIfInUcastPkts then map_option low32 (packets ic d slot inDelta True False False True)
      else if col = colIfOutUcastPkts then map_option low32 (packets ic d slot outDelta False False False True)
      else if col = colIfInErrors then ppm_column (baseInErr ic) (errPpmIn ic) slot (totalPkts d slot inDelta True)
      else if col = colIfInDiscards then ppm_column (baseInDisc ic) (discPpmIn ic) slot (totalPkts d slot inDelta True)
      else if col = colIfOutErrors then ppm_column (baseOutErr ic) (errPpmOut ic) slot (totalPkts d slot outDelta False)
      else if col = colIfOutDiscards then ppm_column (baseOutDisc ic) (discPpmOut ic) slot (totalPkts d slot outDelta False)
      else Some [])"

definition table_suffix :: "string \<Rightarrow> (string \<times> bool) option" where
  "table_suffix oid =
     (if HasPrefix oid ifXTablePrefix then Some (drop (length ifXTablePrefix) oid, True)
      else if HasPrefix oid ifTablePrefix then Some (drop (length ifTablePrefix) oid, False)
      else None)"

definition cell_value :: "IfCounterCycler \<Rightarrow> dial \<Rightarrow> bool \<Rightarrow> int \<Rightarrow> int \<Rightarrow> string option" where
  "cell_value ic d ifX col ifIndex =
     (let slot = ifIndex - 1
      in case (if ifX then None else state_column ic col ifIndex) of
           Some r \<Rightarrow> r
         | None \<Rightarrow> let (inDelta, outDelta) = heldDeltasAt d slot
                   in if ifX then ifx_column ic d slot inDelta outDelta col
                      else if_column ic d slot inDelta outDelta col)"

definition GetDynamicAt :: "IfCounterCycler option \<Rightarrow> dial \<Rightarrow> string \<Rightarrow> string option" where
  "GetDynamicAt ico d oid =
     (case ico of
        None \<Rightarrow> Some []
      | Some ic \<Rightarrow>
          (case table_suffix oid of
             None \<Rightarrow> Some []
           | Some (suffix, ifX) \<Rightarrow>
               let k = index_dot suffix
               in if k \<le> 0 \<or> k = int (length suffix) - 1 then Some []
                  else (case Atoi (take (nat k) suffix) of
                          None \<Rightarrow> Some []
                        | Some col \<Rightarrow>
                            (case Atoi (drop (nat k + 1) suffix) of
                               None \<Rightarrow> Some []
                             | Some ifIndex \<Rightarrow>
                                 if ifIndex < 1 \<or> ic_maxIfIndex ic < ifIndex then Some []
                                 else if ifIndex \<notin> set (knownIfIndexes ic) then Some []
                                 else cell_value ic d ifX col ifIndex))))"

section \<open>The walk over the cells\<close>

definition emitFromColumn :: "IfCounterCycler \<Rightarrow> dial \<Rightarrow> nat \<Rightarrow> int \<Rightarrow> (string \<times> string) option" where
  "emitFromColumn ic d colIdx ifIndex =
     (let stateNil = (ic_state ic = None);
          cols = (if stateNil then dropWhile (\<lambda>(p, c). isStateCol c p) (drop colIdx ifCyclerColumns)
                  else drop colIdx ifCyclerColumns)
      in case cols of
           [] \<Rightarrow> if stateNil then Some ([], []) else None
         | c # _ \<Rightarrow> do { val \<leftarrow> GetDynamicAt (Some ic) d (column_oid c ifIndex);
                        if val = [] then Some ([], []) else Some (column_oid c ifIndex, val) })"

text \<open>Column, instance and \<^verbatim>\<open>pastCol\<close> of a suffix; the column is \<open>None\<close> when there is none.\<close>

definition suffix_position :: "string \<Rightarrow> int option \<times> int \<times> bool" where
  "suffix_position suffix =
     (let k = index_dot suffix
      in if 0 < k
         then (case Atoi (take (nat k) suffix) of
                 None \<Rightarrow> (None, 0, False)
               | Some c \<Rightarrow>
                   let rest = drop (nat k + 1) suffix; extra = index_dot rest;
                       inst = (if 0 \<le> extra then take (nat extra) rest else rest)
                   in if inst = [] then (Some c, 0, False)
                      else (case Atoi inst of
                              None \<Rightarrow> (Some c, 0, True)
                            | Some idx \<Rightarrow> if idx < 0 then (Some c, 0, True) else (Some c, idx, False)))
         else if k < 0 \<and> suffix \<noteq> [] then (Atoi suffix, 0, False)
         else (None, 0, False))"

fun first_of_table :: "bool \<Rightarrow> nat \<Rightarrow> (string \<times> int) list \<Rightarrow> nat option" where
  "first_of_table isIfX i [] = None"
| "first_of_table isIfX i ((p, c) # cs) =
     (if (p = ifXTablePrefix) = isIfX then Some i else first_of_table isIfX (i + 1) cs)"

fun column_from :: "bool \<Rightarrow> int \<Rightarrow> nat \<Rightarrow> (string \<times> int) list \<Rightarrow> nat option" where
  "column_from isIfX col i [] = None"
| "column_from isIfX col i ((p, c) # cs) =
     (let entryIsIfX = (p = ifXTablePrefix)
      in if isIfX \<and> \<not> entryIsIfX then column_from isIfX col (i + 1) cs
         else if \<not> isIfX \<and> entryIsIfX then Some i
         else if col \<le> c then Some i
         else column_from isIfX col (i + 1) cs)"

definition NextDynamicOID :: "IfCounterCycler option \<Rightarrow> dial \<Rightarrow> string \<Rightarrow> (string \<times> string) option" where
  "NextDynamicOID ico d currentOID =
     (case ico of
        None \<Rightarrow> Some ([], [])
      | Some ic \<Rightarrow>
          (case sortedIfIndexes ic of
             [] \<Rightarrow> Some ([], [])
           | i0 # _ \<Rightarrow>
               (case table_suffix currentOID of
                  None \<Rightarrow> if compareOIDs currentOID (firstDynOID ic) < 0 then emitFromColumn ic d 0 i0
                          else Some ([], [])
                | Some (suffix, isIfX) \<Rightarrow>
                    (case suffix_position suffix of
                       (None, _, _) \<Rightarrow>
                         (case first_of_table isIfX 0 ifCyclerColumns of
                            Some i \<Rightarrow> emitFromColumn ic d i i0
                          | None \<Rightarrow> Some ([], []))
                     | (Some col, ifIndex, pastCol) \<Rightarrow>
                         (case column_from isIfX col 0 ifCyclerColumns of
                            None \<Rightarrow> Some ([], [])
                          | Some colIdx \<Rightarrow>
                              let (p, c) = ifCyclerColumns ! colIdx;
                                  past = (if length ifCyclerColumns \<le> colIdx + 1 then Some ([], [])
                                          else emitFromColumn ic d (colIdx + 1) i0)
                              in if (p = ifXTablePrefix) = isIfX \<and> c = col
                                 then if ic_state ic = None \<and> isStateCol c p then emitFromColumn ic d colIdx i0
                                      else if pastCol then past
                                      else let pos = SearchInts (sortedIfIndexes ic) (incr ifIndex)
                                           in if pos < length (sortedIfIndexes ic)
                                              then emitFromColumn ic d colIdx (sortedIfIndexes ic ! pos)
                                              else past
                                 else emitFromColumn ic d colIdx i0)))))"

section \<open>Cells as arc lists\<close>

definition ifTable_arcs :: "nat list" where
  "ifTable_arcs = [1, 3, 6, 1, 2, 1, 2, 2, 1]"

definition ifXTable_arcs :: "nat list" where
  "ifXTable_arcs = [1, 3, 6, 1, 2, 1, 31, 1, 1, 1]"

definition table_arcs :: "bool \<Rightarrow> nat list" where
  "table_arcs isIfX = (if isIfX then ifXTable_arcs else ifTable_arcs)"

definition cell :: "string \<times> int \<Rightarrow> int \<Rightarrow> nat list" where
  "cell c ifIndex = table_arcs (fst c = ifXTablePrefix) @ [nat (snd c), nat ifIndex]"

lemma prefixes_text:
  "ifTablePrefix = oid_text ifTable_arcs @ [dot]" "ifXTablePrefix = oid_text ifXTable_arcs @ [dot]"
  by (simp_all add: ifTablePrefix_def ifXTablePrefix_def oid_text_def ifTable_arcs_def ifXTable_arcs_def
      FormatUint.simps digit_char_def dot_def char_of_def bit_0)

lemma prefixes_differ: "ifTablePrefix \<noteq> ifXTablePrefix"
  by (simp add: ifTablePrefix_def ifXTablePrefix_def)

lemma table_arcs_simps [simp]: "table_arcs b \<noteq> []" "\<forall>v\<in>set (table_arcs b). v < 2 ^ 63"
  by (simp_all add: table_arcs_def ifXTable_arcs_def ifTable_arcs_def)

lemma table_prefix: "(if b then ifXTablePrefix else ifTablePrefix) = oid_text (table_arcs b) @ [dot]"
  by (simp add: prefixes_text table_arcs_def)

lemma column_prefix:
  "c \<in> set ifCyclerColumns \<Longrightarrow> fst c = (if fst c = ifXTablePrefix then ifXTablePrefix else ifTablePrefix) \<and> 0 < snd c \<and> snd c \<le> 20"
  by (auto simp: ifCyclerColumns_def)

lemma column_oid_cell:
  assumes "c \<in> set ifCyclerColumns" and "0 \<le> i"
  shows "column_oid c i = oid_text (cell c i)"
proof -
  have "fst c = oid_text (table_arcs (fst c = ifXTablePrefix)) @ [dot]"
    using column_prefix [OF assms(1)] table_prefix by metis
  moreover have "0 \<le> snd c"
    using column_prefix [OF assms(1)] by simp
  ultimately show ?thesis
    using assms(2) oid_text_append [of "table_arcs (fst c = ifXTablePrefix)" "[nat (snd c), nat i]"]
    by (simp add: column_oid_def cell_def Itoa_def)
qed

lemma tables_apart: "ifTable_arcs @ xs \<noteq> ifXTable_arcs @ ys"
  by (simp add: ifTable_arcs_def ifXTable_arcs_def)

lemma table_suffix_text:
  assumes "zs \<noteq> []"
  shows "table_suffix (oid_text zs) = Some (s, b) \<longleftrightarrow>
    (\<exists>ys. zs = table_arcs b @ ys \<and> ys \<noteq> [] \<and> s = Join (map FormatUint ys))"
proof -
  have x: "HasPrefix (oid_text zs) ifXTablePrefix \<longleftrightarrow> (\<exists>ys. zs = ifXTable_arcs @ ys \<and> ys \<noteq> [])"
    using HasPrefix_text [of ifXTable_arcs zs] assms by (simp add: prefixes_text ifXTable_arcs_def)
  have t: "HasPrefix (oid_text zs) ifTablePrefix \<longleftrightarrow> (\<exists>ys. zs = ifTable_arcs @ ys \<and> ys \<noteq> [])"
    using HasPrefix_text [of ifTable_arcs zs] assms by (simp add: prefixes_text ifTable_arcs_def)
  have dx: "drop (length ifXTablePrefix) (oid_text (ifXTable_arcs @ ys)) = Join (map FormatUint ys)" if "ys \<noteq> []" for ys
    using oid_text_drop [of ifXTable_arcs ys] that by (simp add: prefixes_text ifXTable_arcs_def)
  have dt: "drop (length ifTablePrefix) (oid_text (ifTable_arcs @ ys)) = Join (map FormatUint ys)" if "ys \<noteq> []" for ys
    using oid_text_drop [of ifTable_arcs ys] that by (simp add: prefixes_text ifTable_arcs_def)
  consider (ifX) ys where "zs = ifXTable_arcs @ ys" "ys \<noteq> []" | (ifT) ys where "zs = ifTable_arcs @ ys" "ys \<noteq> []"
    | (other) "\<not> (\<exists>ys. zs = ifXTable_arcs @ ys \<and> ys \<noteq> [])" "\<not> (\<exists>ys. zs = ifTable_arcs @ ys \<and> ys \<noteq> [])"
    by blast
  then show ?thesis
  proof cases
    case ifX
    then show ?thesis
      unfolding table_suffix_def x t using dx [OF ifX(2)] tables_apart
      by (cases b) (auto simp: table_arcs_def dest: sym [of "_ @ _" "_ @ _"])
  next
    case ifT
    have "\<not> (\<exists>ys. zs = ifXTable_arcs @ ys \<and> ys \<noteq> [])"
      using ifT tables_apart by auto
    then show ?thesis
      unfolding table_suffix_def x t using dt [OF ifT(2)] ifT tables_apart
      by (cases b) (auto simp: table_arcs_def dest: sym [of "_ @ _" "_ @ _"])
  next
    case other
    then show ?thesis
      unfolding table_suffix_def x t by (cases b) (auto simp: table_arcs_def)
  qed
qed

lemma suffix_position_text:
  assumes "\<forall>v\<in>set (c # cs). v < 2 ^ 63"
  shows "suffix_position (Join (map FormatUint (c # cs))) =
    (Some (int c), (case cs of [] \<Rightarrow> 0 | i # _ \<Rightarrow> int i), False)"
proof (cases cs)
  case Nil
  then show ?thesis
    using assms index_dot_join(2) [of "FormatUint c"] by (simp add: suffix_position_def Atoi_FormatUint)
next
  case (Cons i js)
  define rest where "rest = Join (map FormatUint (i # js))"
  have "Join (map FormatUint (c # cs)) = FormatUint c @ dot # rest"
    by (simp add: Cons rest_def)
  moreover have "(if 0 \<le> index_dot rest then take (nat (index_dot rest)) rest else rest) = FormatUint i"
    using index_dot_join [of "FormatUint i"] by (cases js) (simp_all add: rest_def)
  moreover have "Atoi (FormatUint i) = Some (int i)" "Atoi (FormatUint c) = Some (int c)"
    using assms by (simp_all add: Cons Atoi_FormatUint)
  ultimately show ?thesis
    using index_dot_join(1) [of "FormatUint c" rest] by (simp add: suffix_position_def Cons Let_def)
qed

section \<open>Well-formed cyclers\<close>

text \<open>
  What \<^verbatim>\<open>InitIfCountersWithScenario\<close> establishes: ascending interface indexes within the arrays, arrays of
  the recorded size, the bracket OIDs of the first and the last cell, and an engine over the same indexes.
\<close>

definition sized_arrays :: "IfCounterCycler \<Rightarrow> bool" where
  "sized_arrays ic \<longleftrightarrow>
     (\<forall>xs\<in>{baseInOctets ic, baseOutOctets ic, baseInUcast ic, baseInMcast ic, baseInBcast ic, baseOutUcast ic,
            baseOutMcast ic, baseOutBcast ic, baseInErr ic, baseOutErr ic, baseInDisc ic, baseOutDisc ic}.
        int (length xs) = ic_maxIfIndex ic)
     \<and> (\<forall>xs\<in>{errPpmIn ic, errPpmOut ic, discPpmIn ic, discPpmOut ic}. int (length xs) = ic_maxIfIndex ic)"

definition wf_indexes :: "IfCounterCycler \<Rightarrow> bool" where
  "wf_indexes ic \<longleftrightarrow> sortedIfIndexes ic \<noteq> [] \<and> sorted_wrt (<) (sortedIfIndexes ic)
     \<and> set (knownIfIndexes ic) = set (sortedIfIndexes ic)
     \<and> (\<forall>i\<in>set (sortedIfIndexes ic). 1 \<le> i \<and> i \<le> ic_maxIfIndex ic) \<and> ic_maxIfIndex ic \<le> maxResourceIfIndex
     \<and> firstDynOID ic = column_oid (hd ifCyclerColumns) (hd (sortedIfIndexes ic))
     \<and> lastDynOID ic = column_oid (last ifCyclerColumns) (last (sortedIfIndexes ic))"

definition wf_cycler :: "IfCounterCycler \<Rightarrow> bool" where
  "wf_cycler ic \<longleftrightarrow> wf_indexes ic \<and> sized_arrays ic
     \<and> (case ic_state ic of None \<Rightarrow> True | Some st \<Rightarrow> wf_engine st \<and> maxIfIndex st = ic_maxIfIndex ic)"

lemma foldl_max: "foldl (\<lambda>m idx. if m < idx then idx else m) (m :: int) xs = Max (insert m (set xs))"
proof -
  have "(\<lambda>idx m. if m < idx then idx else m) = (max :: int \<Rightarrow> _)"
    by (auto simp: fun_eq_iff)
  then show ?thesis
    using Max.set_eq_fold [of m xs] by (simp add: foldl_conv_fold)
qed

lemma resource_ifindex_range: "resource_ifindex oid = Some i \<Longrightarrow> 1 \<le> i \<and> i \<le> maxResourceIfIndex"
  by (auto simp: resource_ifindex_def split: if_splits option.splits)

text \<open>The indexes collected from a resource file are well formed, whatever keys it has.\<close>

lemma init_indexes_wf:
  assumes "init_indexes keys = Some (ic_maxIfIndex ic, knownIfIndexes ic, sortedIfIndexes ic, firstDynOID ic, lastDynOID ic)"
  shows "wf_indexes ic"
proof -
  let ?known = "knownIdxs keys"
  have eqs: "?known \<noteq> []" "knownIfIndexes ic = ?known" "sortedIfIndexes ic = sort ?known"
    "ic_maxIfIndex ic = foldl (\<lambda>m idx. if m < idx then idx else m) 0 ?known"
    "firstDynOID ic = column_oid (hd ifCyclerColumns) (hd (sort ?known))"
    "lastDynOID ic = column_oid (last ifCyclerColumns) (last (sort ?known))"
    using assms by (auto simp: init_indexes_def Let_def split: if_splits)
  have range: "\<forall>i\<in>set ?known. 1 \<le> i \<and> i \<le> maxResourceIfIndex"
    using resource_ifindex_range by (auto simp: knownIdxs_def List.map_filter_def)
  have "sorted_wrt (<) (sort ?known)"
    by (simp add: strict_sorted_iff knownIdxs_def)
  moreover have "sort ?known \<noteq> []"
    using eqs(1) by (metis set_empty set_sort)
  ultimately show ?thesis
    using range unfolding wf_indexes_def eqs foldl_max by auto
qed

definition owned_columns :: "IfCounterCycler \<Rightarrow> (string \<times> int) list" where
  "owned_columns ic = (if ic_state ic = None then filter (\<lambda>(p, c). \<not> isStateCol c p) ifCyclerColumns else ifCyclerColumns)"

definition cells :: "IfCounterCycler \<Rightarrow> nat list list" where
  "cells ic = concat (map (\<lambda>c. map (cell c) (sortedIfIndexes ic)) (owned_columns ic))"

lemma known_index:
  "wf_cycler ic \<Longrightarrow> i \<in> set (sortedIfIndexes ic) \<Longrightarrow> 1 \<le> i \<and> i \<le> ic_maxIfIndex ic \<and> i \<in> set (knownIfIndexes ic) \<and> i \<le> 65535"
  by (force simp: wf_cycler_def wf_indexes_def)

lemma nonneg_index: "wf_cycler ic \<Longrightarrow> i \<in> set (sortedIfIndexes ic) \<Longrightarrow> 0 \<le> i"
  using known_index by fastforce

lemma at_array:
  assumes "wf_cycler ic" and "i \<in> set (sortedIfIndexes ic)" and "int (length xs) = ic_maxIfIndex ic"
  shows "\<exists>v. at xs (i - 1) = Some v"
  using known_index [OF assms(1,2)] assms(3) by (simp add: at_def)

lemma GetDynamicAt_cell:
  assumes "wf_cycler ic" and "c \<in> set ifCyclerColumns" and "i \<in> set (sortedIfIndexes ic)"
  shows "GetDynamicAt (Some ic) d (oid_text (cell c i)) = cell_value ic d (fst c = ifXTablePrefix) (snd c) i"
proof -
  let ?x = "fst c = ifXTablePrefix"
  have col: "0 < snd c" "snd c \<le> 20"
    using column_prefix [OF assms(2)] by simp_all
  have idx: "1 \<le> i" "i \<le> ic_maxIfIndex ic" "i \<in> set (knownIfIndexes ic)" "i \<le> 65535"
    using known_index [OF assms(1,3)] by simp_all
  let ?s = "FormatUint (nat (snd c)) @ dot # FormatUint (nat i)"
  have "table_suffix (oid_text (cell c i)) = Some (?s, ?x)"
    by (subst table_suffix_text) (auto simp: cell_def)
  moreover have "index_dot ?s = int (length (FormatUint (nat (snd c))))"
    by (rule index_dot_join) simp
  moreover have "Atoi (FormatUint (nat (snd c))) = Some (snd c)" "Atoi (FormatUint (nat i)) = Some i"
    using col idx by (simp_all add: Atoi_FormatUint)
  ultimately show ?thesis
    using idx by (simp add: GetDynamicAt_def)
qed

lemma packets_total:
  assumes "wf_cycler ic" and "i \<in> set (sortedIfIndexes ic)" and "uni \<or> mc \<or> bc"
  shows "\<exists>v. packets ic d (i - 1) n inb mc bc uni = Some v"
proof -
  have "int (length xs) = ic_maxIfIndex ic"
    if "xs \<in> {baseInUcast ic, baseInMcast ic, baseInBcast ic, baseOutUcast ic, baseOutMcast ic, baseOutBcast ic}" for xs
    using assms(1) that by (auto simp: wf_cycler_def sized_arrays_def)
  then have "\<forall>xs\<in>{baseInUcast ic, baseInMcast ic, baseInBcast ic, baseOutUcast ic, baseOutMcast ic, baseOutBcast ic}.
      \<exists>v. at xs (i - 1) = Some v"
    using at_array [OF assms(1,2)] by blast
  then show ?thesis
    using assms(3) by (auto simp: packets_def Let_def split: pkt_kind.splits)
qed

lemma ppm_total:
  assumes "wf_cycler ic" and "i \<in> set (sortedIfIndexes ic)" and "int (length xs) = ic_maxIfIndex ic"
    and "int (length ps) = ic_maxIfIndex ic"
  shows "\<exists>n. ppm_column xs ps (i - 1) t = Some (FormatUint n)"
  using at_array [OF assms(1,2,3)] at_array [OF assms(1,2,4)] by (auto simp: ppm_column_def low32_def fmtU32_def)

lemma enum_strings [simp]: "adminEnumString v \<noteq> []" "operEnumString v \<noteq> []" "lastChangeTicks b l \<noteq> []"
proof -
  show "lastChangeTicks b l \<noteq> []"
    unfolding lastChangeTicks_def by (rule if_split [THEN iffD2]) simp
qed (simp_all add: adminEnumString_def operEnumString_def)

lemma state_column_total:
  assumes "wf_cycler ic" and "i \<in> set (sortedIfIndexes ic)" and "state_column ic col i = Some r"
  shows "\<exists>n. r = Some n \<and> n \<noteq> []"
proof -
  obtain st where st: "ic_state ic = Some st" "wf_engine st" "maxIfIndex st = ic_maxIfIndex ic"
    using assms(1,3) by (cases "ic_state ic") (auto simp: wf_cycler_def state_column_def)
  have "known st i"
    using known_index [OF assms(1,2)] st by (simp add: known_def)
  then obtain v w t where reads: "AdminStatus st i = Some v" "OperStatus st i = Some w" "LastChangeNs st i = Some t"
    using AdminStatus_eq [OF st(2)] OperStatus_eq [OF st(2)] LastChangeNs_eq [OF st(2)] by blast
  have "r = (if col = 7 then Some (adminEnumString v) else if col = 8 then Some (operEnumString w)
      else Some (lastChangeTicks (bootTimeUnixNs st) t))"
    using assms(3) by (simp add: state_column_def st(1) reads split: if_split_asm)
  then show ?thesis
    by (simp split: if_split)
qed

lemma owned_subset: "set (owned_columns ic) \<subseteq> set ifCyclerColumns"
  by (simp add: owned_columns_def)

lemma column_numbers:
  assumes "c \<in> set ifCyclerColumns"
  shows "fst c = ifXTablePrefix \<Longrightarrow> snd c \<in> {2, 3, 4, 5, 6, 7, 8, 9, 10, 11, 12, 13}"
    and "fst c \<noteq> ifXTablePrefix \<Longrightarrow> snd c \<in> {7, 8, 9, 10, 11, 13, 14, 16, 17, 19, 20} \<and> fst c = ifTablePrefix"
  using assms prefixes_differ unfolding ifCyclerColumns_def list.set insert_iff empty_iff
  by (elim disjE FalseE; simp)+

text \<open>Every owned cell has a value.\<close>

lemma cell_value_total:
  assumes "wf_cycler ic" and "c \<in> set (owned_columns ic)" and "i \<in> set (sortedIfIndexes ic)"
  shows "\<exists>v. cell_value ic d (fst c = ifXTablePrefix) (snd c) i = Some v \<and> v \<noteq> []"
proof -
  obtain inD outD where dl: "heldDeltasAt d (i - 1) = (inD, outD)"
    by (cases "heldDeltasAt d (i - 1)")
  note pk = packets_total [OF assms(1,3)]
  have arr: "int (length xs) = ic_maxIfIndex ic"
    if "xs \<in> {baseInOctets ic, baseOutOctets ic, baseInErr ic, baseOutErr ic, baseInDisc ic, baseOutDisc ic}" for xs
    using assms(1) that by (auto simp: wf_cycler_def sized_arrays_def)
  have arp: "int (length ps) = ic_maxIfIndex ic" if "ps \<in> {errPpmIn ic, errPpmOut ic, discPpmIn ic, discPpmOut ic}" for ps
    using assms(1) that by (auto simp: wf_cycler_def sized_arrays_def)
  have ifx: "\<exists>v. ifx_column ic d (i - 1) inD outD col = Some v \<and> v \<noteq> []" if "col \<in> {2, 3, 4, 5, 6, 7, 8, 9, 10, 11, 12, 13}" for col
    using pk [of True False False d inD True] pk [of False True False d inD True] pk [of False False True d inD True]
      pk [of True False False d outD False] pk [of False True False d outD False] pk [of False False True d outD False]
      at_array [OF assms(1,3) arr, of "baseInOctets ic"] at_array [OF assms(1,3) arr, of "baseOutOctets ic"] that
    by (auto simp: ifx_column_def low32_def fmtU32_def fmtU64_def)
  have ift: "\<exists>v. if_column ic d (i - 1) inD outD col = Some v \<and> v \<noteq> []" if "col \<in> {10, 11, 13, 14, 16, 17, 19, 20}" for col
    using pk [of True False False d inD True] pk [of True False False d outD False]
      at_array [OF assms(1,3) arr, of "baseInOctets ic"] at_array [OF assms(1,3) arr, of "baseOutOctets ic"]
      ppm_total [OF assms(1,3) arr arp, of "baseInErr ic" "errPpmIn ic" "totalPkts d (i - 1) inD True"]
      ppm_total [OF assms(1,3) arr arp, of "baseInDisc ic" "discPpmIn ic" "totalPkts d (i - 1) inD True"]
      ppm_total [OF assms(1,3) arr arp, of "baseOutErr ic" "errPpmOut ic" "totalPkts d (i - 1) outD False"]
      ppm_total [OF assms(1,3) arr arp, of "baseOutDisc ic" "discPpmOut ic" "totalPkts d (i - 1) outD False"] that
    by (auto simp: if_column_def low32_def fmtU32_def)
  show ?thesis
  proof (cases "fst c = ifXTablePrefix")
    case True
    then have "snd c \<in> {2, 3, 4, 5, 6, 7, 8, 9, 10, 11, 12, 13}"
      using assms(2) owned_subset column_numbers(1) by blast
    then show ?thesis
      using True ifx [of "snd c"] by (simp add: cell_value_def dl)
  next
    case False
    show ?thesis
    proof (cases "state_column ic (snd c) i")
      case None
      have num: "snd c \<in> {7, 8, 9, 10, 11, 13, 14, 16, 17, 19, 20}" "fst c = ifTablePrefix"
        using assms(2) owned_subset column_numbers(2) [OF _ False] by blast+
      have "snd c \<notin> {7, 8, 9}"
      proof (cases "ic_state ic")
        case (Some st)
        then show ?thesis
          using None by (auto simp: state_column_def)
      qed (use assms(2) num(2) in \<open>auto simp: owned_columns_def isStateCol_def\<close>)
      then have "snd c \<in> {10, 11, 13, 14, 16, 17, 19, 20}"
        using num(1) by blast
      then show ?thesis
        using ift [of "snd c"] False None by (simp add: cell_value_def dl)
    next
      case (Some r)
      then show ?thesis
        using False state_column_total [OF assms(1,3) Some] by (simp add: cell_value_def)
    qed
  qed
qed

section \<open>The walk finds the least cell beyond a position\<close>

definition after :: "bool \<Rightarrow> int \<Rightarrow> string \<times> int \<Rightarrow> bool" where
  "after b col x \<longleftrightarrow> \<not> b \<and> fst x = ifXTablePrefix \<or> (fst x = ifXTablePrefix) = b \<and> col < snd x"

definition same :: "bool \<Rightarrow> int \<Rightarrow> string \<times> int \<Rightarrow> bool" where
  "same b col x \<longleftrightarrow> (fst x = ifXTablePrefix) = b \<and> snd x = col"

lemma columns_ascending: "sorted_wrt (\<lambda>x y. after (fst x = ifXTablePrefix) (snd x) y) ifCyclerColumns"
  using prefixes_differ by (simp add: ifCyclerColumns_def after_def)

lemma after_trans: "after b col x \<or> same b col x \<Longrightarrow> after (fst x = ifXTablePrefix) (snd x) y \<Longrightarrow> after b col y"
  by (auto simp: after_def same_def)

lemma append_less_append: "(xs @ ys < xs @ (zs :: nat list)) = (ys < zs)"
  by (induction xs) auto

lemma cur_less_cell:
  assumes "x \<in> set ifCyclerColumns"
  shows "table_arcs b @ (col # rest) < cell x i \<longleftrightarrow> after b (int col) x \<or> same b (int col) x \<and> rest < [nat i]"
proof (cases "(fst x = ifXTablePrefix) = b")
  case True
  have "0 < snd x"
    using column_prefix [OF assms] by simp
  then show ?thesis
    using True by (auto simp: cell_def append_less_append after_def same_def nat_eq_iff zless_nat_eq_int_zless)
next
  case False
  then show ?thesis
    by (cases b) (auto simp: cell_def table_arcs_def ifTable_arcs_def ifXTable_arcs_def after_def same_def)
qed

lemma cell_less:
  assumes "x \<in> set ifCyclerColumns" and "y \<in> set ifCyclerColumns" and "0 \<le> i" and "0 \<le> j"
  shows "cell x i < cell y j \<longleftrightarrow> after (fst x = ifXTablePrefix) (snd x) y \<or> x = y \<and> i < j"
proof -
  have pos: "0 < snd x" and px: "fst x = (if fst x = ifXTablePrefix then ifXTablePrefix else ifTablePrefix)"
    and py: "fst y = (if fst y = ifXTablePrefix then ifXTablePrefix else ifTablePrefix)"
    using column_prefix assms(1,2) by blast+
  have "cell x i < cell y j \<longleftrightarrow> after (fst x = ifXTablePrefix) (snd x) y
      \<or> same (fst x = ifXTablePrefix) (snd x) y \<and> [nat i] < [nat j]"
    using cur_less_cell [OF assms(2), of "fst x = ifXTablePrefix" "nat (snd x)" "[nat i]" j] pos
    by (simp add: cell_def [of x])
  moreover have "same (fst x = ifXTablePrefix) (snd x) y \<longleftrightarrow> x = y"
    using px py unfolding same_def by (metis prod.collapse)
  ultimately show ?thesis
    using assms(3,4) by (auto simp: nat_less_eq_zless)
qed

lemma find_append_right: "\<forall>x\<in>set xs. \<not> P x \<Longrightarrow> find P (xs @ ys) = find P ys"
  by (induction xs) auto

lemma find_append_left: "x \<in> set xs \<Longrightarrow> P x \<Longrightarrow> find P (xs @ ys) = find P xs"
  by (induction xs) auto

lemma find_SearchInts:
  "find (\<lambda>i. m < i) xs = (if SearchInts xs (m + 1) < length xs then Some (xs ! SearchInts xs (m + 1)) else None)"
  by (induction xs) (auto simp: SearchInts_def)

lemma column_from_Some:
  "column_from b col j cs = Some k \<Longrightarrow>
     j \<le> k \<and> k - j < length cs \<and> (\<forall>x\<in>set (take (k - j) cs). \<not> after b col x \<and> \<not> same b col x)
     \<and> (after b col (cs ! (k - j)) \<or> same b col (cs ! (k - j)))"
proof (induction b col j cs rule: column_from.induct)
  case (2 b col j p c cs)
  show ?case
  proof (cases "column_from b col (j + 1) cs = Some k \<and> \<not> after b col (p, c) \<and> \<not> same b col (p, c)
      \<and> column_from b col j ((p, c) # cs) = column_from b col (j + 1) cs")
    case True
    then have ih: "j + 1 \<le> k \<and> k - (j + 1) < length cs
        \<and> (\<forall>x\<in>set (take (k - (j + 1)) cs). \<not> after b col x \<and> \<not> same b col x)
        \<and> (after b col (cs ! (k - (j + 1))) \<or> same b col (cs ! (k - (j + 1))))"
      using "2.IH"(1) [OF refl] "2.IH"(2) [OF refl] by (auto simp: Let_def after_def same_def split: if_splits)
    then obtain n where "k = j + 1 + n"
      using le_Suc_ex by blast
    then show ?thesis
      using ih True by auto
  next
    case False
    then show ?thesis
      using "2.prems" by (auto simp: Let_def after_def same_def split: if_splits)
  qed
qed simp

lemma column_from_None: "column_from b col j cs = None \<Longrightarrow> \<forall>x\<in>set cs. \<not> after b col x \<and> \<not> same b col x"
  by (induction b col j cs rule: column_from.induct) (auto simp: Let_def after_def same_def split: if_splits)

text \<open>The columns served start at position \<open>first_owned\<close>: without a state engine the three state columns are skipped.\<close>

definition first_owned :: "IfCounterCycler \<Rightarrow> nat" where
  "first_owned ic = (if ic_state ic = None then 3 else 0)"

lemma state_columns:
  "\<forall>x\<in>set (take 3 ifCyclerColumns). isStateCol (snd x) (fst x)"
  "\<forall>x\<in>set (drop 3 ifCyclerColumns). \<not> isStateCol (snd x) (fst x)"
  using prefixes_differ by (auto simp: ifCyclerColumns_def isStateCol_def)

lemma owned_columns_drop: "owned_columns ic = drop (first_owned ic) ifCyclerColumns"
proof -
  have "filter (\<lambda>(p, c). \<not> isStateCol c p) (take 3 ifCyclerColumns @ drop 3 ifCyclerColumns) = drop 3 ifCyclerColumns"
    using state_columns unfolding filter_append
    by (subst filter_False, force, subst filter_True) (auto split: prod.splits)
  then show ?thesis
    by (simp add: owned_columns_def first_owned_def del: filter_append)
qed

lemma length_columns: "length ifCyclerColumns = 23"
  by (simp add: ifCyclerColumns_def)

lemma dropWhile_state: "dropWhile (\<lambda>(p, c). isStateCol c p) (drop k ifCyclerColumns) = drop (max k 3) ifCyclerColumns"
proof -
  have keep: "dropWhile (\<lambda>(p, c). isStateCol c p) ys = ys" if "\<forall>x\<in>set ys. \<not> isStateCol (snd x) (fst x)" for ys
    using that by (cases ys) auto
  have "dropWhile (\<lambda>(p, c). isStateCol c p) (drop k (take 3 ifCyclerColumns) @ drop (k - 3) (drop 3 ifCyclerColumns))
      = dropWhile (\<lambda>(p, c). isStateCol c p) (drop (k - 3) (drop 3 ifCyclerColumns))"
    using state_columns(1) by (intro dropWhile_append2) (auto dest!: in_set_dropD)
  also have "\<dots> = drop (k - 3) (drop 3 ifCyclerColumns)"
    using state_columns(2) set_drop_subset [of "k - 3" "drop 3 ifCyclerColumns"] by (intro keep) blast
  also have "\<dots> = drop (max k 3) ifCyclerColumns"
    by (simp add: max_def)
  finally show ?thesis
    using drop_append [of k "take 3 ifCyclerColumns" "drop 3 ifCyclerColumns"]
    by (simp add: length_columns del: drop_append)
qed

lemma max_owned: "max k (first_owned ic) < length ifCyclerColumns \<longleftrightarrow> k < length ifCyclerColumns"
  by (simp add: first_owned_def ifCyclerColumns_def)

definition served :: "IfCounterCycler \<Rightarrow> dial \<Rightarrow> nat list \<Rightarrow> string \<times> string" where
  "served ic d z = (oid_text z, the (GetDynamicAt (Some ic) d (oid_text z)))"

lemma emitFromColumn_cell:
  assumes "wf_cycler ic" and "k < length ifCyclerColumns" and "i \<in> set (sortedIfIndexes ic)"
  shows "emitFromColumn ic d k i = Some (served ic d (cell (ifCyclerColumns ! max k (first_owned ic)) i))"
proof -
  let ?k = "max k (first_owned ic)"
  let ?c = "ifCyclerColumns ! ?k"
  have lt: "?k < length ifCyclerColumns"
    using assms(2) max_owned by blast
  have cols: "(if ic_state ic = None then dropWhile (\<lambda>(p, c). isStateCol c p) (drop k ifCyclerColumns)
      else drop k ifCyclerColumns) = ?c # drop (Suc ?k) ifCyclerColumns"
    using Cons_nth_drop_Suc [OF lt] dropWhile_state [of k] by (auto simp: first_owned_def)
  have "?c \<in> set (owned_columns ic)"
    unfolding owned_columns_drop using lt by (auto simp: in_set_conv_nth intro!: exI [of _ "?k - first_owned ic"])
  then obtain v where v: "cell_value ic d (fst ?c = ifXTablePrefix) (snd ?c) i = Some v" "v \<noteq> []"
    using cell_value_total [OF assms(1) _ assms(3)] by blast
  have "column_oid ?c i = oid_text (cell ?c i)"
    using known_index [OF assms(1,3)] lt by (intro column_oid_cell) auto
  moreover have "GetDynamicAt (Some ic) d (oid_text (cell ?c i)) = Some v"
    using GetDynamicAt_cell [OF assms(1) _ assms(3)] v(1) lt by simp
  ultimately show ?thesis
    unfolding emitFromColumn_def Let_def cols by (simp add: v(2) served_def)
qed

text \<open>The reference: the first cell beyond \<open>cur\<close> in the list of all cells, which is ascending.\<close>

definition next_cell :: "IfCounterCycler \<Rightarrow> nat list \<Rightarrow> nat list option" where
  "next_cell ic cur = find (\<lambda>z. cur < z) (cells ic)"

abbreviation columns_before :: "IfCounterCycler \<Rightarrow> nat \<Rightarrow> (string \<times> int) list" where
  "columns_before ic k \<equiv> take (k - first_owned ic) (drop (first_owned ic) ifCyclerColumns)"

lemma columns_before_subset: "set (columns_before ic k) \<subseteq> set (take k ifCyclerColumns)"
  using set_drop_subset [of "first_owned ic" "take k ifCyclerColumns"] by (simp add: drop_take)

lemma next_cell_skip:
  assumes "first_owned ic \<le> k" and "\<forall>x\<in>set (columns_before ic k). \<forall>i\<in>set (sortedIfIndexes ic). \<not> cur < cell x i"
  shows "next_cell ic cur = find (\<lambda>z. cur < z) (concat (map (\<lambda>c. map (cell c) (sortedIfIndexes ic)) (drop k ifCyclerColumns)))"
proof -
  have "drop (first_owned ic) ifCyclerColumns = columns_before ic k @ drop k ifCyclerColumns"
    using assms(1) append_take_drop_id [of "k - first_owned ic" "drop (first_owned ic) ifCyclerColumns"] by simp
  then have "cells ic = concat (map (\<lambda>c. map (cell c) (sortedIfIndexes ic)) (columns_before ic k))
      @ concat (map (\<lambda>c. map (cell c) (sortedIfIndexes ic)) (drop k ifCyclerColumns))"
    unfolding cells_def owned_columns_drop by (metis concat_append map_append)
  moreover have "\<forall>z\<in>set (concat (map (\<lambda>c. map (cell c) (sortedIfIndexes ic)) (columns_before ic k))). \<not> cur < z"
    using assms(2) by auto
  ultimately show ?thesis
    unfolding next_cell_def by (simp add: find_append_right)
qed

lemma next_cell_hit:
  assumes "k < length ifCyclerColumns" and "first_owned ic \<le> k"
    and "\<forall>x\<in>set (columns_before ic k). \<forall>i\<in>set (sortedIfIndexes ic). \<not> cur < cell x i"
    and "i \<in> set (sortedIfIndexes ic)" and "cur < cell (ifCyclerColumns ! k) i"
  shows "next_cell ic cur = map_option (cell (ifCyclerColumns ! k))
    (find (\<lambda>i. cur < cell (ifCyclerColumns ! k) i) (sortedIfIndexes ic))"
proof -
  let ?c = "ifCyclerColumns ! k"
  have "find (\<lambda>z. cur < z) (map (cell ?c) (sortedIfIndexes ic) @ rest)
      = find (\<lambda>z. cur < z) (map (cell ?c) (sortedIfIndexes ic))" for rest
    using assms(4,5) by (intro find_append_left [of "cell ?c i"]) auto
  moreover have "find (\<lambda>z. cur < z) (map (cell ?c) is') = map_option (cell ?c) (find (\<lambda>i. cur < cell ?c i) is')" for is'
    by (induction is') auto
  ultimately show ?thesis
    unfolding next_cell_skip [OF assms(2,3)] Cons_nth_drop_Suc [OF assms(1), symmetric] by simp
qed

lemma next_cell_first:
  assumes "k < length ifCyclerColumns" and "first_owned ic \<le> k" and "sortedIfIndexes ic = i0 # r0"
    and "\<forall>x\<in>set (columns_before ic k). \<forall>i\<in>set (sortedIfIndexes ic). \<not> cur < cell x i"
    and "cur < cell (ifCyclerColumns ! k) i0"
  shows "next_cell ic cur = Some (cell (ifCyclerColumns ! k) i0)"
  using next_cell_hit [OF assms(1,2,4), of i0] assms(3,5) by simp

lemma position_bound: "legal_arcs cur \<Longrightarrow> cur \<noteq> [] \<and> (\<forall>v\<in>set cur. v < 2 ^ 63 - 1)"
  by (cases cur rule: legal_arcs.cases) (auto intro: le_less_trans)

lemma rest_less:
  "1 \<le> i \<Longrightarrow> rest < [nat i] \<longleftrightarrow> (case rest of [] \<Rightarrow> 0 | m # _ \<Rightarrow> int m) < i"
  by (cases rest) auto

lemma incr_small: "0 \<le> m \<Longrightarrow> m < 2 ^ 63 - 1 \<Longrightarrow> incr m = m + 1"
  by (simp add: incr_def)

lemma find_first: "xs \<noteq> [] \<Longrightarrow> \<forall>x\<in>set xs. P x \<Longrightarrow> find P xs = Some (hd xs)"
  by (cases xs) auto

text \<open>The three ways the walk goes on from the first column \<open>k\<close> at or after its position.\<close>

lemma step_to_column:
  assumes "wf_cycler ic" and "sortedIfIndexes ic = i0 # r0" and "k < length ifCyclerColumns"
    and "\<forall>x\<in>set (columns_before ic (max k (first_owned ic))). \<forall>i\<in>set (sortedIfIndexes ic). \<not> cur < cell x i"
    and "cur < cell (ifCyclerColumns ! max k (first_owned ic)) i0"
  shows "emitFromColumn ic d k i0 = Some (case next_cell ic cur of None \<Rightarrow> ([], []) | Some z \<Rightarrow> served ic d z)"
proof -
  have "max k (first_owned ic) < length ifCyclerColumns"
    using assms(3) max_owned by blast
  then show ?thesis
    using next_cell_first [OF _ _ assms(2) assms(4,5)] emitFromColumn_cell [OF assms(1,3), of i0 d] assms(2) by simp
qed

lemma step_in_column:
  assumes "wf_cycler ic" and "k < length ifCyclerColumns" and "first_owned ic \<le> k"
    and "\<forall>x\<in>set (columns_before ic k). \<forall>i\<in>set (sortedIfIndexes ic). \<not> cur < cell x i"
    and "\<And>i. i \<in> set (sortedIfIndexes ic) \<Longrightarrow> cur < cell (ifCyclerColumns ! k) i \<longleftrightarrow> m < i"
    and "SearchInts (sortedIfIndexes ic) (m + 1) < length (sortedIfIndexes ic)"
  shows "emitFromColumn ic d k (sortedIfIndexes ic ! SearchInts (sortedIfIndexes ic) (m + 1)) =
    Some (case next_cell ic cur of None \<Rightarrow> ([], []) | Some z \<Rightarrow> served ic d z)"
proof -
  let ?idx = "sortedIfIndexes ic"
  let ?i = "?idx ! SearchInts ?idx (m + 1)"
  have eq: "find (\<lambda>i. cur < cell (ifCyclerColumns ! k) i) ?idx = find (\<lambda>i. m < i) ?idx"
    using assms(5) by (intro find_cong) auto
  have hit: "find (\<lambda>i. m < i) ?idx = Some ?i"
    using assms(6) by (simp add: find_SearchInts)
  have "m < ?i"
    using hit by (auto simp: find_Some_iff)
  then have "cur < cell (ifCyclerColumns ! k) ?i"
    using assms(5,6) by simp
  then have "next_cell ic cur = Some (cell (ifCyclerColumns ! k) ?i)"
    using next_cell_hit [OF assms(2,3,4), of ?i] assms(6) eq hit by simp
  then show ?thesis
    using emitFromColumn_cell [OF assms(1,2), of ?i d] assms(3,6) by (simp add: max_absorb1)
qed

lemma column_exhausted:
  assumes "\<And>i. i \<in> set (sortedIfIndexes ic) \<Longrightarrow> cur < cell (ifCyclerColumns ! k) i \<longleftrightarrow> m < i"
    and "\<not> SearchInts (sortedIfIndexes ic) (m + 1) < length (sortedIfIndexes ic)"
    and "first_owned ic \<le> k" and "k < length ifCyclerColumns"
    and "\<forall>x\<in>set (columns_before ic k). \<forall>i\<in>set (sortedIfIndexes ic). \<not> cur < cell x i"
  shows "\<forall>x\<in>set (columns_before ic (k + 1)). \<forall>i\<in>set (sortedIfIndexes ic). \<not> cur < cell x i"
proof -
  have "find (\<lambda>i. m < i) (sortedIfIndexes ic) = None"
    using assms(2) by (simp add: find_SearchInts)
  then have "\<forall>i\<in>set (sortedIfIndexes ic). \<not> cur < cell (ifCyclerColumns ! k) i"
    using assms(1) by (auto simp: find_None_iff)
  moreover have "columns_before ic (k + 1) = columns_before ic k @ [ifCyclerColumns ! k]"
    using assms(3,4) take_Suc_conv_app_nth [of "k - first_owned ic" "drop (first_owned ic) ifCyclerColumns"]
    by (simp add: Suc_diff_le)
  ultimately show ?thesis
    using assms(5) by auto
qed

lemma column_step:
  assumes "wf_cycler ic" and "sortedIfIndexes ic = i0 # r0" and "k < length ifCyclerColumns" and "first_owned ic \<le> k"
    and "\<forall>x\<in>set (columns_before ic k). \<forall>i\<in>set (sortedIfIndexes ic). \<not> cur < cell x i"
    and "\<And>i. i \<in> set (sortedIfIndexes ic) \<Longrightarrow> cur < cell (ifCyclerColumns ! k) i \<longleftrightarrow> (here \<longrightarrow> m < i)"
    and "\<And>j. k < j \<Longrightarrow> j < length ifCyclerColumns \<Longrightarrow> cur < cell (ifCyclerColumns ! j) i0"
  shows "(if here
          then if SearchInts (sortedIfIndexes ic) (m + 1) < length (sortedIfIndexes ic)
               then emitFromColumn ic d k (sortedIfIndexes ic ! SearchInts (sortedIfIndexes ic) (m + 1))
               else if length ifCyclerColumns \<le> k + 1 then Some ([], []) else emitFromColumn ic d (k + 1) i0
          else emitFromColumn ic d k i0)
    = Some (case next_cell ic cur of None \<Rightarrow> ([], []) | Some z \<Rightarrow> served ic d z)"
proof (cases here)
  case False
  then show ?thesis
    using step_to_column [OF assms(1-3), of cur d] assms(2,4-6) by (simp add: max_absorb1)
next
  case True
  note col = assms(6) [simplified True simp_thms]
  show ?thesis
  proof (cases "SearchInts (sortedIfIndexes ic) (m + 1) < length (sortedIfIndexes ic)")
    case in_col: True
    then show ?thesis
      using step_in_column [OF assms(1,3,4,5) col in_col, of d] True by simp
  next
    case done': False
    note clear = column_exhausted [OF col done' assms(4,3,5)]
    show ?thesis
    proof (cases "length ifCyclerColumns \<le> k + 1")
      case last: True
      then have "next_cell ic cur = None"
        using next_cell_skip [OF _ clear] assms(4) by simp
      then show ?thesis
        using True done' last by simp
    next
      case False
      then show ?thesis
        using step_to_column [OF assms(1,2), of "k + 1" cur d] clear assms(4) assms(7) [of "k + 1"] True done'
        by (simp add: max_absorb1)
    qed
  qed
qed

lemma table_step:
  assumes "wf_cycler ic" and "sortedIfIndexes ic = i0 # r0"
    and "\<And>x i. x \<in> set ifCyclerColumns \<Longrightarrow> i \<in> set (sortedIfIndexes ic) \<Longrightarrow>
      cur < cell x i \<longleftrightarrow> after b col x \<or> same b col x \<and> m < i"
    and "column_from b col 0 ifCyclerColumns = Some k"
  shows "(if same b col (ifCyclerColumns ! k)
          then if ic_state ic = None \<and> isStateCol (snd (ifCyclerColumns ! k)) (fst (ifCyclerColumns ! k))
               then emitFromColumn ic d k i0
               else if SearchInts (sortedIfIndexes ic) (m + 1) < length (sortedIfIndexes ic)
               then emitFromColumn ic d k (sortedIfIndexes ic ! SearchInts (sortedIfIndexes ic) (m + 1))
               else if length ifCyclerColumns \<le> k + 1 then Some ([], []) else emitFromColumn ic d (k + 1) i0
          else emitFromColumn ic d k i0)
    = Some (case next_cell ic cur of None \<Rightarrow> ([], []) | Some z \<Rightarrow> served ic d z)"
proof -
  let ?idx = "sortedIfIndexes ic"
  let ?x = "ifCyclerColumns ! k"
  have k: "k < length ifCyclerColumns" "\<forall>x\<in>set (take k ifCyclerColumns). \<not> after b col x \<and> \<not> same b col x"
    "after b col ?x \<or> same b col ?x"
    using column_from_Some [OF assms(4)] by auto
  have i0: "i0 \<in> set ?idx"
    by (simp add: assms(2))
  have later: "cur < cell (ifCyclerColumns ! j) i0" if "k < j" "j < length ifCyclerColumns" for j
    using after_trans [OF k(3) sorted_wrt_nth_less [OF columns_ascending that]] assms(3) [OF nth_mem [OF that(2)] i0] by blast
  have before: "\<forall>x\<in>set (columns_before ic k). \<forall>i\<in>set ?idx. \<not> cur < cell x i"
    using k(2) assms(3) columns_before_subset [where ic = ic and k = k] by (blast dest: in_set_takeD)
  have not_same: "\<not> (after b col ?x \<and> same b col ?x)"
    by (auto simp: after_def same_def)
  show ?thesis
  proof (cases "k < first_owned ic")
    case True
    then have "ic_state ic = None" "k < 3"
      by (auto simp: first_owned_def split: if_splits)
    then have "isStateCol (snd ?x) (fst ?x)"
      using nth_mem [of k "take 3 ifCyclerColumns"] state_columns(1) k(1) by simp
    moreover have "emitFromColumn ic d k i0 = Some (case next_cell ic cur of None \<Rightarrow> ([], []) | Some z \<Rightarrow> served ic d z)"
      using True later [of "first_owned ic"] \<open>k < 3\<close> length_columns
      by (intro step_to_column [OF assms(1,2) k(1)]) (auto simp: max_def first_owned_def split: if_splits)
    ultimately show ?thesis
      using \<open>ic_state ic = None\<close> by simp
  next
    case lo: False
    have "\<not> (ic_state ic = None \<and> isStateCol (snd ?x) (fst ?x))"
      using nth_mem [of "k - 3" "drop 3 ifCyclerColumns"] state_columns(2) k(1) lo by (auto simp: first_owned_def)
    moreover have "cur < cell ?x i \<longleftrightarrow> (same b col ?x \<longrightarrow> m < i)" if "i \<in> set ?idx" for i
      using assms(3) [OF nth_mem [OF k(1)] that] k(3) not_same by blast
    note column_step [OF assms(1,2) k(1) _ before this later, of d]
    ultimately show ?thesis
      using lo by (subst if_not_P [of "ic_state ic = None \<and> isStateCol (snd ?x) (fst ?x)"]) auto
  qed
qed

lemma NextDynamicOID_at:
  assumes "sortedIfIndexes ic = i0 # r0" and "table_suffix oid = Some (s, b)" and "suffix_position s = (Some col, m, False)"
    and "0 \<le> m" and "m < 2 ^ 63 - 1"
  shows "NextDynamicOID (Some ic) d oid =
    (case column_from b col 0 ifCyclerColumns of
       None \<Rightarrow> Some ([], [])
     | Some k \<Rightarrow>
         (if same b col (ifCyclerColumns ! k)
          then if ic_state ic = None \<and> isStateCol (snd (ifCyclerColumns ! k)) (fst (ifCyclerColumns ! k))
               then emitFromColumn ic d k i0
               else if SearchInts (sortedIfIndexes ic) (m + 1) < length (sortedIfIndexes ic)
               then emitFromColumn ic d k (sortedIfIndexes ic ! SearchInts (sortedIfIndexes ic) (m + 1))
               else if length ifCyclerColumns \<le> k + 1 then Some ([], []) else emitFromColumn ic d (k + 1) i0
          else emitFromColumn ic d k i0))"
  unfolding NextDynamicOID_def
  by (simp add: assms(1-3) Let_def incr_small [OF assms(4,5)] same_def split: option.split prod.split) auto

text \<open>A position inside one of the two tables.\<close>

lemma next_in_table:
  assumes "wf_cycler ic" and "cur = table_arcs b @ (col # rest)" and "\<forall>v\<in>set (col # rest). v < 2 ^ 63 - 1"
  shows "NextDynamicOID (Some ic) d (oid_text cur) =
    Some (case next_cell ic cur of None \<Rightarrow> ([], []) | Some z \<Rightarrow> served ic d z)"
proof -
  let ?idx = "sortedIfIndexes ic"
  define m where "m = (case rest of [] \<Rightarrow> 0 | m # _ \<Rightarrow> int m)"
  obtain i0 r0 where idx: "?idx = i0 # r0"
    using assms(1) by (cases ?idx) (auto simp: wf_cycler_def wf_indexes_def)
  have i0: "i0 \<in> set ?idx"
    by (simp add: idx)
  have m: "0 \<le> m" "m < 2 ^ 63 - 1"
    using assms(3) by (auto simp: m_def split: list.splits)
  have beyond: "cur < cell x i \<longleftrightarrow> after b (int col) x \<or> same b (int col) x \<and> m < i"
    if "x \<in> set ifCyclerColumns" "i \<in> set ?idx" for x i
    using cur_less_cell [OF that(1), of b col rest i] rest_less [of i rest] known_index [OF assms(1) that(2)]
    by (simp add: assms(2) m_def)
  have sfx: "table_suffix (oid_text cur) = Some (Join (map FormatUint (col # rest)), b)"
    by (subst table_suffix_text) (auto simp: assms(2))
  have pos: "suffix_position (Join (map FormatUint (col # rest))) = (Some (int col), m, False)"
    using assms(3) by (subst suffix_position_text) (auto simp: m_def)
  note code = NextDynamicOID_at [OF idx sfx pos m, of d]
  show ?thesis
  proof (cases "column_from b (int col) 0 ifCyclerColumns")
    case None
    then have "\<forall>x\<in>set ifCyclerColumns. \<not> after b (int col) x \<and> \<not> same b (int col) x"
      by (rule column_from_None)
    then have "\<not> cur < cell x i" if "x \<in> set (owned_columns ic)" "i \<in> set ?idx" for x i
      using beyond [OF _ that(2)] that(1) owned_subset by blast
    then have "next_cell ic cur = None"
      unfolding next_cell_def find_None_iff cells_def by auto
    then show ?thesis
      using code None by simp
  next
    case (Some k)
    then show ?thesis
      using code table_step [OF assms(1) idx beyond Some] by simp
  qed
qed

text \<open>A position outside both tables, before the first cell.\<close>

lemma next_before_tables:
  assumes "wf_cycler ic" and "legal_arcs cur" and "table_suffix (oid_text cur) = None"
    and "cur < cell (hd ifCyclerColumns) (hd (sortedIfIndexes ic))"
  shows "NextDynamicOID (Some ic) d (oid_text cur) =
    Some (case next_cell ic cur of None \<Rightarrow> ([], []) | Some z \<Rightarrow> served ic d z)"
proof -
  obtain i0 r0 where idx: "sortedIfIndexes ic = i0 # r0"
    using assms(1) by (cases "sortedIfIndexes ic") (auto simp: wf_cycler_def wf_indexes_def)
  have i0: "1 \<le> i0" "i0 \<le> 65535"
    using known_index [OF assms(1), of i0] by (simp_all add: idx)
  have c0: "hd ifCyclerColumns \<in> set ifCyclerColumns" "hd ifCyclerColumns = ifCyclerColumns ! 0"
    by (simp_all add: ifCyclerColumns_def)
  have "firstDynOID ic = oid_text (cell (hd ifCyclerColumns) i0)"
    using assms(1) column_oid_cell [OF c0(1), of i0] i0 by (simp add: wf_cycler_def wf_indexes_def idx)
  moreover have "\<forall>v\<in>set (cell (hd ifCyclerColumns) i0). v < 2 ^ 63" "cell (hd ifCyclerColumns) i0 \<noteq> []"
    using i0 column_prefix [OF c0(1)] table_arcs_simps(2) by (auto simp: cell_def)
  ultimately have "compareOIDs (oid_text cur) (firstDynOID ic) < 0"
    using assms(4) legal_arcs_bound [OF assms(2)] by (simp add: oid_less_text(2) idx)
  then have code: "NextDynamicOID (Some ic) d (oid_text cur) = emitFromColumn ic d 0 i0"
    by (simp add: NextDynamicOID_def idx assms(3))
  have lo: "first_owned ic < length ifCyclerColumns"
    by (simp add: first_owned_def length_columns)
  have "cell (ifCyclerColumns ! 0) i0 \<le> cell (ifCyclerColumns ! first_owned ic) i0"
    using cell_less [of "ifCyclerColumns ! 0" "ifCyclerColumns ! first_owned ic" i0 i0] lo i0
      sorted_wrt_nth_less [OF columns_ascending, of 0 "first_owned ic"]
    by (cases "first_owned ic = 0") (auto simp: length_columns intro: less_imp_le)
  then show ?thesis
    unfolding code using assms(4) idx c0(2) lo by (intro step_to_column [OF assms(1) idx]) auto
qed

text \<open>The cells are listed in ascending order.\<close>

lemma sorted_wrt_concat_map:
  assumes "\<And>x. x \<in> set xs \<Longrightarrow> sorted_wrt R (f x)"
    and "sorted_wrt (\<lambda>x y. \<forall>a\<in>set (f x). \<forall>b\<in>set (f y). R a b) xs"
  shows "sorted_wrt R (concat (map f xs))"
  using assms by (induction xs) (auto simp: sorted_wrt_append)

lemma cells_ascending:
  assumes "wf_cycler ic"
  shows "sorted_wrt (<) (cells ic)"
  unfolding cells_def
proof (rule sorted_wrt_concat_map)
  fix x assume "x \<in> set (owned_columns ic)"
  then have "x \<in> set ifCyclerColumns"
    using owned_subset by blast
  then show "sorted_wrt (<) (map (cell x) (sortedIfIndexes ic))"
    using assms cell_less [of x x] nonneg_index [OF assms]
    by (auto simp: sorted_wrt_map wf_cycler_def wf_indexes_def intro!: sorted_wrt_mono_rel [of _ "(<)"])
next
  have "sorted_wrt (\<lambda>x y. after (fst x = ifXTablePrefix) (snd x) y) (owned_columns ic)"
    unfolding owned_columns_drop by (rule sorted_wrt_drop [OF columns_ascending])
  then show "sorted_wrt (\<lambda>x y. \<forall>a\<in>set (map (cell x) (sortedIfIndexes ic)). \<forall>b\<in>set (map (cell y) (sortedIfIndexes ic)). a < b)
      (owned_columns ic)"
  proof (rule sorted_wrt_mono_rel [rotated])
    fix x y assume "x \<in> set (owned_columns ic)" "y \<in> set (owned_columns ic)" "after (fst x = ifXTablePrefix) (snd x) y"
    then show "\<forall>a\<in>set (map (cell x) (sortedIfIndexes ic)). \<forall>b\<in>set (map (cell y) (sortedIfIndexes ic)). a < b"
      using cell_less [of x y] owned_subset [of ic] nonneg_index [OF assms] by auto
  qed
qed

lemma served_cell:
  assumes "wf_cycler ic" and "z \<in> set (cells ic)"
  shows "\<exists>v. served ic d z = (oid_text z, v) \<and> GetDynamicAt (Some ic) d (oid_text z) = Some v \<and> v \<noteq> []"
proof -
  obtain c i where ci: "c \<in> set (owned_columns ic)" "i \<in> set (sortedIfIndexes ic)" "z = cell c i"
    using assms(2) by (auto simp: cells_def)
  then have "c \<in> set ifCyclerColumns"
    using owned_subset by blast
  then show ?thesis
    using GetDynamicAt_cell [OF assms(1) _ ci(2)] cell_value_total [OF assms(1) ci(1,2), of d] ci(3) by (auto simp: served_def)
qed

section \<open>Properties\<close>

text \<open>
  Where the walk over the dynamic rows starts: before the first row, or anywhere inside the two tables.
\<close>

definition walkable :: "IfCounterCycler \<Rightarrow> nat list \<Rightarrow> bool" where
  "walkable ic cur \<longleftrightarrow> cur < cell (hd ifCyclerColumns) (hd (sortedIfIndexes ic))
     \<or> (\<exists>b rest. rest \<noteq> [] \<and> cur = table_arcs b @ rest)"

lemma outside_tables:
  assumes "cur \<noteq> []" and "\<not> (\<exists>b rest. rest \<noteq> [] \<and> cur = table_arcs b @ rest)"
  shows "table_suffix (oid_text cur) = None"
  using table_suffix_text [OF assms(1)] assms(2) by (metis option.exhaust surj_pair)

lemma NextDynamicOID_walkable:
  assumes "wf_cycler ic" and "legal_arcs cur" and "walkable ic cur"
  shows "case find (\<lambda>z. cur < z) (cells ic) of
      None \<Rightarrow> NextDynamicOID (Some ic) d (oid_text cur) = Some ([], [])
    | Some z \<Rightarrow> \<exists>v. NextDynamicOID (Some ic) d (oid_text cur) = Some (oid_text z, v)
                    \<and> GetDynamicAt (Some ic) d (oid_text z) = Some v \<and> v \<noteq> []"
proof -
  have "NextDynamicOID (Some ic) d (oid_text cur) =
      Some (case next_cell ic cur of None \<Rightarrow> ([], []) | Some z \<Rightarrow> served ic d z)"
  proof (cases "\<exists>b rest. rest \<noteq> [] \<and> cur = table_arcs b @ rest")
    case True
    then obtain b col rest where "cur = table_arcs b @ (col # rest)"
      by (metis list.exhaust)
    then show ?thesis
      using position_bound [OF assms(2)] by (intro next_in_table [OF assms(1)]) auto
  next
    case False
    then have "table_suffix (oid_text cur) = None"
      using table_suffix_text [of cur] position_bound [OF assms(2)] by (metis option.exhaust surj_pair)
    then show ?thesis
      using next_before_tables [OF assms(1,2)] assms(3) False by (simp add: walkable_def)
  qed
  moreover have "z \<in> set (cells ic)" if "next_cell ic cur = Some z" for z
    using that by (auto simp: next_cell_def find_Some_iff)
  ultimately show ?thesis
    using served_cell [OF assms(1), of _ d] unfolding next_cell_def [symmetric]
    by (cases "next_cell ic cur") fastforce+
qed

lemma first_cell_text:
  assumes "wf_cycler ic"
  shows "firstDynOID ic = oid_text (cell (hd ifCyclerColumns) (hd (sortedIfIndexes ic)))"
    and "cell (hd ifCyclerColumns) (hd (sortedIfIndexes ic)) \<noteq> []"
    and "\<forall>v\<in>set (cell (hd ifCyclerColumns) (hd (sortedIfIndexes ic))). v < 2 ^ 63"
proof -
  have i0: "hd (sortedIfIndexes ic) \<in> set (sortedIfIndexes ic)"
    using assms by (intro hd_in_set) (simp add: wf_cycler_def wf_indexes_def)
  have c0: "hd ifCyclerColumns \<in> set ifCyclerColumns"
    by (simp add: ifCyclerColumns_def)
  show "firstDynOID ic = oid_text (cell (hd ifCyclerColumns) (hd (sortedIfIndexes ic)))"
    using assms column_oid_cell [OF c0 nonneg_index [OF assms i0]] by (simp add: wf_cycler_def wf_indexes_def)
  show "cell (hd ifCyclerColumns) (hd (sortedIfIndexes ic)) \<noteq> []"
    and "\<forall>v\<in>set (cell (hd ifCyclerColumns) (hd (sortedIfIndexes ic))). v < 2 ^ 63"
    using known_index [OF assms i0] column_prefix [OF c0] table_arcs_simps(2) by (auto simp: cell_def)
qed

lemma NextDynamicOID_gap:
  assumes "wf_cycler ic" and "legal_arcs cur" and "\<not> walkable ic cur"
  shows "NextDynamicOID (Some ic) d (oid_text cur) = Some ([], [])"
proof -
  have "table_suffix (oid_text cur) = None"
    using assms(3) legal_arcs_bound [OF assms(2)] by (intro outside_tables) (auto simp: walkable_def)
  moreover have "\<not> compareOIDs (oid_text cur) (firstDynOID ic) < 0"
    using assms(3) first_cell_text [OF assms(1)] legal_arcs_bound [OF assms(2)] by (simp add: walkable_def oid_less_text(2))
  ultimately show ?thesis
    by (simp add: NextDynamicOID_def split: list.split)
qed

text \<open>
  C32: \<^verbatim>\<open>NextDynamicOID\<close> implements the walk over the table of all owned (column, interface) cells: from a
  position before the first cell, or inside one of the two tables, it returns the first cell strictly beyond the
  position with the cell's (non-empty) value, and the empty pair when there is none. The cells are in ascending
  order, so the walk never goes back and never skips one. From any other position, which includes those between the
  two tables such as \<^verbatim>\<open>ifXEntry\<close> itself, it returns the empty pair although cells may lie beyond.
\<close>

theorem next_dynamic_least:
  assumes "wf_cycler ic" and "legal_arcs cur"
  shows "sorted_wrt (<) (cells ic)
    \<and> (if walkable ic cur
       then (case find (\<lambda>z. cur < z) (cells ic) of
               None \<Rightarrow> NextDynamicOID (Some ic) d (oid_text cur) = Some ([], [])
             | Some z \<Rightarrow> \<exists>v. NextDynamicOID (Some ic) d (oid_text cur) = Some (oid_text z, v)
                             \<and> GetDynamicAt (Some ic) d (oid_text z) = Some v \<and> v \<noteq> [])
       else NextDynamicOID (Some ic) d (oid_text cur) = Some ([], []))"
  using NextDynamicOID_walkable [OF assms] NextDynamicOID_gap [OF assms] cells_ascending [OF assms(1)] by simp

definition sample_dial :: dial where
  "sample_dial = \<lparr>heldDeltasAt = (\<lambda>_. (7, 9)), ratioPkts = (\<lambda>_ _ _ _. 3), totalPkts = (\<lambda>_ _ _. 5)\<rparr>"

definition sample_cycler :: IfCounterCycler where
  "sample_cycler = \<lparr>ic_maxIfIndex = 2, knownIfIndexes = [1, 2], sortedIfIndexes = [1, 2],
     firstDynOID = column_oid (hd ifCyclerColumns) 1, lastDynOID = column_oid (last ifCyclerColumns) 2,
     baseInOctets = [0, 0], baseOutOctets = [0, 0], baseInUcast = [0, 0], baseInMcast = [0, 0], baseInBcast = [0, 0],
     baseOutUcast = [0, 0], baseOutMcast = [0, 0], baseOutBcast = [0, 0], errPpmIn = [0, 0], errPpmOut = [0, 0],
     discPpmIn = [0, 0], discPpmOut = [0, 0], baseInErr = [0, 0], baseOutErr = [0, 0], baseInDisc = [0, 0],
     baseOutDisc = [0, 0], ic_state = Some sample_engine\<rparr>"

lemma sample_wf: "wf_cycler sample_cycler"
  using reachable_wf [OF sample_reachable] sample_fields
  by (simp add: sample_cycler_def wf_cycler_def wf_indexes_def sized_arrays_def)

theorem next_dynamic_least_witness:
  "\<exists>v. NextDynamicOID (Some sample_cycler) sample_dial (oid_text [1, 3, 6, 1, 2, 1, 2, 2, 1, 8, 2])
         = Some (oid_text [1, 3, 6, 1, 2, 1, 2, 2, 1, 9, 1], v) \<and> v \<noteq> []
    \<and> NextDynamicOID (Some sample_cycler) sample_dial (oid_text ifXTable_arcs) = Some ([], [])
    \<and> (\<exists>z\<in>set (cells sample_cycler). ifXTable_arcs < z)"
proof -
  let ?cur = "[1, 3, 6, 1, 2, 1, 2, 2, 1, 8, 2] :: nat list"
  have "walkable sample_cycler ?cur"
    unfolding walkable_def by (intro disjI2 exI [of _ False] exI [of _ "[8, 2]"]) (simp add: table_arcs_def ifTable_arcs_def)
  moreover have "find (\<lambda>z. ?cur < z) (cells sample_cycler) = Some [1, 3, 6, 1, 2, 1, 2, 2, 1, 9, 1]"
    using prefixes_differ
    by (simp add: cells_def owned_columns_def sample_cycler_def ifCyclerColumns_def cell_def table_arcs_def ifTable_arcs_def)
  moreover have "\<not> walkable sample_cycler ifXTable_arcs"
    using prefixes_differ
    by (auto simp: walkable_def sample_cycler_def ifCyclerColumns_def cell_def table_arcs_def ifTable_arcs_def ifXTable_arcs_def
        split: if_splits)
  moreover have "ifXTable_arcs < cell (ifXTablePrefix, 2) 1" "cell (ifXTablePrefix, 2) 1 \<in> set (cells sample_cycler)"
    by (simp_all add: cells_def owned_columns_def sample_cycler_def ifCyclerColumns_def cell_def table_arcs_def ifXTable_arcs_def)
  ultimately show ?thesis
    using next_dynamic_least [OF sample_wf, of ?cur sample_dial] next_dynamic_least [OF sample_wf, of ifXTable_arcs sample_dial]
    by (auto simp: ifXTable_arcs_def)
qed

text \<open>The 32-bit columns and the 64-bit columns they repeat.\<close>

definition shadow_columns :: "((string \<times> int) \<times> (string \<times> int)) list" where
  "shadow_columns =
     [((ifXTablePrefix, colIfHCInMulticastPkts), (ifXTablePrefix, colIfInMulticastPkts)),
      ((ifXTablePrefix, colIfHCInBroadcastPkts), (ifXTablePrefix, colIfInBroadcastPkts)),
      ((ifXTablePrefix, colIfHCOutMulticastPkts), (ifXTablePrefix, colIfOutMulticastPkts)),
      ((ifXTablePrefix, colIfHCOutBroadcastPkts), (ifXTablePrefix, colIfOutBroadcastPkts)),
      ((ifXTablePrefix, colIfHCInOctets), (ifTablePrefix, colIfInOctets)),
      ((ifXTablePrefix, colIfHCOutOctets), (ifTablePrefix, colIfOutOctets)),
      ((ifXTablePrefix, colIfHCInUcastPkts), (ifTablePrefix, colIfInUcastPkts)),
      ((ifXTablePrefix, colIfHCOutUcastPkts), (ifTablePrefix, colIfOutUcastPkts))]"

lemma low32_mod: "low32 v = FormatUint (unat v mod 2 ^ 32)"
proof -
  have "v AND 0xFFFFFFFF = take_bit 32 v"
    using take_bit_eq_mask [of 32 v] by (simp add: mask_eq_exp_minus_1)
  moreover have "unat (ucast (take_bit 32 v) :: 32 word) = take_bit 32 (unat v)"
    by (simp add: unsigned_ucast_eq unsigned_take_bit_eq del: take_bit_eq_mod)
  ultimately have "unat (ucast (v AND 0xFFFFFFFF) :: 32 word) = unat v mod 2 ^ 32"
    by (simp only: take_bit_eq_mod)
  then show ?thesis
    by (simp add: low32_def fmtU32_def)
qed

lemma cell_value_counter:
  "cell_value ic d True col i = ifx_column ic d (i - 1) (fst (heldDeltasAt d (i - 1))) (snd (heldDeltasAt d (i - 1))) col"
  "col \<notin> {7, 8, 9} \<Longrightarrow>
     cell_value ic d False col i = if_column ic d (i - 1) (fst (heldDeltasAt d (i - 1))) (snd (heldDeltasAt d (i - 1))) col"
  by (simp_all add: cell_value_def state_column_def Let_def case_prod_beta split: option.split)

lemma shadow_value:
  assumes "wf_cycler ic" and "(h, s) \<in> set shadow_columns" and "i \<in> set (sortedIfIndexes ic)"
  shows "\<exists>v. cell_value ic d (fst h = ifXTablePrefix) (snd h) i = Some (fmtU64 v)
    \<and> cell_value ic d (fst s = ifXTablePrefix) (snd s) i = Some (low32 v)"
proof -
  note pk = packets_total [OF assms(1,3)]
  have arr: "int (length xs) = ic_maxIfIndex ic" if "xs \<in> {baseInOctets ic, baseOutOctets ic}" for xs
    using assms(1) that by (auto simp: wf_cycler_def sized_arrays_def)
  note reads = pk [of _ _ _ d] at_array [OF assms(1,3) arr, of "baseInOctets ic"] at_array [OF assms(1,3) arr, of "baseOutOctets ic"]
  note sides = cell_value_counter ifx_column_def if_column_def
  show ?thesis
    using assms(2) prefixes_differ reads(2,3)
      reads(1) [of True False False "fst (heldDeltasAt d (i - 1))" True] reads(1) [of True False False "snd (heldDeltasAt d (i - 1))" False]
      reads(1) [of False True False "fst (heldDeltasAt d (i - 1))" True] reads(1) [of False True False "snd (heldDeltasAt d (i - 1))" False]
      reads(1) [of False False True "fst (heldDeltasAt d (i - 1))" True] reads(1) [of False False True "snd (heldDeltasAt d (i - 1))" False]
    unfolding shadow_columns_def list.set insert_iff empty_iff
    by (elim disjE FalseE) (auto simp: sides)
qed

text \<open>
  C33: at one evaluation instant, every 32-bit column of an interface reads as the low 32 bits of the 64-bit column
  it repeats, whatever the dial yields.
\<close>

theorem shadow_low32:
  assumes "wf_cycler ic" and "(h, s) \<in> set shadow_columns" and "i \<in> set (sortedIfIndexes ic)"
  shows "\<exists>n. n < 2 ^ 64 \<and> GetDynamicAt (Some ic) d (column_oid h i) = Some (FormatUint n)
    \<and> GetDynamicAt (Some ic) d (column_oid s i) = Some (FormatUint (n mod 2 ^ 32))"
proof -
  obtain v where v: "cell_value ic d (fst h = ifXTablePrefix) (snd h) i = Some (fmtU64 v)"
    "cell_value ic d (fst s = ifXTablePrefix) (snd s) i = Some (low32 v)"
    using shadow_value [OF assms] by blast
  have "h \<in> set ifCyclerColumns" "s \<in> set ifCyclerColumns"
    using assms(2) by (auto simp: shadow_columns_def ifCyclerColumns_def)
  then have "GetDynamicAt (Some ic) d (column_oid h i) = Some (fmtU64 v)"
    and "GetDynamicAt (Some ic) d (column_oid s i) = Some (low32 v)"
    using v column_oid_cell [OF _ nonneg_index [OF assms(1,3)]] GetDynamicAt_cell [OF assms(1) _ assms(3), of _ d] by simp_all
  then show ?thesis
    using unsigned_less [of v] by (auto simp: fmtU64_def low32_mod intro!: exI [of _ "unat v"])
qed

theorem shadow_low32_witness:
  "\<exists>n. n < 2 ^ 64 \<and> GetDynamicAt (Some sample_cycler) sample_dial (column_oid (ifXTablePrefix, 6) 2) = Some (FormatUint n)
    \<and> GetDynamicAt (Some sample_cycler) sample_dial (column_oid (ifTablePrefix, 10) 2) = Some (FormatUint (n mod 2 ^ 32))"
  by (rule shadow_low32 [OF sample_wf]) (simp_all add: shadow_columns_def sample_cycler_def)

end
