(* ===== verification/Lldp_Table.thy ===== *)
theory Lldp_Table
  imports Topology If_Counters
begin

text \<open>
  The LLDP-MIB tables and the interface aliases a device serves from the link graph (\<^verbatim>\<open>lldp_table.go\<close>): the
  lookup of one OID, the table of every served OID with its per-generation cache, and the walk step over the table.
  The lookup and the table are shown to agree.

  The manager is nil when there is no topology (\<open>None\<close>). Its devices are the map of \<^verbatim>\<open>devicesByIP\<close>; an
  absent key is the nil device. A panic of the state engine is \<open>None\<close> of the option result.
\<close>

section \<open>Names\<close>

definition lldpRoot :: string where
  "lldpRoot = ''.1.0.8802.1.1.2''"

definition oidLldpLocChassisIdSubtype :: string where
  "oidLldpLocChassisIdSubtype = ''.1.0.8802.1.1.2.1.3.1.0''"

definition oidLldpLocChassisId :: string where
  "oidLldpLocChassisId = ''.1.0.8802.1.1.2.1.3.2.0''"

definition oidLldpLocSysName :: string where
  "oidLldpLocSysName = ''.1.0.8802.1.1.2.1.3.3.0''"

definition oidLldpLocSysDesc :: string where
  "oidLldpLocSysDesc = ''.1.0.8802.1.1.2.1.3.4.0''"

definition lldpLocPortPrefix :: string where
  "lldpLocPortPrefix = ''.1.0.8802.1.1.2.1.3.7.1.''"

definition lldpRemPrefix :: string where
  "lldpRemPrefix = ''.1.0.8802.1.1.2.1.4.1.1.''"

definition ifAliasPrefix :: string where
  "ifAliasPrefix = ''.1.3.6.1.2.1.31.1.1.1.18.''"

definition oidSysDescr :: string where
  "oidSysDescr = ''.1.3.6.1.2.1.1.1.0''"

abbreviation (input) colLldpLocPortIdSubtype :: int where "colLldpLocPortIdSubtype \<equiv> 2"
abbreviation (input) colLldpLocPortId :: int where "colLldpLocPortId \<equiv> 3"
abbreviation (input) colLldpLocPortDesc :: int where "colLldpLocPortDesc \<equiv> 4"
abbreviation (input) colLldpRemChassisIdSubtype :: int where "colLldpRemChassisIdSubtype \<equiv> 4"
abbreviation (input) colLldpRemChassisId :: int where "colLldpRemChassisId \<equiv> 5"
abbreviation (input) colLldpRemPortIdSubtype :: int where "colLldpRemPortIdSubtype \<equiv> 6"
abbreviation (input) colLldpRemPortId :: int where "colLldpRemPortId \<equiv> 7"
abbreviation (input) colLldpRemPortDesc :: int where "colLldpRemPortDesc \<equiv> 8"
abbreviation (input) colLldpRemSysName :: int where "colLldpRemSysName \<equiv> 9"
abbreviation (input) colLldpRemSysDesc :: int where "colLldpRemSysDesc \<equiv> 10"

definition lldpChassisIdSubtypeMAC :: string where
  "lldpChassisIdSubtypeMAC = ''4''"

definition lldpPortIdSubtypeIfName :: string where
  "lldpPortIdSubtypeIfName = ''5''"

definition isLLDPOID :: "string \<Rightarrow> bool" where
  "isLLDPOID oid = HasPrefix oid (lldpRoot @ ''.'')"

definition isIfAliasOID :: "string \<Rightarrow> bool" where
  "isIfAliasOID oid = HasPrefix oid ifAliasPrefix"

section \<open>Devices\<close>

text \<open>What the provider reads of a device. \<open>dev_cycler\<close> is \<^verbatim>\<open>metricsCycler.ifCounters\<close> with both its nil
  cases merged: each of them means that the device has no interface-state engine.\<close>

record lldp_device =
  dev_IP :: "byte list option"
  cachedSysName :: "string option"
  dev_sysName :: string
  dev_oidIndex :: "(string \<Rightarrow> string option) option"
  dev_cycler :: "IfCounterCycler option"

record lldp_manager =
  mgr_topology :: Topology
  devicesByIP :: "string \<Rightarrow> lldp_device option"

definition FindDeviceByIP :: "lldp_manager \<Rightarrow> string \<Rightarrow> lldp_device option" where
  "FindDeviceByIP mgr ip = devicesByIP mgr ip"

definition chassisMACBytes :: "byte list option \<Rightarrow> string" where
  "chassisMACBytes ip = (case To4 ip of None \<Rightarrow> [] | Some v4 \<Rightarrow> bytes_string ([0x02, 0x42] @ v4))"

text \<open>\<^verbatim>\<open>s.device.IP.String()\<close> is a dotted quad exactly for an IPv4 address; any other text is no key of the
  graph.\<close>

definition deviceLinks :: "lldp_manager option \<Rightarrow> lldp_device \<Rightarrow> localLink list" where
  "deviceLinks mo dev =
     (case mo of
        None \<Rightarrow> []
      | Some mgr \<Rightarrow> (case To4 (dev_IP dev) of None \<Rightarrow> [] | Some b \<Rightarrow> LinksFor (mgr_topology mgr) (ip4_String b)))"

definition operUp :: "lldp_device option \<Rightarrow> int \<Rightarrow> bool option" where
  "operUp dev ifIndex =
     (case dev of
        None \<Rightarrow> Some True
      | Some d \<Rightarrow>
          (case dev_cycler d of
             None \<Rightarrow> Some True
           | Some ic \<Rightarrow>
               (case ic_state ic of
                  None \<Rightarrow> Some True
                | Some st \<Rightarrow> map_option (\<lambda>o'. o' = OperUp) (OperStatus st ifIndex))))"

definition lookupIfColumn :: "lldp_device \<Rightarrow> string \<Rightarrow> int \<Rightarrow> string" where
  "lookupIfColumn dev colPrefix ifIndex =
     (case dev_oidIndex dev of
        None \<Rightarrow> []
      | Some idx \<Rightarrow> (case idx (colPrefix @ Itoa ifIndex) of None \<Rightarrow> [] | Some s \<Rightarrow> s))"

definition lookupIfDescr :: "lldp_device \<Rightarrow> int \<Rightarrow> string" where
  "lookupIfDescr dev ifIndex = lookupIfColumn dev (ifTablePrefix @ ''2.'') ifIndex"

definition synthIfName :: "int \<Rightarrow> string" where
  "synthIfName ifIndex = ''GigabitEthernet0/'' @ Itoa ifIndex"

definition devIfDescr :: "lldp_device \<Rightarrow> int \<Rightarrow> string" where
  "devIfDescr dev ifIndex =
     (let d = lookupIfDescr dev ifIndex in if d \<noteq> [] then d else synthIfName ifIndex)"

definition devSysDescr :: "lldp_device \<Rightarrow> string" where
  "devSysDescr dev =
     (case dev_oidIndex dev of
        None \<Rightarrow> []
      | Some idx \<Rightarrow> (case idx oidSysDescr of None \<Rightarrow> [] | Some s \<Rightarrow> s))"

definition localSysName :: "lldp_device \<Rightarrow> string" where
  "localSysName dev = (case cachedSysName dev of Some v \<Rightarrow> v | None \<Rightarrow> dev_sysName dev)"

fun findLink :: "localLink list \<Rightarrow> int \<Rightarrow> localLink option" where
  "findLink [] ifIndex = None"
| "findLink (l # ls) ifIndex = (if LocalIfIndex l = ifIndex then Some l else findLink ls ifIndex)"

section \<open>Reading an OID\<close>

definition atoiAfter :: "string \<Rightarrow> string \<Rightarrow> int option" where
  "atoiAfter oid prefix =
     (let rest = drop (length prefix) oid
      in if rest = [] \<or> 0 \<le> index_dot rest then None else Atoi rest)"

definition parseColIndex :: "string \<Rightarrow> string \<Rightarrow> (int \<times> int) option" where
  "parseColIndex oid prefix =
     (let rest = drop (length prefix) oid; k = index_dot rest
      in if k \<le> 0 \<or> k = int (length rest) - 1 then None
         else (case Atoi (take (nat k) rest) of
                 None \<Rightarrow> None
               | Some col \<Rightarrow> (case Atoi (drop (nat k + 1) rest) of None \<Rightarrow> None | Some idx \<Rightarrow> Some (col, idx))))"

definition parseRemIndex :: "string \<Rightarrow> (int \<times> int) option" where
  "parseRemIndex oid =
     (case Split (drop (length lldpRemPrefix) oid) of
        [p0, p1, p2, p3] \<Rightarrow>
          (case (Atoi p0, Atoi p1, Atoi p2, Atoi p3) of
             (Some col, Some timeMark, Some localPort, Some remIndex) \<Rightarrow>
               if timeMark \<noteq> 0 \<or> remIndex \<noteq> 1 then None else Some (col, localPort)
           | _ \<Rightarrow> None)
      | _ \<Rightarrow> None)"

section \<open>Looking up one OID\<close>

definition alias_label :: "lldp_device \<Rightarrow> int \<Rightarrow> string" where
  "alias_label pdev ifIndex = ''to_'' @ dev_sysName pdev @ ''_'' @ devIfDescr pdev ifIndex"

definition alias_get :: "lldp_manager \<Rightarrow> lldp_device \<Rightarrow> string \<Rightarrow> string" where
  "alias_get mgr dev oid =
     (case atoiAfter oid ifAliasPrefix of
        None \<Rightarrow> []
      | Some ifIndex \<Rightarrow>
          (case findLink (deviceLinks (Some mgr) dev) ifIndex of
             None \<Rightarrow> []
           | Some ll \<Rightarrow>
               (case FindDeviceByIP mgr (PeerIP ll) of
                  None \<Rightarrow> []
                | Some pdev \<Rightarrow> if dev_sysName pdev = [] then [] else alias_label pdev (PeerIfIndex ll))))"

definition locport_get :: "lldp_device \<Rightarrow> localLink list \<Rightarrow> string \<Rightarrow> string" where
  "locport_get dev lks oid =
     (case parseColIndex oid lldpLocPortPrefix of
        None \<Rightarrow> []
      | Some (col, port) \<Rightarrow>
          (case findLink lks port of
             None \<Rightarrow> []
           | Some _ \<Rightarrow>
               if col = colLldpLocPortIdSubtype then lldpPortIdSubtypeIfName
               else if col = colLldpLocPortId \<or> col = colLldpLocPortDesc then devIfDescr dev port
               else []))"

definition rem_column :: "lldp_device \<Rightarrow> int \<Rightarrow> int \<Rightarrow> string" where
  "rem_column pdev peerIfIndex col =
     (if col = colLldpRemChassisIdSubtype then lldpChassisIdSubtypeMAC
      else if col = colLldpRemChassisId then chassisMACBytes (dev_IP pdev)
      else if col = colLldpRemPortIdSubtype then lldpPortIdSubtypeIfName
      else if col = colLldpRemPortId \<or> col = colLldpRemPortDesc then devIfDescr pdev peerIfIndex
      else if col = colLldpRemSysName then dev_sysName pdev
      else if col = colLldpRemSysDesc then devSysDescr pdev
      else [])"

definition rem_get :: "lldp_manager \<Rightarrow> lldp_device \<Rightarrow> localLink list \<Rightarrow> string \<Rightarrow> string option" where
  "rem_get mgr dev lks oid =
     (case parseRemIndex oid of
        None \<Rightarrow> Some []
      | Some (col, localPort) \<Rightarrow>
          (case findLink lks localPort of
             None \<Rightarrow> Some []
           | Some ll \<Rightarrow>
               (case FindDeviceByIP mgr (PeerIP ll) of
                  None \<Rightarrow> Some []
                | Some pdev \<Rightarrow> do {
                    here \<leftarrow> operUp (Some dev) localPort;
                    if \<not> here then Some []
                    else do {
                      there \<leftarrow> operUp (Some pdev) (PeerIfIndex ll);
                      if \<not> there then Some [] else Some (rem_column pdev (PeerIfIndex ll) col) } })))"

definition lldpGet :: "lldp_manager option \<Rightarrow> lldp_device \<Rightarrow> string \<Rightarrow> string option" where
  "lldpGet mo dev oid =
     (case mo of
        None \<Rightarrow> Some []
      | Some mgr \<Rightarrow>
          if isIfAliasOID oid then Some (alias_get mgr dev oid)
          else if \<not> isLLDPOID oid then Some []
          else let lks = deviceLinks mo dev
               in if lks = [] then Some []
                  else if oid = oidLldpLocChassisIdSubtype then Some lldpChassisIdSubtypeMAC
                  else if oid = oidLldpLocChassisId then Some (chassisMACBytes (dev_IP dev))
                  else if oid = oidLldpLocSysName then Some (localSysName dev)
                  else if oid = oidLldpLocSysDesc then Some (devSysDescr dev)
                  else if HasPrefix oid lldpLocPortPrefix then Some (locport_get dev lks oid)
                  else if HasPrefix oid lldpRemPrefix then rem_get mgr dev lks oid
                  else Some [])"

section \<open>The table of served OIDs\<close>

type_synonym kvOID = "string \<times> string"

text \<open>The rows one link contributes, before the empty values are left out.\<close>

definition link_rows :: "lldp_manager \<Rightarrow> lldp_device \<Rightarrow> localLink \<Rightarrow> kvOID list option" where
  "link_rows mgr dev ll =
     (let port = LocalIfIndex ll; desc = devIfDescr dev port;
          locport = [(lldpLocPortPrefix @ Itoa colLldpLocPortIdSubtype @ ''.'' @ Itoa port, lldpPortIdSubtypeIfName),
                     (lldpLocPortPrefix @ Itoa colLldpLocPortId @ ''.'' @ Itoa port, desc),
                     (lldpLocPortPrefix @ Itoa colLldpLocPortDesc @ ''.'' @ Itoa port, desc)]
      in case FindDeviceByIP mgr (PeerIP ll) of
           None \<Rightarrow> Some locport
         | Some pdev \<Rightarrow>
             let peerDesc = devIfDescr pdev (PeerIfIndex ll);
                 alias = (if dev_sysName pdev \<noteq> []
                          then [(ifAliasPrefix @ Itoa port, ''to_'' @ dev_sysName pdev @ ''_'' @ peerDesc)] else []);
                 idx = ''0.'' @ Itoa port @ ''.1''
             in do {
                  here \<leftarrow> operUp (Some dev) port;
                  if \<not> here then Some (locport @ alias)
                  else do {
                    there \<leftarrow> operUp (Some pdev) (PeerIfIndex ll);
                    if \<not> there then Some (locport @ alias)
                    else Some (locport @ alias @
                      [(lldpRemPrefix @ Itoa colLldpRemChassisIdSubtype @ ''.'' @ idx, lldpChassisIdSubtypeMAC),
                       (lldpRemPrefix @ Itoa colLldpRemChassisId @ ''.'' @ idx, chassisMACBytes (dev_IP pdev)),
                       (lldpRemPrefix @ Itoa colLldpRemPortIdSubtype @ ''.'' @ idx, lldpPortIdSubtypeIfName),
                       (lldpRemPrefix @ Itoa colLldpRemPortId @ ''.'' @ idx, peerDesc),
                       (lldpRemPrefix @ Itoa colLldpRemPortDesc @ ''.'' @ idx, peerDesc),
                       (lldpRemPrefix @ Itoa colLldpRemSysName @ ''.'' @ idx, dev_sysName pdev),
                       (lldpRemPrefix @ Itoa colLldpRemSysDesc @ ''.'' @ idx, devSysDescr pdev)]) } })"

fun all_link_rows :: "lldp_manager \<Rightarrow> lldp_device \<Rightarrow> localLink list \<Rightarrow> kvOID list option" where
  "all_link_rows mgr dev [] = Some []"
| "all_link_rows mgr dev (ll # lks) =
     do { rows \<leftarrow> link_rows mgr dev ll; rest \<leftarrow> all_link_rows mgr dev lks; Some (rows @ rest) }"

definition buildLLDPServedOIDs :: "lldp_manager \<Rightarrow> lldp_device \<Rightarrow> kvOID list option" where
  "buildLLDPServedOIDs mgr dev =
     (let lks = deviceLinks (Some mgr) dev
      in if lks = [] then Some []
         else do {
           rows \<leftarrow> all_link_rows mgr dev lks;
           let out = filter (\<lambda>(oid, val). val \<noteq> [])
                 ([(oidLldpLocChassisIdSubtype, lldpChassisIdSubtypeMAC),
                   (oidLldpLocChassisId, chassisMACBytes (dev_IP dev)),
                   (oidLldpLocSysName, localSysName dev),
                   (oidLldpLocSysDesc, devSysDescr dev)] @ rows);
           Some (sort_oids fst out) })"

text \<open>The table memoised per generation of the graph; the cache is returned updated.\<close>

definition lldpServedOIDs ::
  "lldp_manager option \<Rightarrow> lldp_device \<Rightarrow> (u64 \<times> kvOID list) option \<Rightarrow> (kvOID list \<times> (u64 \<times> kvOID list) option) option" where
  "lldpServedOIDs mo dev cache =
     (case mo of
        None \<Rightarrow> Some ([], cache)
      | Some mgr \<Rightarrow>
          (case cache of
             Some (g, kvs) \<Rightarrow>
               if g = gen (mgr_topology mgr) then Some (kvs, cache)
               else do { kvs' \<leftarrow> buildLLDPServedOIDs mgr dev; Some (kvs', Some (gen (mgr_topology mgr), kvs')) }
           | None \<Rightarrow> do { kvs' \<leftarrow> buildLLDPServedOIDs mgr dev; Some (kvs', Some (gen (mgr_topology mgr), kvs')) }))"

definition lldpNextFromServed :: "kvOID list \<Rightarrow> string \<Rightarrow> kvOID" where
  "lldpNextFromServed kvs currentOID =
     (let lo = upper_bound (map fst kvs) currentOID 0 (length kvs)
      in if lo < length kvs then kvs ! lo else ([], []))"

definition overrideLLDP :: "lldp_manager option \<Rightarrow> lldp_device \<Rightarrow> string \<Rightarrow> string \<Rightarrow> string option" where
  "overrideLLDP mo dev oid staticResp =
     (if \<not> isLLDPOID oid \<and> \<not> isIfAliasOID oid then Some staticResp
      else do { v \<leftarrow> lldpGet mo dev oid; if v \<noteq> [] then Some v else Some staticResp })"

section \<open>The served cells as arc lists\<close>















section \<open>The table, cell by cell\<close>
























section \<open>Lookup and table agree\<close>














section \<open>The table is ascending\<close>









section \<open>Properties\<close>







end
