(* ===== verification/Spec2Isabelle.thy ===== *)
theory Spec2Isabelle
  imports Snmp_Set If_Cas If_Hierarchy Lldp_Table
begin

text \<open>
  Verification library of nl6, a simulator of network devices (sources under \<^verbatim>\<open>src/go/nl6\<close>). A simulated
  device answers SNMP requests from a resource file, from an interface state engine and from counters; devices are
  connected by a link graph. The library models the SNMPv1/v2c path of a device (datagram in, decision, datagram
  out), the interface state behind it, the dynamic IF-MIB columns and the link graph.

  \<^bold>\<open>Conventions.\<close> A byte is \<open>8 word\<close>, \<^verbatim>\<open>uint64\<close> is \<open>64 word\<close>, \<^verbatim>\<open>int\<close> is \<open>int\<close> (with the
  wrap-around written out where a sum can reach it), a Go string is a list of characters, one per byte. A run-time
  panic (an index or slice out of range) is \<open>None\<close> of the option monad, so that every totality statement is also a
  statement that no datagram crashes the simulator; an error value is an option, a sum or a datatype of its own. A
  Go map whose order can be observed is an association list, any other map a function. Loops are structural
  recursion or recursion with a termination proof; there is no fuel anywhere, except that the address reader of
  \<^verbatim>\<open>Go_Netip\<close> counts the at most eight groups of an IPv6 text.

  \<^bold>\<open>Theories and sources.\<close>
  \<^item> \<^verbatim>\<open>Go_Prelude\<close>: bytes, indexing and slicing with their panics, the \<open>safe\<close> calculus (a weakest
    precondition for the option monad) with its rule collection.
  \<^item> \<^verbatim>\<open>Go_Strconv\<close>, \<^verbatim>\<open>Go_Netip\<close>, \<^verbatim>\<open>Go_Search\<close>: what the sources use of \<^verbatim>\<open>strings\<close>,
    \<^verbatim>\<open>strconv\<close>, \<^verbatim>\<open>net\<close> and \<^verbatim>\<open>sort\<close>, and the binary search loop of the walk code.
  \<^item> \<^verbatim>\<open>Snmp_Ber\<close> (\<^verbatim>\<open>snmp_encoding.go\<close>, \<^verbatim>\<open>parseBERInt\<close> of \<^verbatim>\<open>snmp_handlers.go\<close>,
    \<^verbatim>\<open>lenBytesFor\<close> of \<^verbatim>\<open>snmp_response.go\<close>): lengths, INTEGER, unsigned types and the other BER
    fields, with round trips.
  \<^item> \<^verbatim>\<open>Snmp_Oid\<close> (\<^verbatim>\<open>encodeOID\<close>, \<^verbatim>\<open>decodeOID\<close>, \<^verbatim>\<open>compareOIDs\<close>): both directions of the OID codec and
    the comparison, shown to be a linear order; the locale \<open>oid_order\<close> is what the walk code needs of it.
  \<^item> \<^verbatim>\<open>Snmp_Types\<close> (\<^verbatim>\<open>oidTypeTable\<close>, \<^verbatim>\<open>encodeTypedValue\<close>): the tag of an OID and the encoding of a value.
  \<^item> \<^verbatim>\<open>Snmp_Request\<close> (the request readers of \<^verbatim>\<open>snmp_response.go\<close> and \<^verbatim>\<open>snmp_handlers.go\<close>): all of
    them total on every datagram and in agreement with each other.
  \<^item> \<^verbatim>\<open>Snmp_Message\<close>: requests written with the encoders, read back by all readers.
  \<^item> \<^verbatim>\<open>Snmp_Response\<close> (\<^verbatim>\<open>createVarbindResponse\<close> and its rules): sizes, truncation, tooBig, the SNMPv1
    diversion. \<^verbatim>\<open>Snmp_Echo\<close>: the binding readers do not depend on where the list stands in the datagram.
  \<^item> \<^verbatim>\<open>If_State\<close> (\<^verbatim>\<open>interface_state.go\<close>): the packed slots, the derived status with its one-level
    hierarchy, both mutators with their cascade, the readers, and the fan-out to listeners; the abstract
    specification \<open>spec_move\<close> says which interfaces a write stamps and which events it calls for.
  \<^item> \<^verbatim>\<open>If_Cas\<close>: the compare-and-swap loops of the mutators as threads of an interleaving.
  \<^item> \<^verbatim>\<open>If_Hierarchy\<close> (\<^verbatim>\<open>interface_hierarchy.go\<close>): the parent table computed from names and stack rows.
  \<^item> \<^verbatim>\<open>Snmp_Set\<close> (\<^verbatim>\<open>snmp_set.go\<close>): the writable columns, the validation ladder, the apply step through the
    locale \<open>admin_funnel\<close> of the engine, the handler and the admission tests.
  \<^item> \<^verbatim>\<open>If_Counters\<close> (\<^verbatim>\<open>if_counters.go\<close>): the dynamic columns, the value of one cell, and the walk over the
    cells.
  \<^item> \<^verbatim>\<open>Topology\<close> (\<^verbatim>\<open>topology.go\<close>): the link graph and its adjacency index, refining a matching of ports.
  \<^item> \<^verbatim>\<open>Lldp_Table\<close> (\<^verbatim>\<open>lldp_table.go\<close>): the LLDP rows and interface aliases a device serves from the link
    graph, as a lookup and as a sorted table.

  \<^bold>\<open>How the parts meet.\<close> A datagram goes through the readers of \<^verbatim>\<open>Snmp_Request\<close>; a SET goes to
  \<^verbatim>\<open>Snmp_Set\<close>, which writes the engine of \<^verbatim>\<open>If_State\<close> and broadcasts; the answer is built by
  \<^verbatim>\<open>Snmp_Response\<close> from the values of \<^verbatim>\<open>Snmp_Types\<close> and read back by the same readers in the round-trip
  theorems. The counters read the engine for the three state columns, the LLDP rows read it
  for the liveness of a link and the link graph for its ends.

  \<^bold>\<open>What is shown.\<close> Round trips of every codec; totality of the readers and of the SET handler; agreement
  of the readers; all-or-nothing answers and SETs; the invariant of the engine, its refinement of the abstract
  specification, its behaviour under interleaving and towards its listeners; the walk over dynamic rows against a
  reference table; the invariant and the refinement of the link graph; agreement of the LLDP lookup with its table. Where the code departs from its comments the
  property states what the code does.

  \<^bold>\<open>Parameters.\<close> The wall clock of the engine is an argument of its mutators. The counter dial is
  floating-point; the record \<open>dial\<close> holds what the integer code takes from it, and no law of it is assumed.

  \<^bold>\<open>Not modelled.\<close> SNMPv3 (cryptographic primitives of the Go library), gNMI and the generated protocol
  buffers, the exporters, schedulers and servers that consist of timers, sockets, files and goroutines, the HTTP
  handlers, the floating-point signal generators, and the offline command-line tools. Log texts and statistics
  counters of the modelled functions are left out.
\<close>

end
